(* ===== verification/GoStrings.thy ===== *)
theory GoStrings
  imports Prelude
begin

section \<open>Go strings: the standard library functions the source uses\<close>

text \<open>
  A Go string is a sequence of bytes, here a list of characters (\<open>char\<close> has 256 values). This
  theory writes out what the source uses of \<open>strings\<close>, \<open>strconv\<close> and \<open>fmt\<close>: trimming,
  searching, decimal rendering and parsing of 64-bit integers.
\<close>

text \<open>
  \<open>all_space\<close>: every rune is Unicode white space. The white space runes are recognised in
  their UTF-8 encoding.
\<close>

definition ascii_space :: "char \<Rightarrow> bool" where
  "ascii_space c \<longleftrightarrow> of_char c \<in> {9, 10, 11, 12, 13, 32 :: nat}"

definition space2 :: "nat \<Rightarrow> nat \<Rightarrow> bool" where
  "space2 a b \<longleftrightarrow> a = 194 \<and> (b = 133 \<or> b = 160)"

definition space3 :: "nat \<Rightarrow> nat \<Rightarrow> nat \<Rightarrow> bool" where
  "space3 a b c \<longleftrightarrow>
     (a = 225 \<and> b = 154 \<and> c = 128)
   \<or> (a = 226 \<and> b = 128 \<and> (128 \<le> c \<and> c \<le> 138 \<or> c = 168 \<or> c = 169 \<or> c = 175))
   \<or> (a = 226 \<and> b = 129 \<and> c = 159)
   \<or> (a = 227 \<and> b = 128 \<and> c = 128)"

fun all_space :: "string \<Rightarrow> bool" where
  "all_space [] = True"
| "all_space [c] = ascii_space c"
| "all_space [c, d] =
     (if ascii_space c then all_space [d] else space2 (of_char c) (of_char d))"
| "all_space (c # d # e # s) =
     (if ascii_space c then all_space (d # e # s)
      else if space2 (of_char c) (of_char d) then all_space (e # s)
      else if space3 (of_char c) (of_char d) (of_char e) then all_space s
      else False)"

fun trim_left :: "string \<Rightarrow> string" where
  "trim_left [] = []"
| "trim_left [c] = (if ascii_space c then [] else [c])"
| "trim_left [c, d] =
     (if ascii_space c then trim_left [d]
      else if space2 (of_char c) (of_char d) then [] else [c, d])"
| "trim_left (c # d # e # s) =
     (if ascii_space c then trim_left (d # e # s)
      else if space2 (of_char c) (of_char d) then trim_left (e # s)
      else if space3 (of_char c) (of_char d) (of_char e) then trim_left s
      else c # d # e # s)"

fun trim_right :: "string \<Rightarrow> string" where
  "trim_right [] = []"
| "trim_right (c # s) = (if all_space (c # s) then [] else c # trim_right s)"

definition trim_space :: "string \<Rightarrow> string" where
  "trim_space s = trim_right (trim_left s)"

lemma trim_left_all_space: "trim_left s = [] \<longleftrightarrow> all_space s"
  by (induction s rule: trim_left.induct) auto

lemma trim_right_Nil: "trim_right s = [] \<longleftrightarrow> all_space s"
  by (cases s) auto

lemma all_space_trim_left: "all_space (trim_left s) \<longleftrightarrow> all_space s"
  by (induction s rule: trim_left.induct) auto

lemma trim_space_Nil: "trim_space s = [] \<longleftrightarrow> all_space s"
  by (simp add: trim_space_def trim_right_Nil all_space_trim_left)

subsection \<open>Searching\<close>

text \<open>\<open>strings.Index\<close>: the position of the first occurrence.\<close>

fun str_index :: "string \<Rightarrow> string \<Rightarrow> nat option" where
  "str_index [] sub = (if sub = [] then Some 0 else None)"
| "str_index (c # s) sub =
     (if prefix_of sub (c # s) then Some 0 else map_option Suc (str_index s sub))"

definition str_contains :: "string \<Rightarrow> string \<Rightarrow> bool" where
  "str_contains s sub \<longleftrightarrow> str_index s sub \<noteq> None"

definition has_suffix :: "string \<Rightarrow> string \<Rightarrow> bool" where
  "has_suffix s suf \<longleftrightarrow> prefix_of (rev suf) (rev s)"

lemma str_index_Some_split:
  "str_index s sub = Some i \<Longrightarrow> s = take i s @ sub @ drop (i + length sub) s \<and> i + length sub \<le> length s"
proof (induction s arbitrary: i)
  case (Cons c s)
  show ?case
  proof (cases "prefix_of sub (c # s)")
    case True
    with Cons.prems show ?thesis
      by (auto simp: prefix_of_append dest: arg_cong [where f = length])
  next
    case False
    with Cons.prems obtain j where "str_index s sub = Some j" "i = Suc j" by auto
    with Cons.IH show ?thesis by auto
  qed
qed (auto split: if_splits)

lemma str_index_take: "str_index s sub = Some i \<Longrightarrow> sub \<noteq> [] \<Longrightarrow> j < i \<Longrightarrow> \<not> prefix_of sub (drop j s)"
proof (induction s arbitrary: i j)
  case (Cons c s)
  then show ?case by (cases j) (auto split: if_splits)
qed (auto split: if_splits)

subsection \<open>Decimal numbers\<close>

definition digit_char :: "nat \<Rightarrow> char" where
  "digit_char d = char_of (48 + d)"

fun dec_nat :: "nat \<Rightarrow> string" where
  "dec_nat n = (if n < 10 then [digit_char n] else dec_nat (n div 10) @ [digit_char (n mod 10)])"

declare dec_nat.simps [simp del]

text \<open>\<open>fmt.Sprintf("%d", n)\<close> of a signed integer.\<close>

definition dec_int :: "int \<Rightarrow> string" where
  "dec_int n = (if n < 0 then CHR ''-'' # dec_nat (nat (- n)) else dec_nat (nat n))"

definition is_digit :: "char \<Rightarrow> bool" where
  "is_digit c \<longleftrightarrow> 48 \<le> (of_char c :: nat) \<and> (of_char c :: nat) \<le> 57"

definition digit_val :: "char \<Rightarrow> nat" where
  "digit_val c = of_char c - 48"

fun digits_val :: "nat \<Rightarrow> string \<Rightarrow> nat" where
  "digits_val acc [] = acc"
| "digits_val acc (c # s) = digits_val (10 * acc + digit_val c) s"

definition parse_digits :: "string \<Rightarrow> nat option" where
  "parse_digits s = (if s \<noteq> [] \<and> list_all is_digit s then Some (digits_val 0 s) else None)"

text \<open>
  \<open>strconv.ParseInt(s, 10, 64)\<close> (and \<open>strconv.Atoi\<close>): an optional sign, then decimal digits, an
  error on anything else or outside the 64-bit range.
\<close>

definition parse_int64 :: "string \<Rightarrow> int option" where
  "parse_int64 s =
     (case s of
        [] \<Rightarrow> None
      | c # ds \<Rightarrow>
          (let neg = (c = CHR ''-''); body = (if c = CHR ''-'' \<or> c = CHR ''+'' then ds else s)
           in case parse_digits body of
                None \<Rightarrow> None
              | Some v \<Rightarrow>
                  if neg then (if int v \<le> 2 ^ 63 then Some (- int v) else None)
                  else (if int v < 2 ^ 63 then Some (int v) else None)))"

lemma of_char_digit_char: "d < 10 \<Longrightarrow> (of_char (digit_char d) :: nat) = 48 + d"
  by (simp add: digit_char_def)

lemma is_digit_digit_char: "d < 10 \<Longrightarrow> is_digit (digit_char d)"
  by (simp add: is_digit_def of_char_digit_char)

lemma digit_val_digit_char: "d < 10 \<Longrightarrow> digit_val (digit_char d) = d"
  by (simp add: digit_val_def of_char_digit_char)

lemma digits_val_append: "digits_val acc (s @ [c]) = 10 * digits_val acc s + digit_val c"
  by (induction s arbitrary: acc) auto

lemma dec_nat_digits: "list_all is_digit (dec_nat n)"
proof (induction n rule: dec_nat.induct)
  case (1 n)
  then show ?case by (subst dec_nat.simps) (auto simp: is_digit_digit_char)
qed

lemma digits_val_dec_nat: "digits_val 0 (dec_nat n) = n"
proof (induction n rule: dec_nat.induct)
  case (1 n)
  then show ?case
    by (subst dec_nat.simps) (auto simp: digits_val_append digit_val_digit_char)
qed

lemma dec_nat_not_Nil: "dec_nat n \<noteq> []"
  by (subst dec_nat.simps) simp

lemma parse_digits_dec_nat: "parse_digits (dec_nat n) = Some n"
  by (simp add: parse_digits_def dec_nat_not_Nil dec_nat_digits digits_val_dec_nat)

lemma dec_nat_inj: "dec_nat a = dec_nat b \<longleftrightarrow> a = b"
  by (metis digits_val_dec_nat)

lemma parse_int64_dec_nat:
  assumes "int n < 2 ^ 63"
  shows "parse_int64 (dec_nat n) = Some (int n)"
proof -
  obtain c ds where s: "dec_nat n = c # ds" using dec_nat_not_Nil [of n] by (cases "dec_nat n") auto
  have "is_digit c" using dec_nat_digits [of n] by (simp add: s)
  then have "c \<noteq> CHR ''-''" "c \<noteq> CHR ''+''" by (auto simp: is_digit_def)
  then show ?thesis
    using assms parse_digits_dec_nat [of n] by (simp add: parse_int64_def s Let_def)
qed

end
