(* ===== verification/Json.thy ===== *)
theory Json
  imports Complex_Main GoStrings
begin

section \<open>Go values: numbers, dynamic values and their JSON text\<close>

text \<open>
  The dynamic values (\<open>any\<close>) the program passes around: what \<open>encoding/json\<close> decodes, plus Go
  integers and the lazy object reference of \<open>internal/model/objref.go\<close>. A \<open>float64\<close> is a
  rational, an infinity or NaN; \<open>round64\<close> is the IEEE rounding to nearest even. Maps are
  association lists with the first binding of a key in force.
\<close>

subsection \<open>Float64\<close>

datatype f64 = Fin rat | PosInf | NegInf | NaN

fun ilog2 :: "int \<Rightarrow> nat" where
  "ilog2 n = (if n \<le> 1 then 0 else Suc (ilog2 (n div 2)))"

declare ilog2.simps [simp del]

fun pow2 :: "int \<Rightarrow> rat" where
  "pow2 e = (if 0 \<le> e then of_int (2 ^ nat e) else 1 / of_int (2 ^ nat (- e)))"

text \<open>Round to the nearest integer, ties to even.\<close>

definition half_even :: "rat \<Rightarrow> int" where
  "half_even q =
     (let f = \<lfloor>q\<rfloor>; d = q - of_int f
      in if d < 1 / 2 then f else if 1 / 2 < d then f + 1
         else if even f then f else f + 1)"

text \<open>The binary exponent of the last place of a positive rational, at least -1074.\<close>

definition last_place :: "rat \<Rightarrow> int" where
  "last_place q =
     (case quotient_of q of (a, b) \<Rightarrow>
        let e = int (ilog2 a) - int (ilog2 b);
            e' = if q < pow2 e then e - 1 else e
        in max (e' - 52) (- 1074))"

text \<open>
  The significand \<open>m\<close> is at most \<open>2^53\<close> and, above the subnormals, at least \<open>2^52\<close>, so the value is
  \<open>2^1024\<close> or more exactly in the overflow case below.
\<close>

definition round64 :: "rat \<Rightarrow> f64" where
  "round64 q =
     (if q = 0 then Fin 0
      else let e = last_place \<bar>q\<bar>; m = half_even (\<bar>q\<bar> / pow2 e)
           in if 971 < e \<or> (e = 971 \<and> 2 ^ 53 \<le> m) then (if 0 < q then PosInf else NegInf)
              else Fin (if 0 < q then of_int m * pow2 e else - (of_int m * pow2 e)))"

definition f64_of_int :: "int \<Rightarrow> f64" where
  "f64_of_int n = round64 (of_int n)"

fun f64_less :: "f64 \<Rightarrow> f64 \<Rightarrow> bool" where
  "f64_less (Fin a) (Fin b) = (a < b)"
| "f64_less NaN b = False"
| "f64_less a NaN = False"
| "f64_less NegInf b = (b \<noteq> NegInf)"
| "f64_less PosInf b = False"
| "f64_less a PosInf = True"
| "f64_less a NegInf = False"

fun f64_eq :: "f64 \<Rightarrow> f64 \<Rightarrow> bool" where
  "f64_eq NaN b = False"
| "f64_eq a b = (a = b)"

subsection \<open>Dynamic values\<close>

text \<open>\<open>ObjectRef\<close>: the content address of an externalised value and its length.\<close>

record object_ref =
  ref_hash :: string
  ref_size :: int

datatype gval =
    GNil
  | GBool bool
  | GInt int
  | GFloat f64
  | GStr string
  | GArr "gval list"
  | GObj "(string \<times> gval) list"
  | GRef object_ref

definition put :: "'k \<Rightarrow> 'v \<Rightarrow> ('k \<times> 'v) list \<Rightarrow> ('k \<times> 'v) list" where
  "put k v m = (k, v) # filter (\<lambda>kv. fst kv \<noteq> k) m"

definition del :: "'k \<Rightarrow> ('k \<times> 'v) list \<Rightarrow> ('k \<times> 'v) list" where
  "del k m = filter (\<lambda>kv. fst kv \<noteq> k) m"

lemma map_of_filter_key: "map_of (filter (\<lambda>kv. fst kv \<noteq> k) m) j = (if j = k then None else map_of m j)"
  by (induction m) auto

lemma map_of_put [simp]: "map_of (put k v m) j = (if j = k then Some v else map_of m j)"
  by (simp add: put_def map_of_filter_key)

lemma map_of_del [simp]: "map_of (del k m) j = (if j = k then None else map_of m j)"
  by (simp add: del_def map_of_filter_key)

end
