(* ===== verification/JsonText.thy ===== *)
theory JsonText
  imports Json
begin

section \<open>The text \<open>encoding/json\<close> writes\<close>

text \<open>
  \<open>json.Marshal\<close> of a dynamic value: map keys sorted, HTML characters escaped, and a float as
  the shortest decimal that reads back as the same float, in exponent form below 1e-6 and from
  1e21 on. The program compares values by this text (\<open>enumContains\<close>, \<open>jsonKey\<close>, \<open>allSame\<close>) and
  hashes it. Strings are taken to be valid UTF-8, as decoded JSON is.
\<close>

subsection \<open>Numbers\<close>

fun strip_zeros :: "nat \<Rightarrow> nat" where
  "strip_zeros n = (if n = 0 then 0 else if n mod 10 = 0 then strip_zeros (n div 10) else n)"

declare strip_zeros.simps [simp del]

definition pow10 :: "int \<Rightarrow> rat" where
  "pow10 e = (if 0 \<le> e then of_int (10 ^ nat e) else 1 / of_int (10 ^ nat (- e)))"

text \<open>\<open>exp10_of q\<close>: the exponent \<open>e\<close> with \<open>10^e \<le> q < 10^(e+1)\<close>, by search from an estimate.\<close>

fun exp10_up :: "nat \<Rightarrow> rat \<Rightarrow> int \<Rightarrow> int" where
  "exp10_up 0 q e = e"
| "exp10_up (Suc n) q e = (if pow10 (e + 1) \<le> q then exp10_up n q (e + 1) else e)"

fun exp10_down :: "nat \<Rightarrow> rat \<Rightarrow> int \<Rightarrow> int" where
  "exp10_down 0 q e = e"
| "exp10_down (Suc n) q e = (if q < pow10 e then exp10_down n q (e - 1) else e)"

definition exp10_of :: "rat \<Rightarrow> int" where
  "exp10_of q = (if 1 \<le> q then exp10_up 320 q 0 else exp10_down 340 q 0)"

text \<open>
  The candidates of \<open>n\<close> significant digits around a positive \<open>q\<close>, the nearer first, that round
  to \<open>q\<close>; a candidate is its digits and the exponent of its last digit.
\<close>

definition digit_candidates :: "rat \<Rightarrow> nat \<Rightarrow> (nat \<times> int) list" where
  "digit_candidates q n =
     (let e = exp10_of q - int n + 1; s = q / pow10 e; lo = \<lfloor>s\<rfloor>; hi = lo + 1;
          cs = (if s - of_int lo \<le> of_int hi - s then [lo, hi] else [hi, lo])
      in map (\<lambda>c. (nat c, e)) (filter (\<lambda>c. round64 (of_int c * pow10 e) = Fin q) cs))"

fun shortest_digits :: "rat \<Rightarrow> nat \<Rightarrow> nat \<Rightarrow> (nat \<times> int) option" where
  "shortest_digits q n 0 = None"
| "shortest_digits q n (Suc k) =
     (case digit_candidates q n of
        c # cs \<Rightarrow> Some c
      | [] \<Rightarrow> shortest_digits q (Suc n) k)"

definition zeros :: "nat \<Rightarrow> string" where
  "zeros n = replicate n (CHR ''0'')"

text \<open>Layout of digits \<open>d\<close> times \<open>10^e\<close>: \<open>'f'\<close> and \<open>'e'\<close> format of \<open>strconv.AppendFloat\<close>.\<close>

definition plain_layout :: "string \<Rightarrow> int \<Rightarrow> string" where
  "plain_layout ds e =
     (if 0 \<le> e then ds @ zeros (nat e)
      else let k = nat (- e) in
        if k < length ds then take (length ds - k) ds @ ''.'' @ drop (length ds - k) ds
        else ''0.'' @ zeros (k - length ds) @ ds)"

definition exp_layout :: "string \<Rightarrow> int \<Rightarrow> string" where
  "exp_layout ds e =
     (let x = e + int (length ds) - 1
      in take 1 ds @ (if length ds = 1 then [] else ''.'' @ drop 1 ds) @ ''e'' @
         (if x < 0 then ''-'' else ''+'') @
         (if 0 \<le> x \<and> x < 10 then ''0'' else []) @ dec_nat (nat \<bar>x\<bar>))"

definition float_text :: "rat \<Rightarrow> string" where
  "float_text q =
     (if q = 0 then ''0''
      else let a = \<bar>q\<bar> in
        (if q < 0 then ''-'' else []) @
        (case shortest_digits a 1 17 of
           None \<Rightarrow> []
         | Some (d, e) \<Rightarrow>
             let d' = strip_zeros d;
                 ds = dec_nat d';
                 e' = e + int (length (dec_nat d)) - int (length ds)
             in if a < 1 / 1000000 \<or> pow10 21 \<le> a then exp_layout ds e' else plain_layout ds e'))"

subsection \<open>Strings\<close>

definition hex_digit :: "nat \<Rightarrow> char" where
  "hex_digit n = (if n < 10 then char_of (48 + n) else char_of (87 + n))"

definition escape_char :: "char \<Rightarrow> string" where
  "escape_char c =
     (let n = of_char c :: nat in
      if n = 34 then [CHR 0x5C, c]
      else if n = 92 then [CHR 0x5C, c]
      else if n = 8 then [CHR 0x5C, CHR ''b'']
      else if n = 12 then [CHR 0x5C, CHR ''f'']
      else if n = 10 then [CHR 0x5C, CHR ''n'']
      else if n = 13 then [CHR 0x5C, CHR ''r'']
      else if n = 9 then [CHR 0x5C, CHR ''t'']
      else if n < 32 \<or> n \<in> {38, 60, 62}
        then [CHR 0x5C, CHR ''u'', CHR ''0'', CHR ''0'', hex_digit (n div 16), hex_digit (n mod 16)]
      else [c])"

text \<open>U+2028 and U+2029 are escaped too.\<close>

fun escape :: "string \<Rightarrow> string" where
  "escape (c # d # e # s) =
     (if of_char c = (226 :: nat) \<and> of_char d = (128 :: nat) \<and> of_char e \<in> {168, 169 :: nat}
      then [CHR 0x5C, CHR ''u'', CHR ''2'', CHR ''0'', CHR ''2'', hex_digit (of_char e - 160)] @ escape s
      else escape_char c @ escape (d # e # s))"
| "escape (c # s) = escape_char c @ escape s"
| "escape [] = []"

definition quoted :: "string \<Rightarrow> string" where
  "quoted s = [CHR 0x22] @ escape s @ [CHR 0x22]"

subsection \<open>Values\<close>

fun comma_sep :: "string list \<Rightarrow> string" where
  "comma_sep [] = []"
| "comma_sep [s] = s"
| "comma_sep (s # t # ts) = s @ '','' @ comma_sep (t # ts)"

fun join_results :: "string option list \<Rightarrow> string list option" where
  "join_results [] = Some []"
| "join_results (None # rs) = None"
| "join_results (Some x # rs) = map_option ((#) x) (join_results rs)"

text \<open>
  \<open>None\<close> is the error \<open>json.Marshal\<close> returns: an infinite or NaN float anywhere in the value.
  Only the first binding of a key counts, and the keys are written in byte order.
\<close>

fun sort_fields :: "(string \<times> string option) list \<Rightarrow> (string \<times> string option) list" where
  "sort_fields kvs = map (\<lambda>k. (k, the (map_of kvs k))) (sorted_list_of_set (set (map fst kvs)))"

fun marshal :: "gval \<Rightarrow> string option" where
  "marshal GNil = Some ''null''"
| "marshal (GBool b) = Some (if b then ''true'' else ''false'')"
| "marshal (GInt n) = Some (dec_int n)"
| "marshal (GFloat (Fin q)) = Some (float_text q)"
| "marshal (GFloat f) = None"
| "marshal (GStr s) = Some (quoted s)"
| "marshal (GArr vs) =
     map_option (\<lambda>ts. ''['' @ comma_sep ts @ '']'') (join_results (map marshal vs))"
| "marshal (GObj kvs) =
     map_option (\<lambda>ts. ''{'' @ comma_sep ts @ ''}'')
       (join_results (map (\<lambda>(k, r). map_option (\<lambda>t. quoted k @ '':'' @ t) r)
          (sort_fields (map (\<lambda>(k, v). (k, marshal v)) kvs))))"
| "marshal (GRef r) =
     Some (''{'' @ quoted ''ref'' @ '':'' @ quoted (ref_hash r) @ '','' @ quoted ''size'' @ '':''
           @ dec_int (ref_size r) @ ''}'')"

text \<open>
  What decoding a marshalled value gives: integers come back as floats. (\<open>encoding/json\<close>
  decodes a number into \<open>any\<close> as the nearest \<open>float64\<close>.)
\<close>

fun decoded :: "gval \<Rightarrow> gval" where
  "decoded (GInt n) = GFloat (f64_of_int n)"
| "decoded (GArr vs) = GArr (map decoded vs)"
| "decoded (GObj kvs) = GObj (map (\<lambda>(k, v). (k, decoded v)) kvs)"
| "decoded (GRef r) = GObj [(''ref'', GStr (ref_hash r)), (''size'', GFloat (f64_of_int (ref_size r)))]"
| "decoded v = v"

text \<open>Equality by JSON text, as \<open>enumContains\<close> and \<open>jsonKey\<close> compare.\<close>

definition same_json :: "gval \<Rightarrow> gval \<Rightarrow> bool" where
  "same_json a b \<longleftrightarrow> marshal a \<noteq> None \<and> marshal a = marshal b"

end
