(* ===== verification/SchemaNode.thy ===== *)
theory SchemaNode
  imports JsonText
begin

section \<open>Schema nodes (\<open>internal/schema/schema.go\<close>, \<open>navigate.go\<close>, \<open>checkdoc.go\<close>)\<close>

text \<open>
  The node tree of a JSON schema with the source's fields. A nil slice or map is \<open>None\<close>, which
  the code tells apart from an empty one in places; a nil entry of a map or of a variant list is
  \<open>None\<close> inside it; an absent \<open>Default\<close> is \<open>GNil\<close>. A node tree is a finite value: the pointer
  sharing of the Go structure is not modelled, so the \<open>seen\<close> set of \<open>checkDoc\<close> has no
  counterpart. References lead from node to node only through the table of root definitions.
\<close>

datatype node = Node
  (n_type: "string list")
  (n_properties: "(string \<times> node option) list option")
  (n_required: "string list option")
  (n_items: "node option")
  (n_one_of: "node option list option")
  (n_any_of: "node option list option")
  (n_all_of: "node option list option")
  (n_enum: "gval list option")
  (n_minimum: "f64 option")
  (n_maximum: "f64 option")
  (n_min_length: "int option")
  (n_max_length: "int option")
  (n_min_items: "int option")
  (n_max_items: "int option")
  (n_ref: string)
  (n_defs: "(string \<times> node option) list option")
  (n_anchor: string)
  (n_id: string)
  (n_default: gval)
  (n_secret: bool)

type_synonym node_defs = "(string \<times> node option) list option"

abbreviation empty_node :: node where
  "empty_node \<equiv> Node [] None None None None None None None None None None None None None [] None [] [] GNil False"

abbreviation typed :: "string list \<Rightarrow> node" where
  "typed ts \<equiv> Node ts None None None None None None None None None None None None None [] None [] [] GNil False"

abbreviation one_of_node :: "node option list \<Rightarrow> node" where
  "one_of_node vs \<equiv> Node [] None None None (Some vs) None None None None None None None None None [] None [] [] GNil False"

abbreviation any_of_node :: "node option list \<Rightarrow> node" where
  "any_of_node vs \<equiv> Node [] None None None None (Some vs) None None None None None None None None [] None [] [] GNil False"

text \<open>Copies of a node with one field replaced (\<open>m := *n; m.F = x\<close>).\<close>

fun set_type :: "string list \<Rightarrow> node \<Rightarrow> node" where
  "set_type t (Node _ pr rq it oo an al en mi ma ml xl mt xt rf df ac i d s) =
     Node t pr rq it oo an al en mi ma ml xl mt xt rf df ac i d s"

fun set_one_of :: "node option list option \<Rightarrow> node \<Rightarrow> node" where
  "set_one_of oo (Node t pr rq it _ an al en mi ma ml xl mt xt rf df ac i d s) =
     Node t pr rq it oo an al en mi ma ml xl mt xt rf df ac i d s"

fun set_any_of :: "node option list option \<Rightarrow> node \<Rightarrow> node" where
  "set_any_of an (Node t pr rq it oo _ al en mi ma ml xl mt xt rf df ac i d s) =
     Node t pr rq it oo an al en mi ma ml xl mt xt rf df ac i d s"

fun set_properties :: "(string \<times> node option) list option \<Rightarrow> node \<Rightarrow> node" where
  "set_properties pr (Node t _ rq it oo an al en mi ma ml xl mt xt rf df ac i d s) =
     Node t pr rq it oo an al en mi ma ml xl mt xt rf df ac i d s"

fun set_required :: "string list option \<Rightarrow> node \<Rightarrow> node" where
  "set_required rq (Node t pr _ it oo an al en mi ma ml xl mt xt rf df ac i d s) =
     Node t pr rq it oo an al en mi ma ml xl mt xt rf df ac i d s"

fun set_secret :: "bool \<Rightarrow> node \<Rightarrow> node" where
  "set_secret s (Node t pr rq it oo an al en mi ma ml xl mt xt rf df ac i d _) =
     Node t pr rq it oo an al en mi ma ml xl mt xt rf df ac i d s"

fun set_defs :: "node_defs \<Rightarrow> node \<Rightarrow> node" where
  "set_defs df (Node t pr rq it oo an al en mi ma ml xl mt xt rf _ ac i d s) =
     Node t pr rq it oo an al en mi ma ml xl mt xt rf df ac i d s"

lemma size_property [termination_simp]:
  "n_properties nd = Some ps \<Longrightarrow> (k, Some q) \<in> set ps \<Longrightarrow> size q < size nd"
  by (cases nd) (auto dest!: split_list)

lemma size_items [termination_simp]: "n_items nd = Some q \<Longrightarrow> size q < size nd"
  by (cases nd) auto

lemma size_one_of [termination_simp]:
  "n_one_of nd = Some vs \<Longrightarrow> Some q \<in> set vs \<Longrightarrow> size q < size nd"
  by (cases nd) (auto dest!: split_list)

lemma size_any_of [termination_simp]:
  "n_any_of nd = Some vs \<Longrightarrow> Some q \<in> set vs \<Longrightarrow> size q < size nd"
  by (cases nd) (auto dest!: split_list)

lemma size_all_of [termination_simp]:
  "n_all_of nd = Some vs \<Longrightarrow> Some q \<in> set vs \<Longrightarrow> size q < size nd"
  by (cases nd) (auto dest!: split_list)

lemma size_defs [termination_simp]:
  "n_defs nd = Some ds \<Longrightarrow> (k, Some q) \<in> set ds \<Longrightarrow> size q < size nd"
  by (cases nd) (auto dest!: split_list)

subsection \<open>References and basic predicates\<close>

datatype schema_error =
    RefWithoutDefs string
  | UnsupportedRef string
  | RefNotFound string
  | NilVariant string
  | NotInVariants string
  | NoProperties string
  | FieldNotFound string
  | NotAnArray string
  | OutOfFuel
  | NilSchema
  | BadPath string
  | MinExceedsMax
  | MinLengthExceedsMax
  | MinItemsExceedsMax
  | NullProperty string
  | NullVariant
  | WrongType
  | NotInEnum
  | MissingProperty string
  | TooFewItems
  | TooManyItems
  | NoVariantMatches
  | SeveralVariantsMatch nat
  | BelowMinimum
  | AboveMaximum
  | TooShort
  | TooLong

definition defs_prefix :: string where
  "defs_prefix = ''#/$defs/''"

text \<open>\<open>defs[name]\<close> with a nil map or a nil entry read as absent.\<close>

definition def_node :: "node_defs \<Rightarrow> string \<Rightarrow> node option" where
  "def_node defs name =
     (case defs of None \<Rightarrow> None | Some ds \<Rightarrow>
        (case map_of ds name of Some (Some t) \<Rightarrow> Some t | _ \<Rightarrow> None))"

definition deref :: "node \<Rightarrow> node_defs \<Rightarrow> schema_error + node" where
  "deref s defs =
     (if n_ref s = [] then Inr s
      else if defs = None then Inl (RefWithoutDefs (n_ref s))
      else if \<not> prefix_of defs_prefix (n_ref s) then Inl (UnsupportedRef (n_ref s))
      else case def_node defs (drop (length defs_prefix) (n_ref s)) of
             Some t \<Rightarrow> Inr t
           | None \<Rightarrow> Inl (RefNotFound (n_ref s)))"

definition is_empty_schema :: "node \<Rightarrow> bool" where
  "is_empty_schema s \<longleftrightarrow>
     n_type s = [] \<and> n_properties s = None \<and> n_required s = None \<and> n_items s = None
   \<and> n_one_of s = None \<and> n_any_of s = None \<and> n_all_of s = None \<and> n_enum s = None
   \<and> n_ref s = [] \<and> n_minimum s = None \<and> n_maximum s = None \<and> n_min_length s = None
   \<and> n_max_length s = None \<and> n_min_items s = None \<and> n_max_items s = None"

definition is_null_type :: "node option \<Rightarrow> bool" where
  "is_null_type s = (case s of None \<Rightarrow> False | Some n \<Rightarrow> n_type n = [''null''])"

definition variants_of :: "node option list option \<Rightarrow> node option list" where
  "variants_of vs = (case vs of None \<Rightarrow> [] | Some l \<Rightarrow> l)"

lemma size_variants [termination_simp]:
  "Some q \<in> set (variants_of (n_one_of s)) \<Longrightarrow> size q < size s"
  "Some q \<in> set (variants_of (n_any_of s)) \<Longrightarrow> size q < size s"
  "Some q \<in> set (variants_of (n_all_of s)) \<Longrightarrow> size q < size s"
  subgoal by (cases "n_one_of s") (simp_all add: variants_of_def size_one_of)
  subgoal by (cases "n_any_of s") (simp_all add: variants_of_def size_any_of)
  subgoal by (cases "n_all_of s") (simp_all add: variants_of_def size_all_of)
  done

definition has_null_type :: "node \<Rightarrow> bool" where
  "has_null_type s \<longleftrightarrow>
     ''null'' \<in> set (n_type s)
   \<or> list_ex is_null_type (variants_of (n_one_of s))
   \<or> list_ex is_null_type (variants_of (n_any_of s))"

definition is_required :: "node \<Rightarrow> string \<Rightarrow> bool" where
  "is_required s name \<longleftrightarrow>
     (case n_required s of None \<Rightarrow> False | Some rs \<Rightarrow> name \<in> set rs)"

definition with_null :: "node \<Rightarrow> node" where
  "with_null s =
     (if is_empty_schema s then s
      else if ''null'' \<in> set (n_type s) then s
      else if list_ex is_null_type (variants_of (n_one_of s)) then s
      else if list_ex is_null_type (variants_of (n_any_of s)) then s
      else if n_type s \<noteq> [] \<and> n_properties s = None then set_type (n_type s @ [''null'']) s
      else one_of_node [Some s, Some (typed [''null''])])"

text \<open>A nil slice results when every type is dropped; as a type list it is the empty one.\<close>

definition non_null :: "node option list \<Rightarrow> node option list" where
  "non_null vs = filter (\<lambda>v. \<not> is_null_type v) vs"

definition strip_null :: "node \<Rightarrow> node option" where
  "strip_null s =
     (if n_type s \<noteq> [] then
        (let nn = filter (\<lambda>t. t \<noteq> ''null'') (n_type s)
         in if length nn = length (n_type s) then Some s else Some (set_type nn s))
      else if variants_of (n_one_of s) \<noteq> [] then
        (let vs = variants_of (n_one_of s); nn = non_null vs
         in if length nn = length vs then Some s
            else case nn of [v] \<Rightarrow> v
               | [] \<Rightarrow> Some (set_one_of None s)
               | _ \<Rightarrow> Some (set_one_of (Some nn) s))
      else if variants_of (n_any_of s) \<noteq> [] then
        (let vs = variants_of (n_any_of s); nn = non_null vs
         in if length nn = length vs then Some s
            else case nn of [v] \<Rightarrow> v
               | [] \<Rightarrow> Some (set_any_of None s)
               | _ \<Rightarrow> Some (set_any_of (Some nn) s))
      else Some s)"

definition taint_node :: "node \<Rightarrow> node" where
  "taint_node s = (if n_secret s then s else set_secret True s)"

fun is_secret :: "node \<Rightarrow> bool" where
  "is_secret s \<longleftrightarrow> n_secret s
     \<or> list_ex (\<lambda>v. case v of None \<Rightarrow> False | Some n \<Rightarrow> is_secret n) (variants_of (n_one_of s))
     \<or> list_ex (\<lambda>v. case v of None \<Rightarrow> False | Some n \<Rightarrow> is_secret n) (variants_of (n_any_of s))"

declare is_secret.simps [simp del]

subsection \<open>Well-formed documents (\<open>checkdoc.go\<close>)\<close>

text \<open>\<open>*a > *b\<close> for two optional bounds, both present.\<close>

definition exceeds :: "f64 option \<Rightarrow> f64 option \<Rightarrow> bool" where
  "exceeds a b = (case (a, b) of (Some x, Some y) \<Rightarrow> f64_less y x | _ \<Rightarrow> False)"

definition exceeds_int :: "int option \<Rightarrow> int option \<Rightarrow> bool" where
  "exceeds_int a b = (case (a, b) of (Some x, Some y) \<Rightarrow> y < x | _ \<Rightarrow> False)"

definition entries_of :: "(string \<times> node option) list option \<Rightarrow> (string \<times> node option) list" where
  "entries_of m = (case m of None \<Rightarrow> [] | Some l \<Rightarrow> l)"

lemma size_entries [termination_simp]:
  "(k, Some q) \<in> set (entries_of (n_properties s)) \<Longrightarrow> size q < size s"
  "(k, Some q) \<in> set (entries_of (n_defs s)) \<Longrightarrow> size q < size s"
  subgoal by (cases "n_properties s") (simp_all add: entries_of_def size_property)
  subgoal by (cases "n_defs s") (simp_all add: entries_of_def size_defs)
  done

definition ref_error :: "node \<Rightarrow> node_defs \<Rightarrow> schema_error option" where
  "ref_error nd defs =
     (if n_ref nd = [] then None
      else case deref nd defs of Inl e \<Rightarrow> Some e | Inr _ \<Rightarrow> None)"

definition bounds_error :: "node \<Rightarrow> schema_error option" where
  "bounds_error nd =
     (if exceeds (n_minimum nd) (n_maximum nd) then Some MinExceedsMax
      else if exceeds_int (n_min_length nd) (n_max_length nd) then Some MinLengthExceedsMax
      else if exceeds_int (n_min_items nd) (n_max_items nd) then Some MinItemsExceedsMax
      else None)"

text \<open>
  The members of \<open>allOf\<close> are not visited, and a nil definition is accepted. (The order of a
  map's entries is the list's; which of several errors is reported is not fixed by the code.)
\<close>

fun check_doc :: "node \<Rightarrow> node_defs \<Rightarrow> schema_error option" where
  "check_doc nd defs =
     or_else (ref_error nd defs)
     (or_else (bounds_error nd)
     (or_else (first_some (\<lambda>(k, p). case p of None \<Rightarrow> Some (NullProperty k)
                                           | Some q \<Rightarrow> check_doc q defs) (entries_of (n_properties nd)))
     (or_else (case n_items nd of None \<Rightarrow> None | Some q \<Rightarrow> check_doc q defs)
     (or_else (first_some (\<lambda>v. case v of None \<Rightarrow> Some NullVariant | Some q \<Rightarrow> check_doc q defs)
                (variants_of (n_one_of nd)))
     (or_else (first_some (\<lambda>v. case v of None \<Rightarrow> Some NullVariant | Some q \<Rightarrow> check_doc q defs)
                (variants_of (n_any_of nd)))
      (first_some (\<lambda>(k, d). case d of None \<Rightarrow> None | Some q \<Rightarrow> check_doc q defs)
                (entries_of (n_defs nd))))))))"

declare check_doc.simps [simp del]

definition check_doc_root :: "node option \<Rightarrow> schema_error option" where
  "check_doc_root s = (case s of None \<Rightarrow> None | Some nd \<Rightarrow> check_doc nd (n_defs nd))"

end
