(* ===== verification/Model.thy ===== *)
theory Model
  imports SchemaNode
begin

section \<open>Process definitions and instances (\<open>internal/model\<close>)\<close>

text \<open>
  The data of \<open>definition.go\<close> and \<open>instance.go\<close>. A Go pointer or an optional field is an
  \<open>option\<close>. A \<open>Shape\<close> is its \<open>Raw\<close> value. The context of an instance is its
  \<open>map[string]any\<close>, an association list of dynamic values; a \<open>[]string\<close> stored in it is a
  \<open>GArr\<close> of strings.
\<close>

subsection \<open>Definitions\<close>

datatype action_type = Rest | Child | ChildParallel | Delay | ExternalTask | OtherAction string

record child_entry =
  ce_name :: string
  ce_version :: int
  ce_input :: "gval option"
  ce_result_schema :: "node option"

record action =
  act_type :: action_type
  act_endpoint :: string
  act_headers :: "(string \<times> string) list"
  act_accepted_status :: "string list"
  act_result_schema :: "node option"
  act_name :: string
  act_version :: int
  act_input :: "gval option"
  act_children :: "(string \<times> child_entry) list"
  act_ms :: string

record switch_case =
  case_when :: string
  case_goto :: string

record error_case =
  err_codes :: "string list"
  err_retries :: int
  err_goto :: string
  err_not_reached :: "bool option"

record task =
  task_id :: string
  task_action :: "action option"
  task_timeout_ms :: int
  task_only_once :: "bool option"
  task_on_error :: "error_case list"
  task_output :: "gval option"
  task_switch :: "switch_case list"

record process_definition =
  def_name :: string
  def_tasks :: "task list"
  def_input_schema :: "node option"
  def_config_schema :: "node option"
  def_output :: "gval option"

text \<open>\<open>Shape.Present\<close>, nil-safe.\<close>

definition present :: "gval option \<Rightarrow> bool" where
  "present s \<longleftrightarrow> s \<noteq> None \<and> s \<noteq> Some GNil"

definition goto_end :: string where "goto_end = ''end''"
definition goto_next :: string where "goto_next = ''next''"

text \<open>\<open>taskIndex\<close> and \<open>taskIDAt\<close> of \<open>internal/engine/engine.go\<close>; \<open>None\<close> is -1.\<close>

fun index_of :: "string \<Rightarrow> task list \<Rightarrow> nat option" where
  "index_of i [] = None"
| "index_of i (t # ts) = (if task_id t = i then Some 0 else map_option Suc (index_of i ts))"

definition task_index :: "task list \<Rightarrow> string \<Rightarrow> nat option" where
  "task_index ts i = (if i = [] then None else index_of i ts)"

definition task_id_at :: "task list \<Rightarrow> nat \<Rightarrow> string" where
  "task_id_at ts k = (if k < length ts then task_id (ts ! k) else [])"

lemma index_of_Some: "index_of i ts = Some k \<Longrightarrow> k < length ts \<and> task_id (ts ! k) = i"
  by (induction ts arbitrary: k) (auto split: if_splits)

lemma index_of_None: "index_of i ts = None \<longleftrightarrow> i \<notin> task_id ` set ts"
  by (induction ts) auto

lemma index_of_first: "index_of i ts = Some k \<Longrightarrow> j < k \<Longrightarrow> task_id (ts ! j) \<noteq> i"
proof (induction ts arbitrary: j k)
  case (Cons t ts)
  then show ?case by (cases j) (auto split: if_splits)
qed simp

lemma index_of_nth:
  assumes "distinct (map task_id ts)" and "k < length ts"
  shows "index_of (task_id (ts ! k)) ts = Some k"
  using assms
proof (induction ts arbitrary: k)
  case (Cons t ts)
  then show ?case by (cases k) auto
qed simp

subsection \<open>Instances\<close>

datatype status = Running | Completed | Failing | Failed | Cancelling | Cancelled

datatype wait_state = WaitNone | Waiting | Collecting | External

definition terminal :: "status \<Rightarrow> bool" where
  "terminal s \<longleftrightarrow> s = Completed \<or> s = Failed \<or> s = Cancelled"

abbreviation active :: "status \<Rightarrow> bool" where
  "active s \<equiv> \<not> terminal s"

lemma terminal_simps [simp]:
  "terminal Completed" "terminal Failed" "terminal Cancelled"
  "\<not> terminal Running" "\<not> terminal Failing" "\<not> terminal Cancelling"
  by (simp_all add: terminal_def)

text \<open>
  \<open>ProcessInstance\<close>, the in-memory copy a worker advances. Times are milliseconds of the
  database clock. \<open>Config\<close> and \<open>ResolvedObjects\<close> are transient.
\<close>

type_synonym ctx_data = "(string \<times> gval) list"

record proc_instance =
  inst_id :: string
  inst_process :: string
  inst_version :: int
  inst_task :: string
  inst_context :: ctx_data
  inst_parent :: string
  inst_spawn_task :: string
  inst_call_stack :: "string list"
  inst_retry_count :: int
  inst_wake_at :: "int option"
  inst_status :: status
  inst_wait :: wait_state
  inst_error :: string
  inst_created_at :: int
  inst_updated_at :: int
  inst_worker :: "string option"
  inst_lease :: "int option"
  inst_config :: ctx_data
  inst_reclaimed :: bool
  inst_loaded :: "string list"
  inst_resolved :: "(string \<times> gval) list"

definition ctx_external :: string where "ctx_external = ''_external''"
definition ctx_external_result :: string where "ctx_external_result = ''_external_result''"

end
