(* ===== verification/Rows.thy ===== *)
theory Rows
  imports Model
begin

section \<open>Instance rows and their context columns (\<open>db_instances.go\<close>, \<open>db_objects.go\<close>)\<close>

text \<open>
  The tables of the database as lists of records, the SQL statements of \<open>queries.sql\<close> that
  write them as functions on those lists, and the encoding of an instance's context into the
  row's columns and back. A column that holds JSON is modelled by the value its text decodes to;
  the empty string is \<open>None\<close>. SQL's NULL is \<open>None\<close>.

  A value of more than 2048 bytes of JSON is moved to the object table under the hash of its
  text. The hash (a truncated SHA-256) is the argument \<open>hash\<close>.
\<close>

subsection \<open>Tables\<close>

record envelope =
  env_data :: gval
  env_refs :: "object_ref list"
  env_preview :: string

definition inline :: "gval \<Rightarrow> envelope" where
  "inline v = \<lparr>env_data = v, env_refs = [], env_preview = []\<rparr>"

definition by_ref :: "object_ref \<Rightarrow> envelope" where
  "by_ref r = \<lparr>env_data = GNil, env_refs = [r], env_preview = []\<rparr>"

definition is_ref :: "envelope \<Rightarrow> bool" where
  "is_ref e \<longleftrightarrow> env_refs e \<noteq> []"

record outputs_column =
  oc_order :: "string list"
  oc_items :: "(string \<times> envelope) list"

record context_cols =
  c_input :: "envelope option"
  c_outputs :: "outputs_column option"
  c_output :: "envelope option"
  c_error :: "gval option"
  c_external :: "(string \<times> gval) list option"
  c_engine :: "(string \<times> gval) list option"

record row =
  r_id :: string
  r_process :: string
  r_version :: int
  r_task :: string
  r_input :: "envelope option"
  r_outputs :: "outputs_column option"
  r_output :: "envelope option"
  r_error_data :: "gval option"
  r_external :: "(string \<times> gval) list option"
  r_engine :: "(string \<times> gval) list option"
  r_parent :: string
  r_spawn_task :: string
  r_call_stack :: "string list"
  r_retry_count :: int
  r_wake_at :: "int option"
  r_status :: status
  r_wait :: wait_state
  r_error :: string
  r_created_at :: int
  r_updated_at :: int
  r_worker :: "string option"
  r_lease :: "int option"

record signal_row =
  s_id :: string
  s_instance :: string
  s_task :: string
  s_result :: gval
  s_created_at :: int

record object_row =
  o_instance :: string
  o_hash :: string
  o_content :: string
  o_pinned :: bool
  o_log_until :: "int option"
  o_created_at :: int

record database =
  d_rows :: "row list"
  d_signals :: "signal_row list"
  d_objects :: "object_row list"
  d_definitions :: "((string \<times> int) \<times> process_definition) list"

datatype db_error =
    InstanceNotFound
  | MarshalError
  | DuplicateKey string
  | NotRoot string "string option"
  | NotRetryable status
  | DefinitionNotFound string
  | TaskNotFound string
  | OnlyOnceAttempted string string
  | TreeTooDeep
  | AlreadyWaiting wait_state
  | TaskNotWaiting
  | BeingProcessed
  | TokenMismatch
  | NotRunning status

definition get_row :: "database \<Rightarrow> string \<Rightarrow> row option" where
  "get_row db i = row_of r_id (d_rows db) i"

definition get_definition :: "database \<Rightarrow> string \<Rightarrow> int \<Rightarrow> process_definition option" where
  "get_definition db name version = map_of (d_definitions db) (name, version)"

text \<open>\<open>InsertInstance\<close>: the primary key rejects an id already in the table.\<close>

definition insert_row :: "row \<Rightarrow> database \<Rightarrow> db_error + database" where
  "insert_row r db =
     (if get_row db (r_id r) \<noteq> None then Inl (DuplicateKey (r_id r))
      else Inr (db\<lparr>d_rows := d_rows db @ [r]\<rparr>))"

definition modify_rows :: "(row \<Rightarrow> bool) \<Rightarrow> (row \<Rightarrow> row) \<Rightarrow> database \<Rightarrow> database" where
  "modify_rows P f db = db\<lparr>d_rows := update_where P f (d_rows db)\<rparr>"

subsection \<open>Context objects\<close>

definition object_threshold :: nat where "object_threshold = 2048"

record pending_object =
  p_hash :: string
  p_content :: string

text \<open>
  \<open>encodeContextValue\<close>: inline, a new object, or the reference of a slot that was never
  resolved. An inline value is stored as JSON, hence \<open>decoded\<close>.
\<close>

definition encode_context_value ::
  "(string \<Rightarrow> string) \<Rightarrow> gval \<Rightarrow> db_error + (envelope \<times> pending_object option)" where
  "encode_context_value hash v =
     (case v of
        GRef r \<Rightarrow> Inr (by_ref r, None)
      | _ \<Rightarrow>
         (case marshal v of
            None \<Rightarrow> Inl MarshalError
          | Some b \<Rightarrow>
              if length b \<le> object_threshold then Inr (inline (decoded v), None)
              else Inr (by_ref \<lparr>ref_hash = hash b, ref_size = int (length b)\<rparr>,
                        Some \<lparr>p_hash = hash b, p_content = b\<rparr>)))"

definition decode_envelope :: "envelope \<Rightarrow> gval" where
  "decode_envelope e = (case env_refs e of [] \<Rightarrow> env_data e | r # rs \<Rightarrow> GRef r)"

definition env_hashes :: "envelope \<Rightarrow> string list" where
  "env_hashes e = (case env_refs e of [] \<Rightarrow> [] | r # rs \<Rightarrow> [ref_hash r])"

text \<open>\<open>encodeValueSlot\<close> accumulates the new objects and the hashes still referenced.\<close>

type_synonym encode_state = "pending_object list \<times> string list"

definition encode_value_slot ::
  "(string \<Rightarrow> string) \<Rightarrow> gval \<Rightarrow> encode_state \<Rightarrow> db_error + (envelope \<times> encode_state)" where
  "encode_value_slot hash v st =
     and_then (encode_context_value hash v) (\<lambda>(env, p).
       Inr (env, (fst st @ (case p of None \<Rightarrow> [] | Some x \<Rightarrow> [x]), snd st @ env_hashes env)))"

fun encode_items ::
  "(string \<Rightarrow> string) \<Rightarrow> (string \<times> gval) list \<Rightarrow> encode_state \<Rightarrow>
     db_error + ((string \<times> envelope) list \<times> encode_state)" where
  "encode_items hash [] st = Inr ([], st)"
| "encode_items hash ((k, v) # kvs) st =
     and_then (encode_value_slot hash v st) (\<lambda>(env, st').
       and_then (encode_items hash kvs st') (\<lambda>(envs, st'').
         Inr ((k, env) # envs, st'')))"

text \<open>\<open>toStringSlice\<close>.\<close>

fun str_items :: "gval list \<Rightarrow> string list" where
  "str_items [] = []"
| "str_items (GStr s # vs) = s # str_items vs"
| "str_items (v # vs) = str_items vs"

definition to_string_slice :: "gval option \<Rightarrow> string list" where
  "to_string_slice v = (case v of Some (GArr vs) \<Rightarrow> str_items vs | _ \<Rightarrow> [])"

definition encode_optional_slot ::
  "(string \<Rightarrow> string) \<Rightarrow> gval option \<Rightarrow> encode_state \<Rightarrow> db_error + (envelope option \<times> encode_state)" where
  "encode_optional_slot hash v st =
     (case v of None \<Rightarrow> Inr (None, st)
      | Some x \<Rightarrow> and_then (encode_value_slot hash x st) (\<lambda>(env, st'). Inr (Some env, st')))"

text \<open>The JSON of a whole value kept in a column of its own.\<close>

definition encode_plain :: "gval \<Rightarrow> db_error + gval" where
  "encode_plain v = (if marshal v = None then Inl MarshalError else Inr (decoded v))"

definition external_fields :: "ctx_data \<Rightarrow> (string \<times> gval) list" where
  "external_fields cd =
     (let ext = (case map_of cd ctx_external of Some (GObj m) \<Rightarrow> m | _ \<Rightarrow> [])
      in case map_of cd ctx_external_result of
           Some r \<Rightarrow> put ''has_result'' (GBool True) (put ''result'' r ext)
         | None \<Rightarrow> ext)"

definition encode_object_column :: "(string \<times> gval) list \<Rightarrow> db_error + (string \<times> gval) list option" where
  "encode_object_column m =
     (if m = [] then Inr None
      else if marshal (GObj m) = None then Inl MarshalError
      else Inr (Some (map (\<lambda>(k, v). (k, decoded v)) m)))"

definition encode_external_data :: "ctx_data \<Rightarrow> db_error + (string \<times> gval) list option" where
  "encode_external_data cd = encode_object_column (external_fields cd)"

definition with_external_result ::
  "(string \<times> gval) list option \<Rightarrow> gval \<Rightarrow> db_error + (string \<times> gval) list option" where
  "with_external_result ext result =
     encode_object_column
       (put ''has_result'' (GBool True) (put ''result'' result (case ext of None \<Rightarrow> [] | Some m \<Rightarrow> m)))"

definition external_token :: "(string \<times> gval) list option \<Rightarrow> string" where
  "external_token ext =
     (case ext of None \<Rightarrow> []
      | Some m \<Rightarrow> (case map_of m ''token'' of Some (GStr t) \<Rightarrow> t | _ \<Rightarrow> []))"

definition engine_state_keys :: "(string \<times> string) list" where
  "engine_state_keys =
     [(''_children'', ''children''), (''_spawn_action_type'', ''spawn_action_type''),
      (''_spawn_child_key'', ''spawn_child_key''), (''_spawn_result_schema'', ''spawn_result_schema'')]"

definition engine_fields :: "ctx_data \<Rightarrow> (string \<times> gval) list" where
  "engine_fields cd =
     concat (map (\<lambda>(k, col). case map_of cd k of None \<Rightarrow> [] | Some v \<Rightarrow> [(col, v)]) engine_state_keys)"

definition encode_engine_state :: "ctx_data \<Rightarrow> db_error + (string \<times> gval) list option" where
  "encode_engine_state cd = encode_object_column (engine_fields cd)"

definition encode_outputs ::
  "(string \<Rightarrow> string) \<Rightarrow> ctx_data \<Rightarrow> encode_state \<Rightarrow> db_error + (outputs_column option \<times> encode_state)" where
  "encode_outputs hash cd st =
     (case map_of cd ''outputs'' of
        Some (GObj outs) \<Rightarrow>
          and_then (encode_items hash outs st) (\<lambda>(items, st').
            Inr (Some \<lparr>oc_order = to_string_slice (map_of cd ''output_order''), oc_items = items\<rparr>, st'))
      | _ \<Rightarrow> Inr (None, st))"

definition encode_context ::
  "(string \<Rightarrow> string) \<Rightarrow> ctx_data \<Rightarrow> db_error + (context_cols \<times> encode_state)" where
  "encode_context hash cd =
     and_then (encode_optional_slot hash (map_of cd ''input'') ([], [])) (\<lambda>(inp, st1).
     and_then (encode_outputs hash cd st1) (\<lambda>(outs, st2).
     and_then (encode_optional_slot hash (map_of cd ''output'') st2) (\<lambda>(outp, st3).
     and_then (case map_of cd ''error'' of None \<Rightarrow> Inr None
               | Some v \<Rightarrow> and_then (encode_plain v) (\<lambda>e. Inr (Some e))) (\<lambda>err.
     and_then (encode_external_data cd) (\<lambda>ext.
     and_then (encode_engine_state cd) (\<lambda>eng.
       Inr (\<lparr>c_input = inp, c_outputs = outs, c_output = outp, c_error = err,
             c_external = ext, c_engine = eng\<rparr>, st3)))))))"

subsection \<open>The object table\<close>

definition is_object :: "string \<Rightarrow> string \<Rightarrow> object_row \<Rightarrow> bool" where
  "is_object i h ob = (o_instance ob = i \<and> o_hash ob = h)"

definition find_object :: "database \<Rightarrow> string \<Rightarrow> string \<Rightarrow> object_row option" where
  "find_object db i h = find (is_object i h) (d_objects db)"

text \<open>\<open>PinContextObject\<close>: insert, or re-pin the row the key already has.\<close>

definition pin_context_object :: "string \<Rightarrow> int \<Rightarrow> pending_object \<Rightarrow> database \<Rightarrow> database" where
  "pin_context_object i now p db =
     (if find_object db i (p_hash p) = None
      then db\<lparr>d_objects := d_objects db @
             [\<lparr>o_instance = i, o_hash = p_hash p, o_content = p_content p, o_pinned = True,
               o_log_until = None, o_created_at = now\<rparr>]\<rparr>
      else db\<lparr>d_objects := update_where (is_object i (p_hash p)) (\<lambda>ob. ob\<lparr>o_pinned := True\<rparr>) (d_objects db)\<rparr>)"

text \<open>\<open>ReferenceLogObject\<close>: insert unpinned, or extend the horizon of the row.\<close>

definition reference_log_object :: "string \<Rightarrow> string \<Rightarrow> string \<Rightarrow> int \<Rightarrow> int \<Rightarrow> database \<Rightarrow> database" where
  "reference_log_object i h content log_until now db =
     (if find_object db i h = None
      then db\<lparr>d_objects := d_objects db @
             [\<lparr>o_instance = i, o_hash = h, o_content = content, o_pinned = False,
               o_log_until = Some log_until, o_created_at = now\<rparr>]\<rparr>
      else db\<lparr>d_objects := update_where (is_object i h) (\<lambda>ob. ob\<lparr>o_log_until := Some log_until\<rparr>) (d_objects db)\<rparr>)"

definition log_expired :: "int \<Rightarrow> object_row \<Rightarrow> bool" where
  "log_expired now ob = (case o_log_until ob of None \<Rightarrow> True | Some t \<Rightarrow> t < now)"

definition delete_dereferenced_object :: "string \<Rightarrow> string \<Rightarrow> int \<Rightarrow> database \<Rightarrow> database" where
  "delete_dereferenced_object i h now db =
     db\<lparr>d_objects := filter (\<lambda>ob. \<not> (is_object i h ob \<and> log_expired now ob)) (d_objects db)\<rparr>"

definition unpin_object :: "string \<Rightarrow> string \<Rightarrow> database \<Rightarrow> database" where
  "unpin_object i h db =
     db\<lparr>d_objects := update_where (is_object i h) (\<lambda>ob. ob\<lparr>o_pinned := False\<rparr>) (d_objects db)\<rparr>"

definition delete_expired_objects :: "int \<Rightarrow> database \<Rightarrow> database" where
  "delete_expired_objects before db =
     db\<lparr>d_objects := filter (\<lambda>ob. \<not> (\<not> o_pinned ob \<and> log_expired before ob)) (d_objects db)\<rparr>"

definition get_object :: "database \<Rightarrow> string \<Rightarrow> string \<Rightarrow> string option" where
  "get_object db i h = map_option o_content (find_object db i h)"

definition get_log_object :: "database \<Rightarrow> string \<Rightarrow> string \<Rightarrow> string option" where
  "get_log_object db i h =
     map_option o_content (find (\<lambda>ob. is_object i h ob \<and> o_log_until ob \<noteq> None) (d_objects db))"

definition log_forever :: int where "log_forever = 9223372036854775807"

text \<open>\<open>WriteLogObject\<close> (retention 0: keep for ever).\<close>

definition write_log_object ::
  "(string \<Rightarrow> string) \<Rightarrow> int \<Rightarrow> int \<Rightarrow> string \<Rightarrow> string \<Rightarrow> database \<Rightarrow> object_ref \<times> database" where
  "write_log_object hash retention now i content db =
     (let h = hash content;
          log_until = (if 0 < retention then now + retention else log_forever)
      in (\<lparr>ref_hash = h, ref_size = int (length content)\<rparr>,
          reference_log_object i h content log_until now db))"

definition release_object :: "string \<Rightarrow> int \<Rightarrow> string list \<Rightarrow> string \<Rightarrow> database \<Rightarrow> database" where
  "release_object i now referenced h db =
     (if h \<in> set referenced then db
      else unpin_object i h (delete_dereferenced_object i h now db))"

text \<open>\<open>applyContextObjectDiff\<close>.\<close>

definition apply_object_diff ::
  "string \<Rightarrow> int \<Rightarrow> pending_object list \<Rightarrow> string list \<Rightarrow> string list \<Rightarrow> database \<Rightarrow> database" where
  "apply_object_diff i now pending loaded referenced db =
     fold (release_object i now referenced) loaded
       (fold (pin_context_object i now) pending db)"

text \<open>\<open>persistContext\<close>.\<close>

definition persist_context ::
  "(string \<Rightarrow> string) \<Rightarrow> int \<Rightarrow> proc_instance \<Rightarrow> database \<Rightarrow> db_error + (context_cols \<times> database)" where
  "persist_context hash now inst db =
     and_then (encode_context hash (inst_context inst)) (\<lambda>(cols, pending, referenced).
       Inr (cols, apply_object_diff (inst_id inst) now pending (inst_loaded inst) referenced db))"

subsection \<open>Writing an instance\<close>

text \<open>The \<open>UpdateInstance\<close> statement: everything but the input, and the lease is released.\<close>

definition write_row :: "proc_instance \<Rightarrow> context_cols \<Rightarrow> int \<Rightarrow> row \<Rightarrow> row" where
  "write_row inst cols now r = r\<lparr>
     r_task := inst_task inst,
     r_outputs := c_outputs cols, r_output := c_output cols, r_error_data := c_error cols,
     r_external := c_external cols, r_engine := c_engine cols,
     r_retry_count := inst_retry_count inst, r_wake_at := inst_wake_at inst,
     r_status := inst_status inst, r_wait := inst_wait inst, r_error := inst_error inst,
     r_updated_at := now, r_worker := None, r_lease := None\<rparr>"

text \<open>The \<open>UpdateInstanceProgress\<close> statement: neither status, error nor the final output.\<close>

definition write_row_progress :: "proc_instance \<Rightarrow> context_cols \<Rightarrow> int \<Rightarrow> row \<Rightarrow> row" where
  "write_row_progress inst cols now r = r\<lparr>
     r_task := inst_task inst,
     r_outputs := c_outputs cols, r_error_data := c_error cols,
     r_external := c_external cols, r_engine := c_engine cols,
     r_retry_count := inst_retry_count inst, r_wake_at := inst_wake_at inst,
     r_wait := inst_wait inst, r_updated_at := now, r_worker := None, r_lease := None\<rparr>"

definition has_id :: "string \<Rightarrow> row \<Rightarrow> bool" where
  "has_id i r = (r_id r = i)"

definition update_instance ::
  "(string \<Rightarrow> string) \<Rightarrow> int \<Rightarrow> proc_instance \<Rightarrow> database \<Rightarrow> db_error + database" where
  "update_instance hash now inst db =
     and_then (persist_context hash now inst db) (\<lambda>(cols, db').
       Inr (modify_rows (has_id (inst_id inst)) (write_row inst cols now) db'))"

definition update_instance_progress ::
  "(string \<Rightarrow> string) \<Rightarrow> int \<Rightarrow> proc_instance \<Rightarrow> database \<Rightarrow> db_error + database" where
  "update_instance_progress hash now inst db =
     and_then (persist_context hash now inst db) (\<lambda>(cols, db').
       Inr (modify_rows (has_id (inst_id inst)) (write_row_progress inst cols now) db'))"

definition insert_params :: "proc_instance \<Rightarrow> context_cols \<Rightarrow> status \<Rightarrow> int \<Rightarrow> int \<Rightarrow> row" where
  "insert_params inst cols st created updated = \<lparr>
     r_id = inst_id inst, r_process = inst_process inst, r_version = inst_version inst,
     r_task = inst_task inst, r_input = c_input cols, r_outputs = c_outputs cols,
     r_output = c_output cols, r_error_data = c_error cols, r_external = c_external cols,
     r_engine = c_engine cols, r_parent = inst_parent inst, r_spawn_task = inst_spawn_task inst,
     r_call_stack = inst_call_stack inst, r_retry_count = inst_retry_count inst,
     r_wake_at = inst_wake_at inst, r_status = st, r_wait = inst_wait inst,
     r_error = inst_error inst, r_created_at = created, r_updated_at = updated,
     r_worker = None, r_lease = None\<rparr>"

definition save_instance ::
  "(string \<Rightarrow> string) \<Rightarrow> int \<Rightarrow> proc_instance \<Rightarrow> database \<Rightarrow> db_error + database" where
  "save_instance hash now inst db =
     and_then (persist_context hash now inst db) (\<lambda>(cols, db').
       insert_row (insert_params inst cols (inst_status inst) now now) db')"

subsection \<open>Reading an instance\<close>

definition decode_slot :: "string \<Rightarrow> envelope option \<Rightarrow> ctx_data" where
  "decode_slot key e = (case e of None \<Rightarrow> [] | Some env \<Rightarrow> [(key, decode_envelope env)])"

definition decode_outputs :: "outputs_column option \<Rightarrow> ctx_data" where
  "decode_outputs oc =
     (case oc of None \<Rightarrow> []
      | Some c \<Rightarrow> (''outputs'', GObj (map (\<lambda>(k, e). (k, decode_envelope e)) (oc_items c))) #
          (if oc_order c = [] then [] else [(''output_order'', GArr (map GStr (oc_order c)))]))"

definition decode_external :: "(string \<times> gval) list option \<Rightarrow> ctx_data" where
  "decode_external ext =
     (case ext of None \<Rightarrow> []
      | Some m \<Rightarrow>
          let rest = del ''result'' (del ''has_result'' m)
          in (if rest = [] then [] else [(ctx_external, GObj rest)]) @
             (if map_of m ''has_result'' = Some (GBool True)
              then [(ctx_external_result, case map_of m ''result'' of None \<Rightarrow> GNil | Some v \<Rightarrow> v)] else []))"

definition decode_engine :: "(string \<times> gval) list option \<Rightarrow> ctx_data" where
  "decode_engine es =
     (case es of None \<Rightarrow> []
      | Some m \<Rightarrow> concat (map (\<lambda>(k, col). case map_of m col of None \<Rightarrow> [] | Some v \<Rightarrow> [(k, v)])
                          engine_state_keys))"

definition decode_context :: "row \<Rightarrow> ctx_data" where
  "decode_context r =
     decode_slot ''input'' (r_input r) @ decode_outputs (r_outputs r) @
     decode_slot ''output'' (r_output r) @
     (case r_error_data r of None \<Rightarrow> [] | Some v \<Rightarrow> [(''error'', v)]) @
     decode_external (r_external r) @ decode_engine (r_engine r)"

definition loaded_hashes :: "row \<Rightarrow> string list" where
  "loaded_hashes r =
     (case r_input r of None \<Rightarrow> [] | Some e \<Rightarrow> env_hashes e) @
     (case r_outputs r of None \<Rightarrow> [] | Some c \<Rightarrow> concat (map (env_hashes \<circ> snd) (oc_items c))) @
     (case r_output r of None \<Rightarrow> [] | Some e \<Rightarrow> env_hashes e)"

text \<open>\<open>toInstance\<close>; \<open>ReclaimedExpired\<close> is set by the claim only.\<close>

definition to_instance :: "row \<Rightarrow> proc_instance" where
  "to_instance r = \<lparr>
     inst_id = r_id r, inst_process = r_process r, inst_version = r_version r,
     inst_task = r_task r, inst_context = decode_context r, inst_parent = r_parent r,
     inst_spawn_task = r_spawn_task r, inst_call_stack = r_call_stack r,
     inst_retry_count = r_retry_count r, inst_wake_at = r_wake_at r, inst_status = r_status r,
     inst_wait = r_wait r, inst_error = r_error r, inst_created_at = r_created_at r,
     inst_updated_at = r_updated_at r, inst_worker = r_worker r, inst_lease = r_lease r,
     inst_config = [], inst_reclaimed = False, inst_loaded = loaded_hashes r,
     inst_resolved = []\<rparr>"

subsection \<open>A row and an empty database for examples\<close>

definition blank_row :: "string \<Rightarrow> row" where
  "blank_row i = \<lparr>r_id = i, r_process = ''p'', r_version = 1, r_task = ''t'', r_input = None,
    r_outputs = None, r_output = None, r_error_data = None, r_external = None, r_engine = None,
    r_parent = [], r_spawn_task = [], r_call_stack = [], r_retry_count = 0, r_wake_at = None,
    r_status = Running, r_wait = WaitNone, r_error = [], r_created_at = 0, r_updated_at = 0,
    r_worker = None, r_lease = None\<rparr>"

definition db_with :: "row list \<Rightarrow> database" where
  "db_with rows = \<lparr>d_rows = rows, d_signals = [], d_objects = [], d_definitions = []\<rparr>"

lemma d_rows_db_with [simp]: "d_rows (db_with rows) = rows"
  by (simp add: db_with_def)

end
