(* ===== verification/Expr.thy ===== *)
theory Expr
  imports Rows
begin

section \<open>Expressions (\<open>internal/expression\<close>: \<open>eval.go\<close>, \<open>ops.go\<close>, \<open>refs.go\<close>)\<close>

text \<open>
  The syntax tree the expression parser (a third-party package) produces, restricted to the
  node kinds the code handles; any other node is \<open>EOther\<close>. Evaluation gives a value or an error;
  \<open>Panicked\<close> is a Go run-time panic, which no caller recovers from.
\<close>

datatype expr =
    EInt int
  | EFloat f64
  | EStr string
  | EBool bool
  | ENil
  | EIdent string
  | EMember expr expr
  | EBinary string expr expr
  | EUnary string expr
  | ECond expr expr expr
  | EOther string

datatype eval_error =
    ParseFailed string
  | NilLiteral
  | UnknownField string
  | Unsupported string
  | NotBoolean
  | NotNumeric
  | NotInteger
  | DivisionByZero
  | Unclosed
  | NotStringifiable
  | BadShape
  | LoadFailed string
  | Panicked

subsection \<open>Numbers at run time\<close>

fun to_f64 :: "gval \<Rightarrow> f64 option" where
  "to_f64 (GInt n) = Some (f64_of_int n)"
| "to_f64 (GFloat f) = Some f"
| "to_f64 v = None"

definition is_int_like :: "gval \<Rightarrow> bool" where
  "is_int_like v = (case v of GInt _ \<Rightarrow> True | _ \<Rightarrow> False)"

definition both_numeric :: "gval \<Rightarrow> gval \<Rightarrow> (f64 \<times> f64) option" where
  "both_numeric l r = (case (to_f64 l, to_f64 r) of (Some a, Some b) \<Rightarrow> Some (a, b) | _ \<Rightarrow> None)"

fun f64_neg :: "f64 \<Rightarrow> f64" where
  "f64_neg (Fin q) = Fin (- q)"
| "f64_neg PosInf = NegInf"
| "f64_neg NegInf = PosInf"
| "f64_neg NaN = NaN"

fun f64_add :: "f64 \<Rightarrow> f64 \<Rightarrow> f64" where
  "f64_add (Fin a) (Fin b) = round64 (a + b)"
| "f64_add NaN b = NaN"
| "f64_add a NaN = NaN"
| "f64_add PosInf b = (if b = NegInf then NaN else PosInf)"
| "f64_add NegInf b = (if b = PosInf then NaN else NegInf)"
| "f64_add a b = b"

definition f64_sub :: "f64 \<Rightarrow> f64 \<Rightarrow> f64" where
  "f64_sub a b = f64_add a (f64_neg b)"

definition f64_sign :: "f64 \<Rightarrow> int" where
  "f64_sign f = (case f of Fin q \<Rightarrow> (if q < 0 then -1 else if q = 0 then 0 else 1) | PosInf \<Rightarrow> 1 | NegInf \<Rightarrow> -1 | NaN \<Rightarrow> 0)"

definition inf_of :: "int \<Rightarrow> f64" where
  "inf_of s = (if s = 0 then NaN else if 0 < s then PosInf else NegInf)"

definition f64_mul :: "f64 \<Rightarrow> f64 \<Rightarrow> f64" where
  "f64_mul a b =
     (if a = NaN \<or> b = NaN then NaN
      else case (a, b) of (Fin x, Fin y) \<Rightarrow> round64 (x * y) | _ \<Rightarrow> inf_of (f64_sign a * f64_sign b))"

text \<open>Division; the caller has excluded a zero divisor.\<close>

definition f64_div :: "f64 \<Rightarrow> f64 \<Rightarrow> f64" where
  "f64_div a b =
     (if a = NaN \<or> b = NaN then NaN
      else case (a, b) of
             (Fin x, Fin y) \<Rightarrow> round64 (x / y)
           | (Fin x, _) \<Rightarrow> Fin 0
           | (_, Fin y) \<Rightarrow> inf_of (f64_sign a * f64_sign b)
           | _ \<Rightarrow> NaN)"

definition trunc_rat :: "rat \<Rightarrow> int" where
  "trunc_rat q = (if 0 \<le> q then \<lfloor>q\<rfloor> else - \<lfloor>- q\<rfloor>)"

definition is_whole :: "f64 \<Rightarrow> bool" where
  "is_whole f = (case f of Fin q \<Rightarrow> q = of_int \<lfloor>q\<rfloor> | NaN \<Rightarrow> False | _ \<Rightarrow> True)"

text \<open>\<open>int(f)\<close>: out of range it is the most negative integer (the amd64 conversion).\<close>

definition int_min :: int where "int_min = - (2 ^ 63)"

definition int_of_f64 :: "f64 \<Rightarrow> int" where
  "int_of_f64 f =
     (case f of Fin q \<Rightarrow> (let t = trunc_rat q in if int_min \<le> t \<and> t < 2 ^ 63 then t else int_min)
      | _ \<Rightarrow> int_min)"

definition wrap_int :: "int \<Rightarrow> int" where
  "wrap_int n = sint (word_of_int n :: 64 word)"

subsection \<open>Operators\<close>

text \<open>
  \<open>equalValues\<close>: numbers by their float value, strings and booleans directly; everything else by
  Go's \<open>==\<close> on interface values, which panics on two maps or two slices.
\<close>

fun go_equal :: "gval \<Rightarrow> gval \<Rightarrow> eval_error + bool" where
  "go_equal (GObj a) (GObj b) = Inl Panicked"
| "go_equal (GArr a) (GArr b) = Inl Panicked"
| "go_equal l r = Inr (l = r)"

definition equal_values :: "gval \<Rightarrow> gval \<Rightarrow> eval_error + bool" where
  "equal_values l r =
     (case both_numeric l r of
        Some (a, b) \<Rightarrow> Inr (f64_eq a b)
      | None \<Rightarrow> go_equal l r)"

definition num_cmp :: "(f64 \<Rightarrow> f64 \<Rightarrow> bool) \<Rightarrow> gval \<Rightarrow> gval \<Rightarrow> eval_error + gval" where
  "num_cmp f l r =
     (case both_numeric l r of None \<Rightarrow> Inl NotNumeric | Some (a, b) \<Rightarrow> Inr (GBool (f a b)))"

definition num_bin_op :: "(f64 \<Rightarrow> f64 \<Rightarrow> f64) \<Rightarrow> gval \<Rightarrow> gval \<Rightarrow> eval_error + gval" where
  "num_bin_op f l r =
     (case both_numeric l r of
        None \<Rightarrow> Inl NotNumeric
      | Some (a, b) \<Rightarrow>
          let res = f a b
          in if is_int_like l \<and> is_int_like r \<and> is_whole res then Inr (GInt (int_of_f64 res))
             else Inr (GFloat res))"

fun eval_add :: "gval \<Rightarrow> gval \<Rightarrow> eval_error + gval" where
  "eval_add (GStr a) (GStr b) = Inr (GStr (a @ b))"
| "eval_add l r = num_bin_op f64_add l r"

definition eval_div :: "gval \<Rightarrow> gval \<Rightarrow> eval_error + gval" where
  "eval_div l r =
     (case both_numeric l r of
        None \<Rightarrow> Inl NotNumeric
      | Some (a, b) \<Rightarrow> if f64_eq b (Fin 0) then Inl DivisionByZero else Inr (GFloat (f64_div a b)))"

text \<open>\<open>math.Mod\<close> of two finite floats is exact.\<close>

definition eval_mod :: "gval \<Rightarrow> gval \<Rightarrow> eval_error + gval" where
  "eval_mod l r =
     (case (l, r) of
        (GInt m, GInt n) \<Rightarrow>
          (case (f64_of_int m, f64_of_int n) of
             (Fin a, Fin b) \<Rightarrow>
               if b = 0 then Inl DivisionByZero
               else Inr (GInt (int_of_f64 (Fin (a - of_int (trunc_rat (a / b)) * b))))
           | _ \<Rightarrow> Inr (GInt int_min))
      | _ \<Rightarrow> Inl NotInteger)"

definition f64_leq :: "f64 \<Rightarrow> f64 \<Rightarrow> bool" where
  "f64_leq a b \<longleftrightarrow> f64_less a b \<or> f64_eq a b"

text \<open>The table \<open>binaryOps\<close>, without the operators evaluated lazily.\<close>

definition binary_op :: "string \<Rightarrow> (gval \<Rightarrow> gval \<Rightarrow> eval_error + gval) option" where
  "binary_op s =
     (if s = ''=='' then Some (\<lambda>l r. and_then (equal_values l r) (\<lambda>b. Inr (GBool b)))
      else if s = ''!='' then Some (\<lambda>l r. and_then (equal_values l r) (\<lambda>b. Inr (GBool (\<not> b))))
      else if s = ''<'' then Some (num_cmp f64_less)
      else if s = ''>'' then Some (num_cmp (\<lambda>a b. f64_less b a))
      else if s = ''<='' then Some (num_cmp f64_leq)
      else if s = ''>='' then Some (num_cmp (\<lambda>a b. f64_leq b a))
      else if s = ''+'' then Some eval_add
      else if s = ''-'' then Some (num_bin_op f64_sub)
      else if s = ''*'' then Some (num_bin_op f64_mul)
      else if s = ''/'' then Some eval_div
      else if s = ''%'' then Some eval_mod
      else None)"

fun eval_not :: "gval \<Rightarrow> eval_error + gval" where
  "eval_not (GBool b) = Inr (GBool (\<not> b))"
| "eval_not v = Inl NotBoolean"

definition negate_num :: "gval \<Rightarrow> eval_error + gval" where
  "negate_num v =
     (case to_f64 v of
        None \<Rightarrow> Inl NotNumeric
      | Some f \<Rightarrow> if is_int_like v then Inr (GInt (wrap_int (- int_of_f64 f))) else Inr (GFloat (f64_neg f)))"

definition require_num :: "gval \<Rightarrow> eval_error + gval" where
  "require_num v = (if to_f64 v = None then Inl NotNumeric else Inr v)"

definition unary_op :: "string \<Rightarrow> (gval \<Rightarrow> eval_error + gval) option" where
  "unary_op s =
     (if s = ''!'' then Some eval_not
      else if s = ''-'' then Some negate_num
      else if s = ''+'' then Some require_num
      else None)"

subsection \<open>Evaluation\<close>

text \<open>Member access: anything missing is null.\<close>

definition member_of :: "gval \<Rightarrow> expr \<Rightarrow> eval_error + gval" where
  "member_of v p =
     (case p of
        EStr k \<Rightarrow> Inr (case v of GObj m \<Rightarrow> (case map_of m k of None \<Rightarrow> GNil | Some x \<Rightarrow> x) | _ \<Rightarrow> GNil)
      | EInt i \<Rightarrow> Inr (case v of
            GArr vs \<Rightarrow> (if 0 \<le> i \<and> i < int (length vs) then vs ! nat i else GNil) | _ \<Rightarrow> GNil)
      | _ \<Rightarrow> Inl (Unsupported ''computed member access [expr]''))"

definition as_bool :: "gval \<Rightarrow> eval_error + bool" where
  "as_bool v = (case v of GBool b \<Rightarrow> Inr b | _ \<Rightarrow> Inl NotBoolean)"

definition must_bool :: "gval \<Rightarrow> bool" where
  "must_bool v = (v = GBool True)"

fun eval :: "ctx_data \<Rightarrow> expr \<Rightarrow> eval_error + gval" where
  "eval ctx (EInt n) = Inr (GInt n)"
| "eval ctx (EFloat f) = Inr (GFloat f)"
| "eval ctx (EStr s) = Inr (GStr s)"
| "eval ctx (EBool b) = Inr (GBool b)"
| "eval ctx ENil = Inl NilLiteral"
| "eval ctx (EIdent x) =
     (if x = ''null'' then Inr GNil
      else case map_of ctx x of None \<Rightarrow> Inl (UnknownField x) | Some v \<Rightarrow> Inr v)"
| "eval ctx (EMember e p) = and_then (eval ctx e) (\<lambda>base. member_of base p)"
| "eval ctx (EBinary s l r) =
     (if s = ''??'' then
        and_then (eval ctx l) (\<lambda>v. if v \<noteq> GNil then Inr v else eval ctx r)
      else if s = ''&&'' then
        and_then (and_then (eval ctx l) as_bool) (\<lambda>b.
          if \<not> b then Inr (GBool False)
          else and_then (and_then (eval ctx r) as_bool) (\<lambda>c. Inr (GBool c)))
      else if s = ''||'' then
        and_then (and_then (eval ctx l) as_bool) (\<lambda>b.
          if b then Inr (GBool True)
          else and_then (and_then (eval ctx r) as_bool) (\<lambda>c. Inr (GBool c)))
      else case binary_op s of
             None \<Rightarrow> Inl (Unsupported s)
           | Some f \<Rightarrow> and_then (eval ctx l) (\<lambda>a. and_then (eval ctx r) (\<lambda>b. f a b)))"
| "eval ctx (EUnary s e) =
     (case unary_op s of
        None \<Rightarrow> Inl (Unsupported s)
      | Some f \<Rightarrow> and_then (eval ctx e) f)"
| "eval ctx (ECond c a b) =
     and_then (eval ctx c) (\<lambda>v. if must_bool v then eval ctx a else eval ctx b)"
| "eval ctx (EOther k) = Inl (Unsupported k)"

subsection \<open>What an expression reads (\<open>refs.go\<close>)\<close>

text \<open>\<open>outputRefID\<close>: the id of exactly \<open>outputs.<id>\<close>, else the empty string.\<close>

fun output_ref_id :: "expr \<Rightarrow> expr \<Rightarrow> string" where
  "output_ref_id (EIdent b) (EStr p) = (if b = ''outputs'' then p else [])"
| "output_ref_id e p = []"

fun is_self_previous :: "expr \<Rightarrow> expr \<Rightarrow> bool" where
  "is_self_previous (EIdent b) (EStr p) \<longleftrightarrow> b = ''self'' \<and> p = ''previous''"
| "is_self_previous e p \<longleftrightarrow> False"

fun output_refs :: "expr \<Rightarrow> string list" where
  "output_refs (EMember e p) =
     (if output_ref_id e p \<noteq> [] then [output_ref_id e p] else []) @ output_refs e"
| "output_refs (EBinary s l r) = output_refs l @ output_refs r"
| "output_refs (EUnary s e) = output_refs e"
| "output_refs (ECond c a b) = output_refs c @ output_refs a @ output_refs b"
| "output_refs e = []"

record roots =
  reads_input :: bool
  reads_error :: bool
  reads_outputs :: "string list"
  reads_all_outputs :: bool
  reads_self_previous :: bool

definition no_roots :: roots where
  "no_roots = \<lparr>reads_input = False, reads_error = False, reads_outputs = [],
               reads_all_outputs = False, reads_self_previous = False\<rparr>"

definition union_roots :: "roots \<Rightarrow> roots \<Rightarrow> roots" where
  "union_roots a b = \<lparr>reads_input = (reads_input a \<or> reads_input b),
     reads_error = (reads_error a \<or> reads_error b),
     reads_outputs = reads_outputs a @ reads_outputs b,
     reads_all_outputs = (reads_all_outputs a \<or> reads_all_outputs b),
     reads_self_previous = (reads_self_previous a \<or> reads_self_previous b)\<rparr>"

fun collect_roots :: "expr \<Rightarrow> roots" where
  "collect_roots (EMember e p) =
     (if output_ref_id e p \<noteq> [] then no_roots\<lparr>reads_outputs := [output_ref_id e p]\<rparr>
      else if is_self_previous e p then no_roots\<lparr>reads_self_previous := True\<rparr>
      else union_roots (collect_roots e) (collect_roots p))"
| "collect_roots (EIdent x) =
     no_roots\<lparr>reads_input := (x = ''input''), reads_error := (x = ''error''),
              reads_all_outputs := (x = ''outputs'')\<rparr>"
| "collect_roots (EBinary s l r) = union_roots (collect_roots l) (collect_roots r)"
| "collect_roots (EUnary s e) = collect_roots e"
| "collect_roots (ECond c a b) =
     union_roots (collect_roots c) (union_roots (collect_roots a) (collect_roots b))"
| "collect_roots e = no_roots"

end
