(* ===== verification/Template.thy ===== *)
theory Template
  imports Expr
begin

section \<open>Templates (\<open>internal/template/template.go\<close>)\<close>

text \<open>
  Strings with \<open>{{ }}\<close> expressions. The parser of expressions is a third-party package and is
  the argument \<open>parse\<close>; everything else of evaluation and of reference collection is modelled.
\<close>

type_synonym parser = "string \<Rightarrow> expr option"

definition eval_source :: "parser \<Rightarrow> string \<Rightarrow> ctx_data \<Rightarrow> eval_error + gval" where
  "eval_source parse s ctx =
     (case parse s of None \<Rightarrow> Inl (ParseFailed s) | Some e \<Rightarrow> eval ctx e)"

definition root_refs :: "parser \<Rightarrow> string \<Rightarrow> eval_error + roots" where
  "root_refs parse s =
     (case parse s of None \<Rightarrow> Inl (ParseFailed s) | Some e \<Rightarrow> Inr (collect_roots e))"

definition brace_open :: string where "brace_open = ''{{''"
definition brace_close :: string where "brace_close = ''}}''"

definition single_expr :: "string \<Rightarrow> string option" where
  "single_expr s =
     (if \<not> prefix_of brace_open s \<or> \<not> has_suffix s brace_close then None
      else let inner = drop 2 (take (length s - 2) s)
           in if str_contains inner brace_open \<or> str_contains inner brace_close then None else Some inner)"

text \<open>
  \<open>%g\<close> of a float: shortest digits, exponent form (two exponent digits) below 1e-4 and from
  1e6 on.
\<close>

definition g_text :: "rat \<Rightarrow> string" where
  "g_text q =
     (if q = 0 then ''0''
      else let a = \<bar>q\<bar> in
        (if q < 0 then ''-'' else []) @
        (case shortest_digits a 1 17 of
           None \<Rightarrow> []
         | Some (d, e) \<Rightarrow>
             let ds = dec_nat (strip_zeros d);
                 e' = e + int (length (dec_nat d)) - int (length ds);
                 x = e' + int (length ds) - 1
             in if x < -4 \<or> 6 \<le> x
                then take 1 ds @ (if length ds = 1 then [] else ''.'' @ drop 1 ds) @ ''e'' @
                     (if x < 0 then ''-'' else ''+'') @ (if \<bar>x\<bar> < 10 then ''0'' else []) @ dec_nat (nat \<bar>x\<bar>)
                else plain_layout ds e'))"

fun stringify :: "gval \<Rightarrow> eval_error + string" where
  "stringify (GStr s) = Inr s"
| "stringify (GInt n) = Inr (dec_int n)"
| "stringify (GFloat (Fin q)) = Inr (g_text q)"
| "stringify (GFloat PosInf) = Inr ''+Inf''"
| "stringify (GFloat NegInf) = Inr ''-Inf''"
| "stringify (GFloat NaN) = Inr ''NaN''"
| "stringify (GBool b) = Inr (if b then ''true'' else ''false'')"
| "stringify v = Inl NotStringifiable"

lemma str_index_bound: "str_index s sub = Some i \<Longrightarrow> i + length sub \<le> length s"
  using str_index_Some_split by blast

lemma block_shorter [termination_simp]:
  assumes "str_index s brace_open = Some i" and "str_index (drop (i + 2) s) brace_close = Some j"
  shows "length (drop (j + 2) (drop (i + 2) s)) < length s"
  using str_index_bound [OF assms(1)] by (simp add: brace_open_def)

text \<open>The literal text and the \<open>{{ }}\<close> blocks of a mixed template, evaluated left to right.\<close>

function eval_mixed :: "parser \<Rightarrow> string \<Rightarrow> ctx_data \<Rightarrow> eval_error + string" where
  "eval_mixed parse s ctx =
     (case str_index s brace_open of
        None \<Rightarrow> Inr s
      | Some i \<Rightarrow>
          (case str_index (drop (i + 2) s) brace_close of
             None \<Rightarrow> Inl Unclosed
           | Some j \<Rightarrow>
               and_then (eval_source parse (take j (drop (i + 2) s)) ctx) (\<lambda>v.
               and_then (stringify v) (\<lambda>t.
               and_then (eval_mixed parse (drop (j + 2) (drop (i + 2) s)) ctx) (\<lambda>u.
                 Inr (take i s @ t @ u))))))"
  by pat_completeness auto
termination
  by (relation "measure (\<lambda>(p, s, c). length s)") (simp_all only: in_measure split_conv block_shorter wf_measure)

declare eval_mixed.simps [simp del]

definition eval_any :: "parser \<Rightarrow> string \<Rightarrow> ctx_data \<Rightarrow> eval_error + gval" where
  "eval_any parse s ctx =
     (case single_expr s of
        Some x \<Rightarrow> eval_source parse x ctx
      | None \<Rightarrow>
          if \<not> str_contains s brace_open then Inr (GStr s)
          else and_then (eval_mixed parse s ctx) (\<lambda>t. Inr (GStr t)))"

text \<open>The roots read by the blocks of a template; an unclosed block ends the scan.\<close>

function mixed_roots :: "parser \<Rightarrow> string \<Rightarrow> eval_error + roots" where
  "mixed_roots parse s =
     (case str_index s brace_open of
        None \<Rightarrow> Inr no_roots
      | Some i \<Rightarrow>
          (case str_index (drop (i + 2) s) brace_close of
             None \<Rightarrow> Inr no_roots
           | Some j \<Rightarrow>
               and_then (root_refs parse (take j (drop (i + 2) s))) (\<lambda>r.
               and_then (mixed_roots parse (drop (j + 2) (drop (i + 2) s))) (\<lambda>rs.
                 Inr (union_roots r rs)))))"
  by pat_completeness auto
termination
  by (relation "measure (\<lambda>(p, s). length s)") (simp_all only: in_measure split_conv block_shorter wf_measure)

declare mixed_roots.simps [simp del]

definition template_roots :: "parser \<Rightarrow> string \<Rightarrow> eval_error + roots" where
  "template_roots parse s =
     (case single_expr s of Some x \<Rightarrow> root_refs parse x | None \<Rightarrow> mixed_roots parse s)"

lemma g_text_million: "g_text 1000000 = ''1e+06''"
  by code_simp

lemma float_text_million: "float_text 1000000 = ''1000000''"
  by code_simp

text \<open>
  A number from JSON is written into a mixed template in exponent form from a million on,
  although its JSON text is the plain integer: the URL of \<open>/users/{{ input.id }}\<close> for id 1000000
  ends in \<open>1e+06\<close>, and a scrub for the JSON text of a secret number does not find it.
\<close>

lemma mixed_template_exponent_form:
  "stringify (GFloat (Fin 1000000)) = Inr ''1e+06'' \<and> marshal (GFloat (Fin 1000000)) = Some ''1000000''"
  by (simp add: g_text_million float_text_million)

end
