(* ===== verification/Evaluator.thy ===== *)
theory Evaluator
  imports Template
begin

section \<open>Evaluating against an instance (\<open>internal/engine/evaluator.go\<close>)\<close>

text \<open>
  The environment of an expression and the lazy loading of externalised values. \<open>load\<close> reads one
  object of the instance by its hash (\<open>db.ResolveObject\<close>); what was loaded during an advance is
  kept in the instance's memo.
\<close>

type_synonym loader = "string \<Rightarrow> eval_error + gval"
type_synonym memo = "(string \<times> gval) list"

definition resolve_value :: "loader \<Rightarrow> memo \<Rightarrow> gval \<Rightarrow> eval_error + (gval \<times> memo)" where
  "resolve_value load memo v =
     (case v of
        GRef r \<Rightarrow>
          (case map_of memo (ref_hash r) of
             Some x \<Rightarrow> Inr (x, memo)
           | None \<Rightarrow> and_then (load (ref_hash r)) (\<lambda>x. Inr (x, (ref_hash r, x) # memo)))
      | _ \<Rightarrow> Inr (v, memo))"

definition is_marker :: "gval \<Rightarrow> bool" where
  "is_marker v = (case v of GRef _ \<Rightarrow> True | _ \<Rightarrow> False)"

definition lookup :: "ctx_data \<Rightarrow> string \<Rightarrow> gval" where
  "lookup m k = (case map_of m k of None \<Rightarrow> GNil | Some v \<Rightarrow> v)"

subsection \<open>The environment\<close>

text \<open>\<open>self.previous\<close> is loaded when the expression reads it.\<close>

definition env_self :: "loader \<Rightarrow> memo \<Rightarrow> gval \<Rightarrow> bool \<Rightarrow> eval_error + (gval \<times> memo)" where
  "env_self load memo self wanted =
     (case self of
        GObj sm \<Rightarrow>
          if wanted then
            and_then (resolve_value load memo (lookup sm ''previous'')) (\<lambda>(p, m).
              Inr (GObj (put ''previous'' p sm), m))
          else Inr (self, memo)
      | _ \<Rightarrow> Inr (self, memo))"

definition env_slot :: "loader \<Rightarrow> memo \<Rightarrow> gval \<Rightarrow> bool \<Rightarrow> eval_error + (gval \<times> memo)" where
  "env_slot load memo v wanted =
     (if is_marker v \<and> \<not> wanted then Inr (GNil, memo) else resolve_value load memo v)"

fun env_outputs :: "loader \<Rightarrow> memo \<Rightarrow> (string \<Rightarrow> bool) \<Rightarrow> (string \<times> gval) list \<Rightarrow>
    eval_error + ((string \<times> gval) list \<times> memo)" where
  "env_outputs load memo wanted [] = Inr ([], memo)"
| "env_outputs load memo wanted ((k, v) # kvs) =
     (if is_marker v \<and> \<not> wanted k then env_outputs load memo wanted kvs
      else and_then (resolve_value load memo v) (\<lambda>(x, m).
           and_then (env_outputs load m wanted kvs) (\<lambda>(outs, m').
             Inr ((k, x) # outs, m'))))"

definition outputs_of :: "ctx_data \<Rightarrow> (string \<times> gval) list" where
  "outputs_of cd = (case map_of cd ''outputs'' of Some (GObj m) \<Rightarrow> m | _ \<Rightarrow> [])"

definition build_env ::
  "loader \<Rightarrow> ctx_data \<Rightarrow> ctx_data \<Rightarrow> memo \<Rightarrow> gval \<Rightarrow> roots \<Rightarrow> eval_error + (ctx_data \<times> memo)" where
  "build_env load cd config memo self r =
     and_then (env_self load memo self (reads_self_previous r)) (\<lambda>(s, m1).
     and_then (env_slot load m1 (lookup cd ''input'') (reads_input r)) (\<lambda>(inp, m2).
     and_then (env_slot load m2 (lookup cd ''error'') (reads_error r)) (\<lambda>(err, m3).
     and_then (env_outputs load m3 (\<lambda>k. reads_all_outputs r \<or> k \<in> set (reads_outputs r)) (outputs_of cd)) (\<lambda>(outs, m4).
       Inr ([(''self'', s), (''config'', GObj config), (''input'', inp), (''error'', err),
             (''outputs'', GObj outs)], m4)))))"

subsection \<open>Shapes\<close>

fun shape_roots :: "parser \<Rightarrow> gval \<Rightarrow> eval_error + roots" where
  "shape_roots parse (GStr s) = template_roots parse s"
| "shape_roots parse (GObj kvs) =
     and_then (traverse (\<lambda>(k, v). shape_roots parse v) kvs) (\<lambda>rs. Inr (fold (\<lambda>r acc. union_roots acc r) rs no_roots))"
| "shape_roots parse v = Inr no_roots"

fun eval_shape :: "parser \<Rightarrow> ctx_data \<Rightarrow> gval \<Rightarrow> eval_error + gval" where
  "eval_shape parse env (GStr s) = eval_any parse s env"
| "eval_shape parse env (GObj kvs) =
     and_then (traverse (\<lambda>(k, v). and_then (eval_shape parse env v) (\<lambda>x. Inr (k, x))) kvs) (\<lambda>xs. Inr (GObj xs))"
| "eval_shape parse env v = Inl BadShape"

text \<open>The three entry points: a shape, one template, one boolean expression.\<close>

definition eval_shape_ctx ::
  "parser \<Rightarrow> loader \<Rightarrow> proc_instance \<Rightarrow> gval \<Rightarrow> gval \<Rightarrow> eval_error + (gval \<times> proc_instance)" where
  "eval_shape_ctx parse load inst shape self =
     and_then (shape_roots parse shape) (\<lambda>r.
     and_then (build_env load (inst_context inst) (inst_config inst) (inst_resolved inst) self r) (\<lambda>(env, m).
     and_then (eval_shape parse env shape) (\<lambda>v. Inr (v, inst\<lparr>inst_resolved := m\<rparr>))))"

definition eval_any_ctx ::
  "parser \<Rightarrow> loader \<Rightarrow> proc_instance \<Rightarrow> string \<Rightarrow> eval_error + (gval \<times> proc_instance)" where
  "eval_any_ctx parse load inst s =
     and_then (template_roots parse s) (\<lambda>r.
     and_then (build_env load (inst_context inst) (inst_config inst) (inst_resolved inst) GNil r) (\<lambda>(env, m).
     and_then (eval_any parse s env) (\<lambda>v. Inr (v, inst\<lparr>inst_resolved := m\<rparr>))))"

definition eval_bool_ctx ::
  "parser \<Rightarrow> loader \<Rightarrow> proc_instance \<Rightarrow> string \<Rightarrow> gval \<Rightarrow> eval_error + (bool \<times> proc_instance)" where
  "eval_bool_ctx parse load inst s self =
     and_then (root_refs parse s) (\<lambda>r.
     and_then (build_env load (inst_context inst) (inst_config inst) (inst_resolved inst) self r) (\<lambda>(env, m).
     and_then (eval_source parse s env) (\<lambda>v.
     and_then (as_bool v) (\<lambda>b. Inr (b, inst\<lparr>inst_resolved := m\<rparr>)))))"

subsection \<open>Loading is deterministic\<close>

text \<open>What a value resolves to does not depend on what was loaded before.\<close>

definition denotes :: "loader \<Rightarrow> memo \<Rightarrow> gval \<Rightarrow> eval_error + gval" where
  "denotes load memo v =
     (case v of GRef r \<Rightarrow> (case map_of memo (ref_hash r) of Some x \<Rightarrow> Inr x | None \<Rightarrow> load (ref_hash r))
      | _ \<Rightarrow> Inr v)"

lemma resolve_value_denotes:
  "resolve_value load memo v = Inr (x, m) \<Longrightarrow> denotes load memo v = Inr x \<and> denotes load m = denotes load memo"
  by (auto simp: resolve_value_def denotes_def and_then_eq_Inr fun_eq_iff split: gval.splits option.splits if_splits)

lemma resolve_value_total:
  "denotes load memo v = Inr x \<Longrightarrow> \<exists>m. resolve_value load memo v = Inr (x, m)"
  by (auto simp: resolve_value_def denotes_def split: gval.splits option.splits)

lemma env_slot_denotes:
  assumes "env_slot load memo v wanted = Inr (x, m)"
  shows "denotes load m = denotes load memo" and "wanted \<or> \<not> is_marker v \<Longrightarrow> denotes load memo v = Inr x"
  using assms resolve_value_denotes [of load memo v x m] by (auto simp: env_slot_def split: if_splits)

lemma env_self_denotes:
  assumes "env_self load memo self wanted = Inr (x, m)"
  shows "denotes load m = denotes load memo"
    and "x = self \<or> (\<exists>sm p. self = GObj sm \<and> wanted \<and> denotes load memo (lookup sm ''previous'') = Inr p
           \<and> x = GObj (put ''previous'' p sm))"
    and "self = GObj sm \<Longrightarrow> wanted \<Longrightarrow> \<exists>p. denotes load memo (lookup sm ''previous'') = Inr p
           \<and> x = GObj (put ''previous'' p sm)"
  using assms resolve_value_denotes
  by (fastforce simp: env_self_def and_then_eq_Inr split: gval.splits if_splits)+

lemma env_outputs_denotes:
  assumes "env_outputs load memo wanted kvs = Inr (outs, m)"
  shows "denotes load m = denotes load memo
    \<and> (\<forall>k. wanted k \<longrightarrow> (case map_of kvs k of None \<Rightarrow> map_of outs k = None
         | Some v \<Rightarrow> \<exists>x. denotes load memo v = Inr x \<and> map_of outs k = Some x))"
  using assms
proof (induction kvs arbitrary: memo outs)
  case (Cons kv kvs)
  obtain k v where kv: "kv = (k, v)" by (cases kv)
  show ?case
  proof (cases "is_marker v \<and> \<not> wanted k")
    case True
    with Cons kv show ?thesis by auto
  next
    case False
    with Cons.prems kv obtain x m1 outs' where
      1: "resolve_value load memo v = Inr (x, m1)" "env_outputs load m1 wanted kvs = Inr (outs', m)"
        "outs = (k, x) # outs'"
      by (auto simp: and_then_eq_Inr)
    from Cons.IH [OF 1(2)] resolve_value_denotes [OF 1(1)] 1(3) kv show ?thesis
      by (auto split: option.splits)
  qed
qed simp

lemma env_outputs_total:
  "(\<forall>(k, v) \<in> set kvs. wanted k \<or> \<not> is_marker v \<longrightarrow> (\<exists>x. denotes load memo v = Inr x))
     \<Longrightarrow> \<exists>outs m. env_outputs load memo wanted kvs = Inr (outs, m)"
proof (induction kvs arbitrary: memo)
  case (Cons kv kvs)
  obtain k v where kv: "kv = (k, v)" by (cases kv)
  show ?case
  proof (cases "is_marker v \<and> \<not> wanted k")
    case True
    with Cons kv show ?thesis by auto
  next
    case False
    with Cons.prems kv obtain x where "denotes load memo v = Inr x" by auto
    then obtain m1 where m1: "resolve_value load memo v = Inr (x, m1)" using resolve_value_total by blast
    then have "denotes load m1 = denotes load memo" using resolve_value_denotes by blast
    with Cons obtain outs m where "env_outputs load m1 wanted kvs = Inr (outs, m)" by fastforce
    with m1 False kv show ?thesis by auto
  qed
qed simp

subsection \<open>Lazy loading does not change a result\<close>

definition all_roots :: roots where
  "all_roots = \<lparr>reads_input = True, reads_error = True, reads_outputs = [],
                reads_all_outputs = True, reads_self_previous = True\<rparr>"

text \<open>\<open>self\<close> is only used with a static member, as in \<open>self.result\<close>.\<close>

fun self_guarded :: "expr \<Rightarrow> bool" where
  "self_guarded (EMember e p) \<longleftrightarrow> (e = EIdent ''self'' \<and> (\<exists>k. p = EStr k)) \<or> self_guarded e"
| "self_guarded (EIdent x) \<longleftrightarrow> x \<noteq> ''self''"
| "self_guarded (EBinary s l r) \<longleftrightarrow> self_guarded l \<and> self_guarded r"
| "self_guarded (EUnary s e) \<longleftrightarrow> self_guarded e"
| "self_guarded (ECond c a b) \<longleftrightarrow> self_guarded c \<and> self_guarded a \<and> self_guarded b"
| "self_guarded e \<longleftrightarrow> True"

definition roots_le :: "roots \<Rightarrow> roots \<Rightarrow> bool" where
  "roots_le a b \<longleftrightarrow> (reads_input a \<longrightarrow> reads_input b) \<and> (reads_error a \<longrightarrow> reads_error b)
     \<and> set (reads_outputs a) \<subseteq> set (reads_outputs b)
     \<and> (reads_all_outputs a \<longrightarrow> reads_all_outputs b) \<and> (reads_self_previous a \<longrightarrow> reads_self_previous b)"

lemma roots_le_refl [simp]: "roots_le r r"
  by (simp add: roots_le_def)

lemma roots_le_union: "roots_le (union_roots a b) r \<longleftrightarrow> roots_le a r \<and> roots_le b r"
  by (auto simp: roots_le_def union_roots_def)

text \<open>The two environments agree on what \<open>r\<close> covers.\<close>

definition env_agree :: "roots \<Rightarrow> ctx_data \<Rightarrow> ctx_data \<Rightarrow> bool" where
  "env_agree r full env \<longleftrightarrow>
     (\<forall>x. x \<notin> {''input'', ''error'', ''outputs'', ''self''} \<longrightarrow> map_of env x = map_of full x)
   \<and> (reads_input r \<longrightarrow> map_of env ''input'' = map_of full ''input'')
   \<and> (reads_error r \<longrightarrow> map_of env ''error'' = map_of full ''error'')
   \<and> (reads_all_outputs r \<longrightarrow> map_of env ''outputs'' = map_of full ''outputs'')
   \<and> (\<exists>o1 o2. map_of env ''outputs'' = Some (GObj o1) \<and> map_of full ''outputs'' = Some (GObj o2)
        \<and> (\<forall>k \<in> set (reads_outputs r). map_of o1 k = map_of o2 k))
   \<and> (\<exists>s1 s2. map_of env ''self'' = Some s1 \<and> map_of full ''self'' = Some s2
        \<and> (\<forall>k. k \<noteq> ''previous'' \<or> reads_self_previous r \<longrightarrow> member_of s1 (EStr k) = member_of s2 (EStr k)))"

lemma env_agreeD:
  assumes "env_agree r full env"
  shows "x \<notin> {''input'', ''error'', ''outputs'', ''self''} \<Longrightarrow> map_of env x = map_of full x"
    and "reads_input r \<Longrightarrow> map_of env ''input'' = map_of full ''input''"
    and "reads_error r \<Longrightarrow> map_of env ''error'' = map_of full ''error''"
    and "reads_all_outputs r \<Longrightarrow> map_of env ''outputs'' = map_of full ''outputs''"
    and "\<exists>o1 o2. map_of env ''outputs'' = Some (GObj o1) \<and> map_of full ''outputs'' = Some (GObj o2)
        \<and> (\<forall>k \<in> set (reads_outputs r). map_of o1 k = map_of o2 k)"
    and "\<exists>s1 s2. map_of env ''self'' = Some s1 \<and> map_of full ''self'' = Some s2
        \<and> (\<forall>k. k \<noteq> ''previous'' \<or> reads_self_previous r \<longrightarrow> member_of s1 (EStr k) = member_of s2 (EStr k))"
  using assms unfolding env_agree_def by blast+

lemma eval_ident: "x \<noteq> ''null'' \<Longrightarrow> map_of ctx x = Some v \<Longrightarrow> eval ctx (EIdent x) = Inr v"
  by simp

lemma member_of_obj: "member_of (GObj m) (EStr k) = Inr (case map_of m k of None \<Rightarrow> GNil | Some x \<Rightarrow> x)"
  by (simp add: member_of_def)

lemma eval_outputs_member:
  assumes "env_agree r full env" and "k \<in> set (reads_outputs r)"
  shows "eval env (EMember (EIdent ''outputs'') (EStr k)) = eval full (EMember (EIdent ''outputs'') (EStr k))"
proof -
  obtain o1 o2 where o: "map_of env ''outputs'' = Some (GObj o1)" "map_of full ''outputs'' = Some (GObj o2)"
     "map_of o1 k = map_of o2 k"
    using env_agreeD(5) [OF assms(1)] assms(2) by blast
  then show ?thesis
    by (simp add: member_of_obj [of o1] member_of_obj [of o2] o(3))
qed

lemma eval_self_member:
  assumes "env_agree r full env" and "k \<noteq> ''previous'' \<or> reads_self_previous r"
  shows "eval env (EMember (EIdent ''self'') (EStr k)) = eval full (EMember (EIdent ''self'') (EStr k))"
proof -
  obtain s1 s2 where s: "map_of env ''self'' = Some s1" "map_of full ''self'' = Some s2"
     "member_of s1 (EStr k) = member_of s2 (EStr k)"
    using env_agreeD(6) [OF assms(1)] assms(2) by blast
  then show ?thesis by simp
qed

lemma output_ref_idD:
  "output_ref_id e p \<noteq> [] \<Longrightarrow> e = EIdent ''outputs'' \<and> p = EStr (output_ref_id e p)"
  by (cases "(e, p)" rule: output_ref_id.cases) (auto split: if_splits)

lemma is_self_previousD: "is_self_previous e p \<Longrightarrow> e = EIdent ''self'' \<and> p = EStr ''previous''"
  by (cases "(e, p)" rule: is_self_previous.cases) auto

lemma eval_agree:
  assumes "env_agree r full env"
  shows "self_guarded e \<Longrightarrow> roots_le (collect_roots e) r \<Longrightarrow> eval env e = eval full e"
proof (induction e)
  case (EIdent x)
  then have "x \<noteq> ''self''" by simp
  have "map_of env x = map_of full x"
  proof (cases "x = ''input'' \<or> x = ''error'' \<or> x = ''outputs''")
    case True
    with EIdent.prems(2) have "x = ''input'' \<and> reads_input r \<or> x = ''error'' \<and> reads_error r
        \<or> x = ''outputs'' \<and> reads_all_outputs r"
      by (auto simp: roots_le_def)
    with env_agreeD(2-4) [OF assms] show ?thesis by blast
  next
    case False
    with \<open>x \<noteq> ''self''\<close> env_agreeD(1) [OF assms, of x] show ?thesis by blast
  qed
  then show ?case by (simp only: eval.simps)
next
  case (EMember e p)
  consider (out) "output_ref_id e p \<noteq> []" | (prev) "output_ref_id e p = []" "is_self_previous e p"
    | (self) k where "output_ref_id e p = []" "\<not> is_self_previous e p" "e = EIdent ''self''" "p = EStr k"
    | (other) "output_ref_id e p = []" "\<not> is_self_previous e p" "self_guarded e"
    using EMember.prems(1) by (cases "output_ref_id e p = []"; cases "is_self_previous e p") auto
  then show ?case
  proof cases
    case out
    then have "output_ref_id e p \<in> set (reads_outputs r)"
      using EMember.prems(2) by (simp add: roots_le_def)
    with eval_outputs_member [OF assms this] output_ref_idD [OF out] show ?thesis by metis
  next
    case prev
    then have "reads_self_previous r" using EMember.prems(2) by (simp add: roots_le_def)
    with eval_self_member [OF assms, of "''previous''"] is_self_previousD [OF prev(2)] show ?thesis by simp
  next
    case self
    then show ?thesis using eval_self_member [OF assms, of k] by (cases "k = ''previous''") auto
  next
    case other
    with EMember.prems(2) have "roots_le (collect_roots e) r" by (simp add: roots_le_union)
    with EMember.IH(1) other(3) show ?thesis by simp
  qed
next
  case (EBinary s l r')
  then have "eval env l = eval full l" "eval env r' = eval full r'" by (simp_all add: roots_le_union)
  then show ?case by (simp only: eval.simps)
next
  case (EUnary s e)
  then have "eval env e = eval full e" by simp
  then show ?case by (simp only: eval.simps)
next
  case (ECond c a b)
  then have "eval env c = eval full c" "eval env a = eval full a" "eval env b = eval full b"
    by (simp_all add: roots_le_union)
  then show ?case by (simp only: eval.simps)
qed auto

lemma env_outputs_all:
  "env_outputs load memo (\<lambda>k. True) kvs = Inr (outs, m) \<Longrightarrow>
     outs = map (\<lambda>(k, v). (k, projr (denotes load memo v))) kvs"
proof (induction kvs arbitrary: memo outs)
  case (Cons kv kvs)
  obtain k v where kv: "kv = (k, v)" by (cases kv)
  with Cons.prems obtain x m1 outs' where
    1: "resolve_value load memo v = Inr (x, m1)" "env_outputs load m1 (\<lambda>k. True) kvs = Inr (outs', m)"
      "outs = (k, x) # outs'"
    by (auto simp: and_then_eq_Inr)
  with Cons.IH [OF 1(2)] resolve_value_denotes [OF 1(1)] kv show ?case by auto
qed simp

lemma build_env_agree:
  assumes full: "build_env load cd config memo self all_roots = Inr (fenv, m)"
      and lazy: "build_env load cd config memo self r = Inr (env, m')"
  shows "env_agree r fenv env"
proof -
  from full obtain fs fm1 finp fm2 ferr fm3 fouts where
    f1: "env_self load memo self True = Inr (fs, fm1)" and
    f2: "env_slot load fm1 (lookup cd ''input'') True = Inr (finp, fm2)" and
    f3: "env_slot load fm2 (lookup cd ''error'') True = Inr (ferr, fm3)" and
    f4: "env_outputs load fm3 (\<lambda>k. True) (outputs_of cd) = Inr (fouts, m)" and
    fenv: "fenv = [(''self'', fs), (''config'', GObj config), (''input'', finp), (''error'', ferr),
             (''outputs'', GObj fouts)]"
    by (auto simp: build_env_def all_roots_def and_then_eq_Inr)
  from lazy obtain s m1 inp m2 err m3 outs where
    l1: "env_self load memo self (reads_self_previous r) = Inr (s, m1)" and
    l2: "env_slot load m1 (lookup cd ''input'') (reads_input r) = Inr (inp, m2)" and
    l3: "env_slot load m2 (lookup cd ''error'') (reads_error r) = Inr (err, m3)" and
    l4: "env_outputs load m3 (\<lambda>k. reads_all_outputs r \<or> k \<in> set (reads_outputs r)) (outputs_of cd) = Inr (outs, m')" and
    env: "env = [(''self'', s), (''config'', GObj config), (''input'', inp), (''error'', err),
             (''outputs'', GObj outs)]"
    by (auto simp: build_env_def and_then_eq_Inr)
  have fm: "denotes load fm1 = denotes load memo" "denotes load fm2 = denotes load memo" "denotes load fm3 = denotes load memo"
    using env_self_denotes(1) [OF f1] env_slot_denotes(1) [OF f2] env_slot_denotes(1) [OF f3] by simp_all
  have lm: "denotes load m1 = denotes load memo" "denotes load m2 = denotes load memo" "denotes load m3 = denotes load memo"
    using env_self_denotes(1) [OF l1] env_slot_denotes(1) [OF l2] env_slot_denotes(1) [OF l3] by simp_all
  have inp: "reads_input r \<Longrightarrow> inp = finp" and err: "reads_error r \<Longrightarrow> err = ferr"
    using env_slot_denotes(2) [OF f2] env_slot_denotes(2) [OF l2]
      env_slot_denotes(2) [OF f3] env_slot_denotes(2) [OF l3] fm lm by auto
  have fo: "fouts = map (\<lambda>(k, v). (k, projr (denotes load memo v))) (outputs_of cd)"
    using env_outputs_all [OF f4] fm by simp
  have all: "outs = fouts" if "reads_all_outputs r"
    using env_outputs_all [of load m3 "outputs_of cd" outs m'] l4 that fo lm by simp
  have some: "map_of outs k = map_of fouts k" if "k \<in> set (reads_outputs r)" for k
  proof (cases "map_of (outputs_of cd) k")
    case None
    then have "map_of outs k = None" "map_of fouts k = None"
      using env_outputs_denotes [OF l4, THEN conjunct2, rule_format, of k]
        env_outputs_denotes [OF f4, THEN conjunct2, rule_format, of k] that by simp_all
    then show ?thesis by simp
  next
    case (Some v)
    then have "\<exists>x. denotes load m3 v = Inr x \<and> map_of outs k = Some x"
      using env_outputs_denotes [OF l4, THEN conjunct2, rule_format, of k] that by simp
    moreover have "\<exists>x. denotes load fm3 v = Inr x \<and> map_of fouts k = Some x"
      using env_outputs_denotes [OF f4, THEN conjunct2, rule_format, of k] Some by simp
    ultimately show ?thesis using fm lm by auto
  qed
  have self: "member_of s (EStr k) = member_of fs (EStr k)" if "k \<noteq> ''previous'' \<or> reads_self_previous r" for k
  proof (cases self)
    case (GObj sm)
    obtain p where p: "denotes load memo (lookup sm ''previous'') = Inr p" "fs = GObj (put ''previous'' p sm)"
      using env_self_denotes(3) [OF f1 GObj] by blast
    have "s = self \<and> \<not> reads_self_previous r \<or> s = fs"
      using l1 GObj p env_self_denotes(3) [OF l1 GObj] by (cases "reads_self_previous r") (auto simp: env_self_def)
    then show ?thesis using that GObj p by (auto simp: member_of_def)
  qed (use f1 l1 in \<open>auto simp: env_self_def\<close>)
  show ?thesis
    unfolding env_agree_def fenv env using inp err all some self by (intro conjI) auto
qed

lemma env_slot_total:
  assumes "env_slot load memo v True = Inr (x, m)" and "denotes load m' = denotes load memo"
  shows "\<exists>y n. env_slot load m' v wanted = Inr (y, n)"
  using env_slot_denotes(2) [OF assms(1)] resolve_value_total [of load m' v] assms(2)
  by (auto simp: env_slot_def)

lemma env_self_total:
  assumes "env_self load memo self True = Inr (x, m)"
  shows "\<exists>y n. env_self load memo self wanted = Inr (y, n)"
  using assms by (cases wanted) (auto simp: env_self_def split: gval.splits)

lemma env_outputs_weaker:
  assumes "env_outputs load memo (\<lambda>k. True) kvs = Inr (outs, m)" and "denotes load m' = denotes load memo"
  shows "\<exists>outs n. env_outputs load m' wanted kvs = Inr (outs, n)"
proof -
  have "\<exists>x. denotes load memo v = Inr x" if "(k, v) \<in> set kvs" for k v
    using assms(1) that
  proof (induction kvs arbitrary: memo outs)
    case (Cons kv kvs)
    obtain k' v' where kv: "kv = (k', v')" by (cases kv)
    with Cons.prems obtain x m1 outs' where
      "resolve_value load memo v' = Inr (x, m1)" "env_outputs load m1 (\<lambda>k. True) kvs = Inr (outs', m)"
      by (auto simp: and_then_eq_Inr)
    with Cons resolve_value_denotes kv show ?case by (metis prod.inject set_ConsD)
  qed simp
  then have "\<forall>(k, v) \<in> set kvs. wanted k \<or> \<not> is_marker v \<longrightarrow> (\<exists>x. denotes load m' v = Inr x)"
    using assms(2) by auto
  then show ?thesis by (rule env_outputs_total)
qed

lemma build_env_total:
  assumes "build_env load cd config memo self all_roots = Inr (fenv, m)"
  shows "\<exists>env n. build_env load cd config memo self r = Inr (env, n)"
proof -
  from assms obtain fs fm1 finp fm2 ferr fm3 fouts where
    f1: "env_self load memo self True = Inr (fs, fm1)" and
    f2: "env_slot load fm1 (lookup cd ''input'') True = Inr (finp, fm2)" and
    f3: "env_slot load fm2 (lookup cd ''error'') True = Inr (ferr, fm3)" and
    f4: "env_outputs load fm3 (\<lambda>k. True) (outputs_of cd) = Inr (fouts, m)"
    by (auto simp: build_env_def all_roots_def and_then_eq_Inr)
  have fm: "denotes load fm1 = denotes load memo" "denotes load fm2 = denotes load memo" "denotes load fm3 = denotes load memo"
    using env_self_denotes(1) [OF f1] env_slot_denotes(1) [OF f2] env_slot_denotes(1) [OF f3] by simp_all
  obtain s m1 where l1: "env_self load memo self (reads_self_previous r) = Inr (s, m1)"
    using env_self_total [OF f1] by blast
  then have m1: "denotes load m1 = denotes load fm1" using env_self_denotes(1) fm by simp
  obtain inp m2 where l2: "env_slot load m1 (lookup cd ''input'') (reads_input r) = Inr (inp, m2)"
    using env_slot_total [OF f2 m1] by blast
  then have m2: "denotes load m2 = denotes load fm2" using env_slot_denotes(1) m1 fm by simp
  obtain err m3 where l3: "env_slot load m2 (lookup cd ''error'') (reads_error r) = Inr (err, m3)"
    using env_slot_total [OF f3 m2] by blast
  then have "denotes load m3 = denotes load fm3" using env_slot_denotes(1) m2 fm by simp
  from env_outputs_weaker [OF f4 this] obtain outs n where
    "env_outputs load m3 (\<lambda>k. reads_all_outputs r \<or> k \<in> set (reads_outputs r)) (outputs_of cd) = Inr (outs, n)"
    by blast
  with l1 l2 l3 show ?thesis by (simp add: build_env_def)
qed

text \<open>
  C23: A switch condition is evaluated on an environment that loads only the externalised values
  the condition refers to. For every condition that uses \<open>self\<close> through a static member, if
  the complete environment loads, the lazy one gives the same answer, the same error included.
\<close>

theorem lazy_condition_same_answer:
  assumes "parse s = Some e" and "self_guarded e"
      and "build_env load (inst_context inst) (inst_config inst) (inst_resolved inst) self all_roots = Inr (fenv, m)"
  shows "and_then (eval_bool_ctx parse load inst s self) (\<lambda>(b, i). Inr b) = and_then (eval fenv e) as_bool"
proof -
  obtain env n where env:
    "build_env load (inst_context inst) (inst_config inst) (inst_resolved inst) self (collect_roots e) = Inr (env, n)"
    using build_env_total [OF assms(3)] by blast
  have "eval env e = eval fenv e"
    by (rule eval_agree [OF build_env_agree [OF assms(3) env] assms(2)]) simp
  then show ?thesis
    by (cases "eval fenv e"; cases "as_bool (projr (eval fenv e))")
       (simp_all add: eval_bool_ctx_def root_refs_def eval_source_def assms(1) env)
qed

definition sample_condition :: expr where
  "sample_condition = EBinary ''<'' (EMember (EIdent ''self'') (EStr ''tries'')) (EMember (EIdent ''outputs'') (EStr ''n''))"

definition sample_load :: loader where
  "sample_load h = (if h = ''h1'' then Inr (GStr ''big input'') else if h = ''h2'' then Inr (GArr []) else Inl (LoadFailed h))"

definition sample_instance :: proc_instance where
  "sample_instance = (to_instance (blank_row ''i''))\<lparr>inst_context :=
     [(''input'', GRef \<lparr>ref_hash = ''h1'', ref_size = 70000\<rparr>),
      (''outputs'', GObj [(''big'', GRef \<lparr>ref_hash = ''h2'', ref_size = 80000\<rparr>), (''n'', GInt 3)])]\<rparr>"

theorem lazy_condition_same_answer_witness:
  "and_then (eval_bool_ctx (\<lambda>s. Some sample_condition) sample_load sample_instance ''self.tries < outputs.n''
       (GObj [(''tries'', GInt 1)])) (\<lambda>(b, i). Inr b) = Inr True"
proof -
  have "self_guarded sample_condition" by (simp add: sample_condition_def)
  moreover have "(case build_env sample_load (inst_context sample_instance) (inst_config sample_instance)
      (inst_resolved sample_instance) (GObj [(''tries'', GInt 1)]) all_roots of
        Inl _ \<Rightarrow> False | Inr (fenv, m) \<Rightarrow> and_then (eval fenv sample_condition) as_bool = Inr True)"
    by code_simp
  then obtain fenv m where "build_env sample_load (inst_context sample_instance) (inst_config sample_instance)
      (inst_resolved sample_instance) (GObj [(''tries'', GInt 1)]) all_roots = Inr (fenv, m)"
      "and_then (eval fenv sample_condition) as_bool = Inr True"
    by (auto split: sum.splits)
  ultimately show ?thesis
    using lazy_condition_same_answer [of "\<lambda>s. Some sample_condition" "''self.tries < outputs.n''" sample_condition
        sample_load sample_instance "GObj [(''tries'', GInt 1)]"]
    by metis
qed

text \<open>Bare \<open>self\<close> is outside the guarded expressions: its previous output stays a marker.\<close>

lemma bare_self_not_loaded:
  "build_env load [] [] [] (GObj [(''previous'', GRef r)]) (collect_roots (EIdent ''self''))
     = Inr ([(''self'', GObj [(''previous'', GRef r)]), (''config'', GObj []), (''input'', GNil),
             (''error'', GNil), (''outputs'', GObj [])], [])"
  by (simp add: build_env_def env_self_def env_slot_def lookup_def is_marker_def resolve_value_def outputs_of_def no_roots_def)

end
