(* ===== verification/SchemaValidate.thy ===== *)
theory SchemaValidate
  imports SchemaNode
begin

section \<open>Validation and normalization of values (\<open>internal/schema/validate.go\<close>)\<close>

text \<open>
  \<open>conform\<close> checks a value against a schema and builds the normalized copy: undeclared
  properties are dropped, absent optional ones filled from their defaults. The code recurses over
  the value and, through unions and references, over the schema without consuming the value; the
  argument \<open>n\<close> bounds the depth of that recursion and \<open>OutOfFuel\<close> stands for a recursion that
  goes on. Error messages carry no path. \<open>validate\<close> gives the bound that suffices for every
  document whose references do not run in a circle through unions (\<open>conform_returns\<close>).
\<close>

subsection \<open>Checks of one value\<close>

definition as_float :: "gval \<Rightarrow> f64 option" where
  "as_float v = (case v of GInt n \<Rightarrow> Some (f64_of_int n) | GFloat f \<Rightarrow> Some f | _ \<Rightarrow> None)"

definition is_integral :: "gval \<Rightarrow> bool" where
  "is_integral v = (case v of GInt _ \<Rightarrow> True | GFloat (Fin q) \<Rightarrow> q = of_int \<lfloor>q\<rfloor> | _ \<Rightarrow> False)"

definition value_has_type :: "gval \<Rightarrow> string \<Rightarrow> bool" where
  "value_has_type v t =
     (if t = ''null'' then v = GNil
      else if t = ''boolean'' then (case v of GBool _ \<Rightarrow> True | _ \<Rightarrow> False)
      else if t = ''string'' then (case v of GStr _ \<Rightarrow> True | _ \<Rightarrow> False)
      else if t = ''object'' then (case v of GObj _ \<Rightarrow> True | _ \<Rightarrow> False)
      else if t = ''array'' then (case v of GArr _ \<Rightarrow> True | _ \<Rightarrow> False)
      else if t = ''number'' then as_float v \<noteq> None
      else if t = ''integer'' then is_integral v
      else False)"

definition check_type :: "node \<Rightarrow> gval \<Rightarrow> bool" where
  "check_type nd v \<longleftrightarrow> n_type nd = [] \<or> list_ex (value_has_type v) (n_type nd)"

definition enum_contains :: "gval list \<Rightarrow> gval \<Rightarrow> bool" where
  "enum_contains vs v = (marshal v \<noteq> None \<and> list_ex (\<lambda>e. marshal e = marshal v) vs)"

definition enum_ok :: "node \<Rightarrow> gval \<Rightarrow> bool" where
  "enum_ok nd v = (case n_enum nd of None \<Rightarrow> True | Some [] \<Rightarrow> True | Some vs \<Rightarrow> enum_contains vs v)"

text \<open>\<open>utf8.RuneCountInString\<close> of a string of bytes: the bytes that are not continuation bytes
  (exact for valid UTF-8).\<close>

definition rune_count :: "string \<Rightarrow> int" where
  "rune_count s = int (length (filter (\<lambda>c. (of_char c :: nat) < 128 \<or> 192 \<le> (of_char c :: nat)) s))"

definition check_scalar :: "node \<Rightarrow> gval \<Rightarrow> schema_error option" where
  "check_scalar nd v =
     (if (case (as_float v, n_minimum nd) of (Some f, Some m) \<Rightarrow> f64_less f m | _ \<Rightarrow> False) then Some BelowMinimum
      else if (case (as_float v, n_maximum nd) of (Some f, Some m) \<Rightarrow> f64_less m f | _ \<Rightarrow> False) then Some AboveMaximum
      else case v of
        GStr s \<Rightarrow>
          if (case n_min_length nd of Some m \<Rightarrow> rune_count s < m | None \<Rightarrow> False) then Some TooShort
          else if (case n_max_length nd of Some m \<Rightarrow> m < rune_count s | None \<Rightarrow> False) then Some TooLong
          else None
      | _ \<Rightarrow> None)"

definition prop_default :: "node option \<Rightarrow> node_defs \<Rightarrow> gval" where
  "prop_default p defs =
     (case p of None \<Rightarrow> GNil
      | Some nd \<Rightarrow>
          if n_default nd \<noteq> GNil then n_default nd
          else if n_ref nd \<noteq> [] then (case deref nd defs of Inr t \<Rightarrow> n_default t | Inl _ \<Rightarrow> GNil)
          else GNil)"

definition is_object_schema :: "node \<Rightarrow> bool" where
  "is_object_schema nd \<longleftrightarrow> ''object'' \<in> set (n_type nd) \<or> n_properties nd \<noteq> None \<or> n_required nd \<noteq> None"

subsection \<open>The recursion\<close>

type_synonym conformer = "node option \<Rightarrow> gval \<Rightarrow> schema_error + gval"

text \<open>One declared property: what it adds to the result.\<close>

definition conform_property ::
  "conformer \<Rightarrow> node \<Rightarrow> node_defs \<Rightarrow> (string \<times> gval) list \<Rightarrow> string \<times> node option \<Rightarrow>
     schema_error + (string \<times> gval) list" where
  "conform_property rec nd defs m = (\<lambda>(name, p).
     case map_of m name of
       None \<Rightarrow>
         if is_required nd name then Inl (MissingProperty name)
         else if prop_default p defs \<noteq> GNil then Inr [(name, decoded (prop_default p defs))]
         else Inr []
     | Some v \<Rightarrow> and_then (rec p v) (\<lambda>x. Inr [(name, x)]))"

definition conform_object ::
  "conformer \<Rightarrow> node \<Rightarrow> node_defs \<Rightarrow> (string \<times> gval) list \<Rightarrow> schema_error + gval" where
  "conform_object rec nd defs m =
     and_then (traverse (conform_property rec nd defs m) (entries_of (n_properties nd)))
       (\<lambda>parts. Inr (GObj (concat parts)))"

definition conform_array :: "conformer \<Rightarrow> node \<Rightarrow> gval list \<Rightarrow> schema_error + gval" where
  "conform_array rec nd vs =
     (if (case n_min_items nd of Some m \<Rightarrow> int (length vs) < m | None \<Rightarrow> False) then Inl TooFewItems
      else if (case n_max_items nd of Some m \<Rightarrow> m < int (length vs) | None \<Rightarrow> False) then Inl TooManyItems
      else and_then (traverse (rec (n_items nd)) vs) (\<lambda>xs. Inr (GArr xs)))"

text \<open>\<open>conformUnion\<close> for \<open>anyOf\<close>: the first branch that accepts.\<close>

fun conform_any :: "conformer \<Rightarrow> node option list \<Rightarrow> gval \<Rightarrow> schema_error + gval" where
  "conform_any rec [] v = Inl NoVariantMatches"
| "conform_any rec (b # bs) v =
     (case rec b v of
        Inr x \<Rightarrow> Inr x
      | Inl e \<Rightarrow> if e = OutOfFuel then Inl OutOfFuel else conform_any rec bs v)"

text \<open>\<open>conformUnion\<close> for \<open>oneOf\<close>: all branches run; \<open>match\<close> is the last one that accepted.\<close>

fun conform_one :: "conformer \<Rightarrow> node option list \<Rightarrow> gval \<Rightarrow> gval list \<Rightarrow> schema_error + gval" where
  "conform_one rec [] v ms =
     (case ms of [] \<Rightarrow> Inl NoVariantMatches | [x] \<Rightarrow> Inr x | _ \<Rightarrow> Inl (SeveralVariantsMatch (length ms)))"
| "conform_one rec (b # bs) v ms =
     (case rec b v of
        Inr x \<Rightarrow> conform_one rec bs v (x # ms)
      | Inl e \<Rightarrow> if e = OutOfFuel then Inl OutOfFuel else conform_one rec bs v ms)"

definition conform_plain :: "conformer \<Rightarrow> node \<Rightarrow> node_defs \<Rightarrow> gval \<Rightarrow> schema_error + gval" where
  "conform_plain rec nd defs v =
     (if \<not> check_type nd v then Inl WrongType
      else if \<not> enum_ok nd v then Inl NotInEnum
      else case v of
        GNil \<Rightarrow> Inr GNil
      | GObj m \<Rightarrow> if is_object_schema nd then conform_object rec nd defs m else Inr v
      | GArr vs \<Rightarrow> if n_items nd \<noteq> None \<or> ''array'' \<in> set (n_type nd) then conform_array rec nd vs else Inr v
      | _ \<Rightarrow> (case check_scalar nd v of Some e \<Rightarrow> Inl e | None \<Rightarrow> Inr v))"

definition conform_resolved :: "conformer \<Rightarrow> node \<Rightarrow> node_defs \<Rightarrow> gval \<Rightarrow> schema_error + gval" where
  "conform_resolved rec nd defs v =
     (if is_empty_schema nd then Inr v
      else if variants_of (n_any_of nd) \<noteq> [] then conform_any rec (variants_of (n_any_of nd)) v
      else if variants_of (n_one_of nd) \<noteq> [] then conform_one rec (variants_of (n_one_of nd)) v []
      else conform_plain rec nd defs v)"

fun conform :: "nat \<Rightarrow> node_defs \<Rightarrow> conformer" where
  "conform 0 defs nd v = Inl OutOfFuel"
| "conform (Suc n) defs nd v =
     (case nd of None \<Rightarrow> Inr v
      | Some s \<Rightarrow> and_then (deref s defs) (\<lambda>r. conform_resolved (conform n defs) r defs v))"

subsection \<open>The bound\<close>

fun depth :: "gval \<Rightarrow> nat" where
  "depth (GArr vs) = Suc (fold max (map depth vs) 0)"
| "depth (GObj kvs) = Suc (fold max (map (\<lambda>(k, v). depth v) kvs) 0)"
| "depth v = 0"

text \<open>All nodes of a document, its definitions included.\<close>

fun keep_some :: "'a option list \<Rightarrow> 'a list" where
  "keep_some [] = []"
| "keep_some (None # xs) = keep_some xs"
| "keep_some (Some x # xs) = x # keep_some xs"

lemma set_keep_some: "x \<in> set (keep_some xs) \<longleftrightarrow> Some x \<in> set xs"
  by (induction xs rule: keep_some.induct) auto

definition children :: "node \<Rightarrow> node list" where
  "children s = keep_some
     (map snd (entries_of (n_properties s)) @ [n_items s] @ variants_of (n_one_of s)
      @ variants_of (n_any_of s) @ map snd (entries_of (n_defs s)))"

lemma set_children:
  "q \<in> set (children s) \<longleftrightarrow> (\<exists>k. (k, Some q) \<in> set (entries_of (n_properties s))) \<or> n_items s = Some q
     \<or> Some q \<in> set (variants_of (n_one_of s)) \<or> Some q \<in> set (variants_of (n_any_of s))
     \<or> (\<exists>k. (k, Some q) \<in> set (entries_of (n_defs s)))"
  by (auto simp: children_def set_keep_some image_iff Bex_def)

lemma size_children [termination_simp]: "q \<in> set (children s) \<Longrightarrow> size q < size s"
  by (auto simp: set_children size_entries size_items size_variants)

fun subnodes :: "node \<Rightarrow> node list" where
  "subnodes s = s # concat (map subnodes (children s))"

declare subnodes.simps [simp del]

definition validate_fuel :: "node \<Rightarrow> gval \<Rightarrow> nat" where
  "validate_fuel s v = Suc (length (subnodes s)) * Suc (depth v)"

definition validate :: "node \<Rightarrow> gval \<Rightarrow> schema_error + gval" where
  "validate s v = conform (validate_fuel s v) (n_defs s) (Some s) v"

text \<open>\<open>ValidateInput\<close> and \<open>ValidateOutput\<close>: no schema, no change.\<close>

definition validate_opt :: "node option \<Rightarrow> gval \<Rightarrow> schema_error + gval" where
  "validate_opt s v = (case s of None \<Rightarrow> Inr v | Some nd \<Rightarrow> validate nd v)"

subsection \<open>Returning\<close>

definition branches :: "node \<Rightarrow> node option list" where
  "branches r = (if variants_of (n_any_of r) \<noteq> [] then variants_of (n_any_of r) else variants_of (n_one_of r))"

text \<open>References and unions below a node end within \<open>n\<close> levels.\<close>

fun grounded :: "nat \<Rightarrow> node_defs \<Rightarrow> node option \<Rightarrow> bool" where
  "grounded 0 defs p = False"
| "grounded (Suc n) defs p =
     (case p of None \<Rightarrow> True
      | Some s \<Rightarrow> (case deref s defs of Inl _ \<Rightarrow> True | Inr r \<Rightarrow> list_all (grounded n defs) (branches r)))"

definition grounded_doc :: "node \<Rightarrow> bool" where
  "grounded_doc s \<longleftrightarrow> list_all (\<lambda>x. grounded (length (subnodes s)) (n_defs s) (Some x)) (subnodes s)"

lemma subnodes_self: "s \<in> set (subnodes s)"
  by (subst subnodes.simps) simp

lemma subnodes_trans: "x \<in> set (subnodes s) \<Longrightarrow> set (subnodes x) \<subseteq> set (subnodes s)"
proof (induction s rule: subnodes.induct)
  case (1 s)
  show ?case
  proof (cases "x = s")
    case False
    with 1(2) obtain q where q: "q \<in> set (children s)" "x \<in> set (subnodes q)"
      by (subst (asm) subnodes.simps) auto
    have "set (subnodes x) \<subseteq> set (subnodes q)" by (rule 1(1) [OF q])
    also have "\<dots> \<subseteq> set (subnodes s)" using q(1) by (subst (2) subnodes.simps) auto
    finally show ?thesis .
  qed simp
qed

lemma subnodes_child: "x \<in> set (subnodes s) \<Longrightarrow> q \<in> set (children x) \<Longrightarrow> q \<in> set (subnodes s)"
proof -
  assume x: "x \<in> set (subnodes s)" and q: "q \<in> set (children x)"
  have "q \<in> set (subnodes x)" using q subnodes_self [of q] by (subst subnodes.simps) auto
  then show ?thesis using subnodes_trans [OF x] by blast
qed

text \<open>The nodes of a document are closed under children, branches and references.\<close>

definition in_doc :: "node \<Rightarrow> node option \<Rightarrow> bool" where
  "in_doc s p = (case p of None \<Rightarrow> True | Some q \<Rightarrow> q \<in> set (subnodes s))"

lemma in_doc_None [simp]: "in_doc s None"
  by (simp add: in_doc_def)

lemma in_doc_child:
  assumes "x \<in> set (subnodes s)"
  shows "(k, p) \<in> set (entries_of (n_properties x)) \<Longrightarrow> in_doc s p"
    and "in_doc s (n_items x)"
    and "b \<in> set (branches x) \<Longrightarrow> in_doc s b"
proof -
  have c: "in_doc s p" if "\<And>q. p = Some q \<Longrightarrow> q \<in> set (children x)" for p
    using subnodes_child [OF assms] that by (cases p) (simp_all add: in_doc_def)
  show "in_doc s p" if "(k, p) \<in> set (entries_of (n_properties x))"
    using that by (intro c) (simp only: set_children, rule disjI1, rule exI)
  show "in_doc s (n_items x)"
    by (intro c) (simp only: set_children simp_thms)
  show "in_doc s b" if "b \<in> set (branches x)"
    using that by (intro c) (simp only: set_children branches_def split: if_splits, simp_all only: simp_thms)
qed

lemma deref_in_doc: "x \<in> set (subnodes s) \<Longrightarrow> deref x (n_defs s) = Inr r \<Longrightarrow> r \<in> set (subnodes s)"
  using subnodes_child [OF subnodes_self, of r s]
  by (auto simp: deref_def def_node_def entries_of_def set_children dest!: map_of_SomeD split: if_splits option.splits)

lemma conform_any_fuel: "conform_any rec bs v = Inl OutOfFuel \<Longrightarrow> \<exists>b \<in> set bs. rec b v = Inl OutOfFuel"
  by (induction bs) (auto split: sum.splits if_splits)

lemma conform_one_fuel: "conform_one rec bs v ms = Inl OutOfFuel \<Longrightarrow> \<exists>b \<in> set bs. rec b v = Inl OutOfFuel"
  by (induction bs arbitrary: ms) (auto split: sum.splits if_splits list.splits)

lemma fold_max_ge: "x \<in> set xs \<Longrightarrow> x \<le> fold max xs (a :: nat)"
proof (induction xs arbitrary: a)
  case (Cons y xs)
  have "a \<le> fold max xs a" for a by (induction xs arbitrary: a) (auto, meson max.bounded_iff)
  then have "y \<le> fold max xs (max y a)" by (meson max.bounded_iff)
  with Cons show ?case by auto
qed simp

lemma depth_field: "map_of m k = Some v \<Longrightarrow> Suc (depth v) \<le> depth (GObj m)"
  using fold_max_ge [of "depth v" "map (\<lambda>(k, v). depth v) m" 0] by (force dest!: map_of_SomeD)

lemma depth_elem: "v \<in> set vs \<Longrightarrow> Suc (depth v) \<le> depth (GArr vs)"
  by (simp add: fold_max_ge)

lemma conform_array_fuel:
  "conform_array rec nd vs = Inl OutOfFuel \<Longrightarrow> \<exists>x \<in> set vs. rec (n_items nd) x = Inl OutOfFuel"
proof -
  assume a: "conform_array rec nd vs = Inl OutOfFuel"
  have "traverse (rec (n_items nd)) vs = Inl OutOfFuel"
    using a by (cases "traverse (rec (n_items nd)) vs") (simp_all add: conform_array_def split: if_split_asm)
  then show ?thesis by (rule traverse_Inl)
qed

lemma conform_object_fuel:
  assumes "conform_object rec nd defs m = Inl OutOfFuel"
  shows "\<exists>k p x. (k, p) \<in> set (entries_of (n_properties nd)) \<and> map_of m k = Some x \<and> rec p x = Inl OutOfFuel"
proof -
  have "traverse (conform_property rec nd defs m) (entries_of (n_properties nd)) = Inl OutOfFuel"
    using assms by (cases "traverse (conform_property rec nd defs m) (entries_of (n_properties nd))")
      (simp_all add: conform_object_def)
  from traverse_Inl [OF this] obtain k p where
    kp: "(k, p) \<in> set (entries_of (n_properties nd))" "conform_property rec nd defs m (k, p) = Inl OutOfFuel"
    by auto
  then obtain x where "map_of m k = Some x" "rec p x = Inl OutOfFuel"
    by (cases "map_of m k"; cases "rec p (the (map_of m k))") (simp_all add: conform_property_def split: if_split_asm)
  with kp(1) show ?thesis by blast
qed

lemma check_scalar_fuel: "check_scalar nd v \<noteq> Some OutOfFuel"
  by (simp add: check_scalar_def split: gval.split)

lemma conform_plain_fuel:
  assumes "conform_plain rec nd defs v = Inl OutOfFuel"
  shows "\<exists>p x. rec p x = Inl OutOfFuel \<and> Suc (depth x) \<le> depth v
           \<and> ((\<exists>k. (k, p) \<in> set (entries_of (n_properties nd))) \<or> p = n_items nd)"
proof (cases v)
  case (GArr vs)
  with assms have "conform_array rec nd vs = Inl OutOfFuel"
    by (simp add: conform_plain_def split: if_split_asm)
  from conform_array_fuel [OF this] depth_elem GArr show ?thesis by blast
next
  case (GObj m)
  with assms have "conform_object rec nd defs m = Inl OutOfFuel"
    by (simp add: conform_plain_def split: if_split_asm)
  from conform_object_fuel [OF this] depth_field GObj show ?thesis by blast
qed (use assms check_scalar_fuel in \<open>simp_all add: conform_plain_def split: if_split_asm option.split_asm\<close>)

lemma conform_enough:
  assumes doc: "grounded_doc s" and defs: "defs = n_defs s"
      and "M = Suc (length (subnodes s))"
  shows "grounded g defs p \<Longrightarrow> in_doc s p \<Longrightarrow> g + M * depth v \<le> n \<Longrightarrow> conform n defs p v \<noteq> Inl OutOfFuel"
proof (induction n arbitrary: g p v)
  case 0
  then show ?case by (cases g) auto
next
  case (Suc n)
  obtain g' where g: "g = Suc g'" using Suc.prems(1) by (cases g) auto
  show ?case
  proof
    assume oof: "conform (Suc n) defs p v = Inl OutOfFuel"
    then obtain x where x: "p = Some x" by (cases p) auto
    with oof obtain r where r: "deref x defs = Inr r" "conform_resolved (conform n defs) r defs v = Inl OutOfFuel"
      by (auto simp: and_then_eq_Inl deref_def split: if_splits option.splits)
    have rs: "r \<in> set (subnodes s)" using deref_in_doc r(1) Suc.prems(2) x defs by (auto simp: in_doc_def)
    from r(2) consider b where "b \<in> set (branches r)" "conform n defs b v = Inl OutOfFuel"
      | "conform_plain (conform n defs) r defs v = Inl OutOfFuel"
      by (auto simp: conform_resolved_def branches_def split: if_splits dest!: conform_any_fuel conform_one_fuel)
    then show False
    proof cases
      case 1
      moreover have "grounded g' defs b" using Suc.prems(1) g x r(1) 1(1) by (auto simp: list_all_iff)
      moreover have "in_doc s b" using in_doc_child(3) [OF rs 1(1)] .
      ultimately show False using Suc.IH [of g' b v] Suc.prems(3) g by simp
    next
      case 2
      from conform_plain_fuel [OF this] obtain q y where
        q: "conform n defs q y = Inl OutOfFuel" "Suc (depth y) \<le> depth v"
           "(\<exists>k. (k, q) \<in> set (entries_of (n_properties r))) \<or> q = n_items r" by blast
      have qs: "in_doc s q" using q(3) in_doc_child(1,2) [OF rs] by auto
      have "grounded (length (subnodes s)) defs q"
        using qs doc defs by (cases q) (auto simp: in_doc_def grounded_doc_def list_all_iff, metis grounded.simps(2) length_pos_if_in_set gr0_implies_Suc option.simps(4) rs)
      moreover have "length (subnodes s) + M * depth y \<le> n"
      proof -
        have "M * Suc (depth y) \<le> M * depth v" using q(2) by (rule mult_le_mono2)
        with Suc.prems(3) g assms(3) show ?thesis by simp
      qed
      ultimately show False using Suc.IH qs q(1) by blast
    qed
  qed
qed

lemma validate_returns: "grounded_doc s \<Longrightarrow> validate s v \<noteq> Inl OutOfFuel"
proof -
  assume doc: "grounded_doc s"
  then have "grounded (length (subnodes s)) (n_defs s) (Some s)"
    using subnodes_self [of s] by (simp add: grounded_doc_def list_all_iff)
  then show ?thesis
    unfolding validate_def
    by (rule conform_enough [OF doc refl refl]) (simp_all add: in_doc_def subnodes_self validate_fuel_def)
qed

subsection \<open>The answer does not depend on the bound\<close>

definition refines :: "conformer \<Rightarrow> conformer \<Rightarrow> bool" where
  "refines rec rec' \<longleftrightarrow> (\<forall>p v. rec p v \<noteq> Inl OutOfFuel \<longrightarrow> rec' p v = rec p v)"

lemma refinesD: "refines rec rec' \<Longrightarrow> rec p v \<noteq> Inl OutOfFuel \<Longrightarrow> rec' p v = rec p v"
  by (simp add: refines_def)

lemma traverse_refines:
  "(\<And>x. x \<in> set xs \<Longrightarrow> f x \<noteq> Inl e \<Longrightarrow> g x = f x) \<Longrightarrow> traverse f xs \<noteq> Inl e \<Longrightarrow> traverse g xs = traverse f xs"
proof (induction xs)
  case (Cons x xs)
  from Cons.prems(2) have fx: "f x \<noteq> Inl e" by auto
  then have gx: "g x = f x" using Cons.prems(1) by simp
  show ?case
  proof (cases "f x")
    case (Inr y)
    with Cons.prems(2) have "traverse f xs \<noteq> Inl e" by auto
    with Cons Inr gx show ?thesis by simp
  qed (use gx in simp)
qed simp

lemma conform_any_refines:
  "refines rec rec' \<Longrightarrow> conform_any rec bs v \<noteq> Inl OutOfFuel \<Longrightarrow> conform_any rec' bs v = conform_any rec bs v"
proof (induction bs)
  case (Cons b bs)
  then have "rec b v \<noteq> Inl OutOfFuel" by auto
  then have "rec' b v = rec b v" by (rule refinesD [OF Cons.prems(1)])
  with Cons show ?case by (cases "rec b v") (auto split: if_splits)
qed simp

lemma conform_one_refines:
  "refines rec rec' \<Longrightarrow> conform_one rec bs v ms \<noteq> Inl OutOfFuel \<Longrightarrow> conform_one rec' bs v ms = conform_one rec bs v ms"
proof (induction bs arbitrary: ms)
  case (Cons b bs)
  then have "rec b v \<noteq> Inl OutOfFuel" by auto
  then have "rec' b v = rec b v" by (rule refinesD [OF Cons.prems(1)])
  with Cons show ?case by (cases "rec b v") (auto split: if_splits)
qed simp

lemma conform_object_refines:
  assumes "refines rec rec'" and "conform_object rec nd defs m \<noteq> Inl OutOfFuel"
  shows "conform_object rec' nd defs m = conform_object rec nd defs m"
proof -
  have "conform_property rec' nd defs m kp = conform_property rec nd defs m kp"
    if "conform_property rec nd defs m kp \<noteq> Inl OutOfFuel" for kp
  proof (cases kp)
    case (Pair k p)
    show ?thesis
    proof (cases "map_of m k")
      case (Some v)
      with that Pair have "rec p v \<noteq> Inl OutOfFuel" by (auto simp: conform_property_def)
      with Some Pair refinesD [OF assms(1)] show ?thesis by (simp add: conform_property_def)
    qed (simp add: Pair conform_property_def)
  qed
  moreover have "traverse (conform_property rec nd defs m) (entries_of (n_properties nd)) \<noteq> Inl OutOfFuel"
    using assms(2) by (auto simp: conform_object_def)
  ultimately show ?thesis
    using traverse_refines [of _ "conform_property rec nd defs m" OutOfFuel "conform_property rec' nd defs m"]
    by (simp add: conform_object_def)
qed

lemma conform_array_refines:
  assumes "refines rec rec'" and "conform_array rec nd vs \<noteq> Inl OutOfFuel"
  shows "conform_array rec' nd vs = conform_array rec nd vs"
proof (cases "traverse (rec (n_items nd)) vs = Inl OutOfFuel")
  case True
  with assms(2) show ?thesis by (simp add: conform_array_def split: if_splits)
next
  case False
  with refinesD [OF assms(1)] show ?thesis
    using traverse_refines [of vs "rec (n_items nd)" OutOfFuel "rec' (n_items nd)"]
    by (simp add: conform_array_def)
qed

lemma conform_plain_refines:
  assumes "refines rec rec'" and "conform_plain rec nd defs v \<noteq> Inl OutOfFuel"
  shows "conform_plain rec' nd defs v = conform_plain rec nd defs v"
  using assms(2) conform_object_refines [OF assms(1)] conform_array_refines [OF assms(1)]
  by (cases v) (simp_all add: conform_plain_def split: if_splits)

lemma conform_resolved_refines:
  assumes "refines rec rec'" and "conform_resolved rec nd defs v \<noteq> Inl OutOfFuel"
  shows "conform_resolved rec' nd defs v = conform_resolved rec nd defs v"
  using assms(2) conform_plain_refines [OF assms(1)] conform_any_refines [OF assms(1)] conform_one_refines [OF assms(1)]
  by (simp add: conform_resolved_def split: if_splits)

lemma conform_Suc_eq:
  "conform (Suc n) defs (Some s) v = and_then (deref s defs) (\<lambda>r. conform_resolved (conform n defs) r defs v)"
  by simp

lemma conform_Suc: "refines (conform n defs) (conform (Suc n) defs)"
proof (induction n)
  case 0
  show ?case by (simp add: refines_def)
next
  case (Suc n)
  show ?case
    unfolding refines_def
  proof (intro allI impI)
    fix p v assume a: "conform (Suc n) defs p v \<noteq> Inl OutOfFuel"
    show "conform (Suc (Suc n)) defs p v = conform (Suc n) defs p v"
    proof (cases p)
      case (Some s)
      show ?thesis
      proof (cases "deref s defs")
        case (Inr r)
        with a Some have "conform_resolved (conform n defs) r defs v \<noteq> Inl OutOfFuel"
          by (simp only: conform.simps option.case and_then_simps) simp
        note eq = conform_resolved_refines [OF Suc this]
        show ?thesis
          by (subst (1 2) conform_Suc_eq [of _ defs s v, folded Some]) (simp only: Inr and_then_simps eq)
      qed (simp add: Some)
    qed simp
  qed
qed

lemma conform_mono:
  "n \<le> m \<Longrightarrow> conform n defs p v \<noteq> Inl OutOfFuel \<Longrightarrow> conform m defs p v = conform n defs p v"
proof (induction m rule: dec_induct)
  case (step m)
  then show ?case using refinesD [OF conform_Suc, of m defs p v] by simp
qed simp

text \<open>
  C19: Validation returns, and with one answer. For a document whose references do not run in a
  circle through \<open>anyOf\<close> and \<open>oneOf\<close> (recursive types through properties and items are fine),
  the recursion ends within the bound of \<open>validate\<close> for every value, and any greater bound
  gives the same result.
\<close>

theorem validation_returns:
  assumes "grounded_doc s" and "validate_fuel s v \<le> n"
  shows "validate s v \<noteq> Inl OutOfFuel \<and> conform n (n_defs s) (Some s) v = validate s v"
  using validate_returns [OF assms(1)] conform_mono [OF assms(2)] by (simp add: validate_def)

definition list_schema :: node where
  "list_schema = Node [''object''] (Some [(''head'', Some (typed [''integer''])),
      (''tail'', Some (any_of_node [Some (typed [''null'']), Some (Node [] None None None None None None None None None None None None None ''#/$defs/cell'' None [] [] GNil False)]))])
    (Some [''head'', ''tail'']) None None None None None None None None None None None []
    (Some [(''cell'', Some (Node [''object''] (Some [(''head'', Some (typed [''integer''])),
      (''tail'', Some (any_of_node [Some (typed [''null'']), Some (Node [] None None None None None None None None None None None None None ''#/$defs/cell'' None [] [] GNil False)]))])
    (Some [''head'', ''tail'']) None None None None None None None None None None None [] None [] [] GNil False))]) [] [] GNil False"

theorem validation_returns_witness:
  "validate list_schema (GObj [(''head'', GInt 1), (''tail'', GObj [(''head'', GInt 2), (''tail'', GNil), (''x'', GNil)])])
     = Inr (GObj [(''head'', GInt 1), (''tail'', GObj [(''head'', GInt 2), (''tail'', GNil)])])"
proof -
  let ?v = "GObj [(''head'', GInt 1), (''tail'', GObj [(''head'', GInt 2), (''tail'', GNil), (''x'', GNil)])]"
  have "grounded_doc list_schema" "validate_fuel list_schema ?v \<le> 100"
    "conform 100 (n_defs list_schema) (Some list_schema) ?v =
       Inr (GObj [(''head'', GInt 1), (''tail'', GObj [(''head'', GInt 2), (''tail'', GNil)])])"
    by code_simp+
  with validation_returns [of list_schema ?v 100] show ?thesis by simp
qed

subsection \<open>What an accepted value looks like\<close>

text \<open>
  \<open>fits\<close> is the meaning of a schema for a normalized value: only declared properties, all required
  ones present, every constraint met, some variant of a union.
\<close>

definition length_ok :: "int option \<Rightarrow> int option \<Rightarrow> int \<Rightarrow> bool" where
  "length_ok lo hi n \<longleftrightarrow> (case lo of None \<Rightarrow> True | Some m \<Rightarrow> m \<le> n) \<and> (case hi of None \<Rightarrow> True | Some m \<Rightarrow> n \<le> m)"

definition declared :: "node \<Rightarrow> string \<Rightarrow> node option \<Rightarrow> bool" where
  "declared r k p \<longleftrightarrow> (k, p) \<in> set (entries_of (n_properties r))"

inductive fits :: "node_defs \<Rightarrow> node option \<Rightarrow> gval \<Rightarrow> bool" for defs where
  nothing: "fits defs None v"
| unconstrained: "deref s defs = Inr r \<Longrightarrow> is_empty_schema r \<Longrightarrow> fits defs (Some s) v"
| variant: "deref s defs = Inr r \<Longrightarrow> b \<in> set (branches r) \<Longrightarrow> fits defs b v \<Longrightarrow> fits defs (Some s) v"
| scalar: "deref s defs = Inr r \<Longrightarrow> branches r = [] \<Longrightarrow> check_type r v \<Longrightarrow> enum_ok r v \<Longrightarrow> check_scalar r v = None \<Longrightarrow>
    (\<forall>m. v \<noteq> GObj m) \<Longrightarrow> (\<forall>vs. v \<noteq> GArr vs) \<Longrightarrow> fits defs (Some s) v"
| object: "deref s defs = Inr r \<Longrightarrow> branches r = [] \<Longrightarrow> check_type r (GObj m) \<Longrightarrow>
    (\<forall>k v. (k, v) \<in> set m \<longrightarrow> (\<exists>p. declared r k p \<and> fits defs p v)) \<Longrightarrow>
    (\<forall>k p. declared r k p \<longrightarrow> is_required r k \<longrightarrow> k \<in> fst ` set m) \<Longrightarrow> fits defs (Some s) (GObj m)"
| any_object: "deref s defs = Inr r \<Longrightarrow> branches r = [] \<Longrightarrow> check_type r (GObj m) \<Longrightarrow> \<not> is_object_schema r \<Longrightarrow>
    fits defs (Some s) (GObj m)"
| array: "deref s defs = Inr r \<Longrightarrow> branches r = [] \<Longrightarrow> check_type r (GArr vs) \<Longrightarrow>
    length_ok (n_min_items r) (n_max_items r) (int (length vs)) \<Longrightarrow>
    (\<forall>v \<in> set vs. fits defs (n_items r) v) \<Longrightarrow> fits defs (Some s) (GArr vs)"
| any_array: "deref s defs = Inr r \<Longrightarrow> branches r = [] \<Longrightarrow> check_type r (GArr vs) \<Longrightarrow> n_items r = None \<Longrightarrow> ''array'' \<notin> set (n_type r)
    \<Longrightarrow> fits defs (Some s) (GArr vs)"

text \<open>The defaults a document gives to absent properties are values of those properties.\<close>

definition defaults_fit :: "node_defs \<Rightarrow> node \<Rightarrow> bool" where
  "defaults_fit defs x \<longleftrightarrow> (\<forall>(k, p) \<in> set (entries_of (n_properties x)).
     prop_default p defs = GNil \<or> fits defs p (decoded (prop_default p defs)))"

lemma conform_any_Inr: "conform_any rec bs v = Inr w \<Longrightarrow> \<exists>b \<in> set bs. rec b v = Inr w"
  by (induction bs) (auto split: sum.splits if_splits)

lemma conform_one_Inr:
  "conform_one rec bs v ms = Inr w \<Longrightarrow> w \<in> set ms \<or> (\<exists>b \<in> set bs. rec b v = Inr w)"
  by (induction bs arbitrary: ms) (fastforce split: sum.splits if_splits list.splits)+

lemma traverse_set: "traverse f xs = Inr ys \<Longrightarrow> y \<in> set ys \<Longrightarrow> \<exists>x \<in> set xs. f x = Inr y"
  by (force simp: traverse_Inr list_all2_conv_all_nth in_set_conv_nth)

lemma traverse_set2: "traverse f xs = Inr ys \<Longrightarrow> x \<in> set xs \<Longrightarrow> \<exists>y \<in> set ys. f x = Inr y"
  by (auto simp: traverse_Inr list_all2_conv_all_nth in_set_conv_nth)

lemma conform_object_fits:
  assumes "conform_object rec r defs m = Inr w" and "defaults_fit defs r"
      and "\<And>k p v x. declared r k p \<Longrightarrow> rec p v = Inr x \<Longrightarrow> fits defs p x"
  shows "\<exists>m'. w = GObj m' \<and> (\<forall>k v. (k, v) \<in> set m' \<longrightarrow> (\<exists>p. declared r k p \<and> fits defs p v))
           \<and> (\<forall>k p. declared r k p \<longrightarrow> is_required r k \<longrightarrow> k \<in> fst ` set m')"
proof -
  from assms(1) obtain parts where parts:
    "traverse (conform_property rec r defs m) (entries_of (n_properties r)) = Inr parts" "w = GObj (concat parts)"
    by (auto simp: conform_object_def and_then_eq_Inr)
  have 1: "\<exists>p. declared r k p \<and> fits defs p v" if kv: "(k, v) \<in> set (concat parts)" for k v
  proof -
    from kv obtain part where "part \<in> set parts" and in_part: "(k, v) \<in> set part" by auto
    from traverse_set [OF parts(1) this(1)] obtain k' p where
      p: "(k', p) \<in> set (entries_of (n_properties r))" "conform_property rec r defs m (k', p) = Inr part" by auto
    have d: "declared r k' p" using p(1) by (simp add: declared_def)
    have "k = k' \<and> fits defs p v"
    proof (cases "map_of m k'")
      case None
      with p(2) in_part have "k = k'" "v = decoded (prop_default p defs)" "prop_default p defs \<noteq> GNil"
        by (auto simp: conform_property_def split: if_splits)
      with assms(2) p(1) show ?thesis by (auto simp: defaults_fit_def)
    next
      case (Some u)
      with p(2) in_part have "k = k'" "rec p u = Inr v"
        by (auto simp: conform_property_def and_then_eq_Inr)
      with assms(3) [OF d] show ?thesis by simp
    qed
    with d show ?thesis by auto
  qed
  have 2: "k \<in> fst ` set (concat parts)" if d: "declared r k p" and rq: "is_required r k" for k p
  proof -
    from traverse_set2 [OF parts(1)] d obtain part where
      part: "part \<in> set parts" "conform_property rec r defs m (k, p) = Inr part"
      by (auto simp: declared_def)
    with rq obtain x where "part = [(k, x)]"
      by (auto simp: conform_property_def and_then_eq_Inr split: option.splits)
    with part(1) show ?thesis by force
  qed
  from 1 2 parts(2) show ?thesis by blast
qed

lemma value_has_type_kind:
  "value_has_type (GObj m) = value_has_type (GObj m')"
  "value_has_type (GArr vs) = value_has_type (GArr vs')"
  by (rule ext, simp add: value_has_type_def as_float_def is_integral_def)+

lemma check_type_kind:
  "check_type r (GObj m) = check_type r (GObj m')"
  "check_type r (GArr vs) = check_type r (GArr vs')"
  by (simp_all only: check_type_def value_has_type_kind(1) [of m m'] value_has_type_kind(2) [of vs vs'])

lemma conform_plain_fits:
  assumes w: "conform_plain rec r defs v = Inr w" and d: "deref s defs = Inr r" and df: "defaults_fit defs r"
      and nb: "branches r = []"
      and rec: "\<And>p v x. (\<exists>k. declared r k p) \<or> p = n_items r \<Longrightarrow> rec p v = Inr x \<Longrightarrow> fits defs p x"
  shows "fits defs (Some s) w"
proof (cases v)
  case (GObj m)
  show ?thesis
  proof (cases "is_object_schema r")
    case True
    with w GObj have c: "check_type r (GObj m)" "conform_object rec r defs m = Inr w"
      by (simp_all add: conform_plain_def split: if_split_asm)
    from conform_object_fits [OF c(2) df] rec obtain m' where
      m': "w = GObj m'" "\<forall>k v. (k, v) \<in> set m' \<longrightarrow> (\<exists>p. declared r k p \<and> fits defs p v)"
       "\<forall>k p. declared r k p \<longrightarrow> is_required r k \<longrightarrow> k \<in> fst ` set m'" by blast
    have "check_type r (GObj m')" using c(1) check_type_kind(1) by metis
    from fits.object [OF d nb this m'(2,3)] m'(1) show ?thesis by simp
  next
    case False
    with w GObj have "check_type r (GObj m)" "w = GObj m" by (simp_all add: conform_plain_def split: if_split_asm)
    with fits.any_object [OF d nb _ False] show ?thesis by simp
  qed
next
  case (GArr vs)
  show ?thesis
  proof (cases "n_items r \<noteq> None \<or> ''array'' \<in> set (n_type r)")
    case True
    with w GArr have c: "check_type r (GArr vs)" "conform_array rec r vs = Inr w"
      by (simp_all add: conform_plain_def split: if_split_asm)
    then obtain xs where xs: "w = GArr xs" "traverse (rec (n_items r)) vs = Inr xs"
        "length_ok (n_min_items r) (n_max_items r) (int (length vs))"
      by (auto simp: conform_array_def and_then_eq_Inr length_ok_def split: if_splits option.splits)
    have "length xs = length vs" using xs(2) by (simp add: traverse_Inr list_all2_lengthD)
    moreover have "\<forall>x \<in> set xs. fits defs (n_items r) x" using traverse_set [OF xs(2)] rec by blast
    moreover have "check_type r (GArr xs)" using c(1) check_type_kind(2) by metis
    ultimately show ?thesis using fits.array [OF d nb, of xs] xs(1,3) by simp
  next
    case False
    with w GArr have "check_type r (GArr vs)" "w = GArr vs" by (simp_all add: conform_plain_def split: if_split_asm)
    with fits.any_array [OF d nb] False show ?thesis by simp
  qed
qed (use w fits.scalar [OF d nb] in \<open>auto simp: conform_plain_def check_scalar_def as_float_def split: if_split_asm option.split_asm\<close>)

lemma conform_fits:
  assumes defs: "defs = n_defs s" and df: "\<forall>x \<in> set (subnodes s). defaults_fit defs x"
  shows "in_doc s p \<Longrightarrow> conform n defs p v = Inr w \<Longrightarrow> fits defs p w"
proof (induction n arbitrary: p v w)
  case (Suc n)
  show ?case
  proof (cases p)
    case None
    show ?thesis unfolding None by (rule fits.nothing)
  next
    case (Some x)
    with Suc.prems obtain r where r: "deref x defs = Inr r" "conform_resolved (conform n defs) r defs v = Inr w"
      by (auto simp: and_then_eq_Inr)
    have rs: "r \<in> set (subnodes s)" using deref_in_doc r(1) Suc.prems(1) Some defs by (auto simp: in_doc_def)
    from r(2) consider "is_empty_schema r"
      | b where "b \<in> set (branches r)" "conform n defs b v = Inr w"
      | "branches r = []" "conform_plain (conform n defs) r defs v = Inr w"
      by (auto simp: conform_resolved_def branches_def split: if_splits dest!: conform_any_Inr conform_one_Inr)
    then show ?thesis
    proof cases
      case 1
      with r(1) Some show ?thesis by (simp add: fits.unconstrained)
    next
      case 2
      with Suc.IH in_doc_child(3) [OF rs] have "fits defs b w" by blast
      with fits.variant [OF r(1) 2(1)] Some show ?thesis by simp
    next
      case 3
      have "fits defs q y" if "(\<exists>k. declared r k q) \<or> q = n_items r" and "conform n defs q u = Inr y" for q u y
        using that in_doc_child(1,2) [OF rs] Suc.IH by (auto simp: declared_def)
      from conform_plain_fits [OF 3(2) r(1) _ 3(1) this] df rs Some show ?thesis by simp
    qed
  qed
qed simp

text \<open>
  C18: What validation lets through. Assume that every default a document gives to an absent property
  is a value of that property. Then an accepted value, in its normalized form, fits the document:
  its objects hold declared properties only and all the required ones, at every level, and every
  type, bound, length and enum constraint met on the way holds of the result. The assumption is
  needed, as defaults are filled in unchecked: \<open>unchecked_default\<close> below is a document whose default
  does not fit, and reaches the result.
\<close>

theorem validated_value_fits:
  assumes "\<forall>x \<in> set (subnodes s). defaults_fit (n_defs s) x" and "validate s v = Inr w"
  shows "fits (n_defs s) (Some s) w"
  using assms conform_fits [OF refl assms(1), of "Some s"] by (simp add: validate_def in_doc_def subnodes_self)

theorem validated_value_fits_witness:
  "fits (n_defs list_schema) (Some list_schema) (GObj [(''head'', GInt 1), (''tail'', GNil)])"
proof -
  have "list_all (\<lambda>x. list_all (\<lambda>(k, p). prop_default p (n_defs list_schema) = GNil) (entries_of (n_properties x)))
          (subnodes list_schema)"
    "validate list_schema (GObj [(''head'', GInt 1), (''tail'', GNil), (''extra'', GBool True)])
       = Inr (GObj [(''head'', GInt 1), (''tail'', GNil)])"
    by code_simp+
  with validated_value_fits [of list_schema] show ?thesis
    by (force simp: list_all_iff defaults_fit_def)
qed

text \<open>The defaults themselves are not checked: an invalid one reaches the result.\<close>

lemma unchecked_default:
  "validate (Node [''object''] (Some [(''n'', Some (Node [''integer''] None None None None None None None None None
       None None None None [] None [] [] (GStr ''many'') False))]) None None None None None None None None None None None None
       [] None [] [] GNil False) (GObj []) = Inr (GObj [(''n'', GStr ''many'')])"
  by code_simp

end
