(* ===== verification/LikeMatch.thy ===== *)
theory LikeMatch
  imports GoStrings
begin

section \<open>Error-code patterns (\<open>internal/model/definition.go\<close>, \<open>internal/transport/transport.go\<close>)\<close>

text \<open>
  On-error rules name error codes by SQL LIKE patterns. The matcher is written out twice in
  the repository, once for validation (\<open>sqlLikeMatch\<close>) and once for the engine
  (\<open>transport.SQLLikeMatch\<close>), line for line the same; both are translated. The loop over the
  suffixes of the subject after a \<open>%\<close> is \<open>like_any\<close>.
\<close>

fun sql_like_match :: "string \<Rightarrow> string \<Rightarrow> bool" and like_any :: "string \<Rightarrow> string \<Rightarrow> bool" where
  "sql_like_match [] s = (s = [])"
| "sql_like_match (c # p) s =
     (if c = CHR ''%'' then (if p = [] then True else like_any p s)
      else if c = CHR ''_'' then (case s of [] \<Rightarrow> False | _ # s' \<Rightarrow> sql_like_match p s')
      else (case s of [] \<Rightarrow> False | d # s' \<Rightarrow> if c \<noteq> d then False else sql_like_match p s'))"
| "like_any p s =
     (if sql_like_match p s then True
      else (case s of [] \<Rightarrow> False | _ # s' \<Rightarrow> like_any p s'))"

fun transport_like_match :: "string \<Rightarrow> string \<Rightarrow> bool"
  and transport_like_any :: "string \<Rightarrow> string \<Rightarrow> bool" where
  "transport_like_match [] s = (s = [])"
| "transport_like_match (c # p) s =
     (if c = CHR ''%'' then (if p = [] then True else transport_like_any p s)
      else if c = CHR ''_'' then (case s of [] \<Rightarrow> False | _ # s' \<Rightarrow> transport_like_match p s')
      else (case s of [] \<Rightarrow> False | d # s' \<Rightarrow> if c \<noteq> d then False else transport_like_match p s'))"
| "transport_like_any p s =
     (if transport_like_match p s then True
      else (case s of [] \<Rightarrow> False | _ # s' \<Rightarrow> transport_like_any p s'))"

declare like_any.simps [simp del] transport_like_any.simps [simp del]

text \<open>\<open>validLikePattern\<close>: something is left after \<open>strings.TrimSpace\<close>.\<close>

definition valid_like_pattern :: "string \<Rightarrow> bool" where
  "valid_like_pattern p \<longleftrightarrow> trim_space p \<noteq> []"

text \<open>\<open>patternOnlyMatchesPre\<close>: the constant prefix before the first wildcard starts with \<open>pre.\<close>.\<close>

fun literal_prefix :: "string \<Rightarrow> string" where
  "literal_prefix [] = []"
| "literal_prefix (c # p) = (if c = CHR ''%'' \<or> c = CHR ''_'' then [] else c # literal_prefix p)"

definition pattern_only_matches_pre :: "string \<Rightarrow> bool" where
  "pattern_only_matches_pre p \<longleftrightarrow> prefix_of ''pre.'' (literal_prefix p)"

subsection \<open>What a pattern means\<close>

text \<open>
  The contract of a LIKE pattern: a subject is in its language when it splits into one part
  for each pattern character, any text for \<open>%\<close>, one character for \<open>_\<close> and the character
  itself otherwise.
\<close>

inductive like_lang :: "string \<Rightarrow> string \<Rightarrow> bool" where
  like_nil: "like_lang [] []"
| like_percent: "like_lang p s \<Longrightarrow> like_lang (CHR ''%'' # p) (t @ s)"
| like_underscore: "like_lang p s \<Longrightarrow> like_lang (CHR ''_'' # p) (c # s)"
| like_char: "like_lang p s \<Longrightarrow> c \<noteq> CHR ''%'' \<Longrightarrow> c \<noteq> CHR ''_'' \<Longrightarrow> like_lang (c # p) (c # s)"

inductive_cases like_nilE: "like_lang [] s"
inductive_cases like_consE: "like_lang (c # p) s"

lemma like_any_iff: "like_any p s \<longleftrightarrow> (\<exists>t u. s = t @ u \<and> sql_like_match p u)"
proof (induction s)
  case Nil
  then show ?case by (simp add: like_any.simps)
next
  case (Cons c s)
  have "(\<exists>t u. c # s = t @ u \<and> sql_like_match p u) \<longleftrightarrow>
      sql_like_match p (c # s) \<or> (\<exists>t u. s = t @ u \<and> sql_like_match p u)"
    by (auto simp: Cons_eq_append_conv)
  with Cons.IH show ?case by (auto simp: like_any.simps [of p "c # s"])
qed

lemma like_lang_percent_all: "like_lang ''%'' s"
  using like_percent [OF like_nil, of s] by simp

lemma sql_like_match_sound: "sql_like_match p s \<Longrightarrow> like_lang p s"
proof (induction p arbitrary: s)
  case Nil
  then show ?case by (simp add: like_nil)
next
  case (Cons c p)
  show ?case
  proof (cases "c = CHR ''%''")
    case True
    show ?thesis
    proof (cases p)
      case Nil
      with True show ?thesis by (simp add: like_lang_percent_all)
    next
      case (Cons d q)
      with True Cons.prems obtain t u where "s = t @ u" "sql_like_match p u"
        by (auto simp: like_any_iff)
      with Cons.IH True show ?thesis by (auto intro: like_percent)
    qed
  next
    case False
    with Cons.prems Cons.IH show ?thesis
      by (auto split: list.splits if_splits intro: like_underscore like_char)
  qed
qed

lemma sql_like_match_complete: "like_lang p s \<Longrightarrow> sql_like_match p s"
proof (induction rule: like_lang.induct)
  case (like_percent p s t)
  then show ?case by (auto simp: like_any_iff)
qed auto

lemma sql_like_match_iff_language: "sql_like_match p s \<longleftrightarrow> like_lang p s"
  using sql_like_match_sound sql_like_match_complete by blast

lemma like_copies_agree: "transport_like_match p s = sql_like_match p s"
proof -
  have "transport_like_match p s = sql_like_match p s" and "transport_like_any q t = like_any q t"
    for p s q t
  proof (induction p s and q t rule: transport_like_match_transport_like_any.induct)
    case (3 p s)
    then show ?case
      by (cases s) (simp_all add: like_any.simps [of p "[]"] transport_like_any.simps [of p "[]"]
        like_any.simps [of p "_ # _"] transport_like_any.simps [of p "_ # _"])
  qed (auto split: list.splits)
  then show ?thesis by blast
qed

text \<open>
  C25: both copies of the matcher, the validator's and the engine's, decide exactly the
  language of the pattern: \<open>%\<close> matches any text, \<open>_\<close> exactly one character and every other
  character itself. In particular a rule is validated against the codes it will match.
\<close>

theorem like_matchers_decide_language:
  "(sql_like_match p s \<longleftrightarrow> like_lang p s) \<and> (transport_like_match p s \<longleftrightarrow> like_lang p s)"
  by (simp add: sql_like_match_iff_language like_copies_agree)

text \<open>The safety of the \<open>pre.\<close> test: nothing outside the namespace matches.\<close>

lemma like_lang_literal_prefix: "like_lang p s \<Longrightarrow> prefix_of (literal_prefix p) s"
  by (induction rule: like_lang.induct) auto

lemma prefix_of_trans: "prefix_of xs ys \<Longrightarrow> prefix_of ys zs \<Longrightarrow> prefix_of xs zs"
  by (auto simp: prefix_of_append)

text \<open>A pattern matches itself with a plain letter for every wildcard.\<close>

definition fill_wildcards :: "string \<Rightarrow> string" where
  "fill_wildcards = map (\<lambda>c. if c = CHR ''%'' \<or> c = CHR ''_'' then CHR ''x'' else c)"

lemma like_lang_fill: "like_lang p (fill_wildcards p)"
proof (induction p)
  case (Cons c p)
  then show ?case
    using like_percent [OF Cons, of "''x''"]
    by (auto simp: fill_wildcards_def intro: like_underscore like_char)
qed (simp add: fill_wildcards_def like_nil)

lemma prefix_fill_literal:
  assumes "prefix_of q (fill_wildcards p)" and "CHR ''x'' \<notin> set q"
  shows "prefix_of q (literal_prefix p)"
  using assms
proof (induction q p rule: prefix_of.induct)
  case (3 x xs y ys)
  then show ?case by (auto simp: fill_wildcards_def split: if_splits)
qed (auto simp: fill_wildcards_def)

text \<open>
  C26: \<open>patternOnlyMatchesPre\<close> is exact: it accepts a pattern if and only if every code the
  engine's matcher lets through lies in the \<open>pre.\<close> namespace, the codes that mean the remote
  call was never reached.
\<close>

theorem pre_pattern_exact:
  "pattern_only_matches_pre p \<longleftrightarrow> (\<forall>code. transport_like_match p code \<longrightarrow> prefix_of ''pre.'' code)"
    (is "?lhs \<longleftrightarrow> ?rhs")
proof
  assume ?lhs
  then show ?rhs
    using like_lang_literal_prefix
    by (auto simp: like_copies_agree sql_like_match_iff_language pattern_only_matches_pre_def
        intro: prefix_of_trans)
next
  assume ?rhs
  moreover have "transport_like_match p (fill_wildcards p)"
    by (simp add: like_copies_agree sql_like_match_iff_language like_lang_fill)
  ultimately have "prefix_of ''pre.'' (fill_wildcards p)" by blast
  then show ?lhs
    unfolding pattern_only_matches_pre_def by (rule prefix_fill_literal) simp
qed

theorem pre_pattern_exact_witness:
  "transport_like_match ''pre.%'' ''pre.timeout'' \<and> prefix_of ''pre.'' ''pre.timeout''
     \<and> \<not> pattern_only_matches_pre ''p%''"
proof -
  have m: "transport_like_match ''pre.%'' ''pre.timeout''" by simp
  moreover have "pattern_only_matches_pre ''pre.%''" by (simp add: pattern_only_matches_pre_def)
  then have "prefix_of ''pre.'' ''pre.timeout''"
    using pre_pattern_exact [of "''pre.%''"] m by blast
  ultimately show ?thesis by (simp add: pattern_only_matches_pre_def)
qed

end
