(* ===== verification/Transport.thy ===== *)
theory Transport
  imports LikeMatch
begin

section \<open>REST transport (\<open>internal/transport/transport.go\<close>)\<close>

text \<open>
  The pure half of the transport: which statuses count as success, which error code a failed
  call gets, the classification of Go errors and the retry backoff. The exchange itself is
  the HTTP client's: its outcome is an argument (\<open>http_outcome\<close>): either a Go error or a
  status with the first bytes of the body and what decoding the body as JSON gives.
\<close>

subsection \<open>Accepted statuses\<close>

text \<open>\<open>int(p[0]-'0') * 100\<close>: the subtraction is on a byte and wraps.\<close>

definition hundreds_of :: "char \<Rightarrow> int" where
  "hundreds_of c = int ((of_char c + 208) mod 256) * 100"

definition status_matches :: "int \<Rightarrow> string \<Rightarrow> bool" where
  "status_matches code p =
     (if length p = 3 \<and> p ! 1 = CHR ''x'' \<and> p ! 2 = CHR ''x''
      then hundreds_of (p ! 0) \<le> code \<and> code \<le> hundreds_of (p ! 0) + 99
      else parse_int64 p = Some code)"

definition match_accepted_status :: "int \<Rightarrow> string list \<Rightarrow> bool" where
  "match_accepted_status code patterns =
     (if patterns = [] then 200 \<le> code \<and> code \<le> 299
      else list_ex (status_matches code) patterns)"

text \<open>\<open>validAcceptedStatusPattern\<close> of \<open>internal/model/definition.go\<close>.\<close>

definition valid_accepted_status_pattern :: "string \<Rightarrow> bool" where
  "valid_accepted_status_pattern p =
     (if length p = 3 \<and> p ! 1 = CHR ''x'' \<and> p ! 2 = CHR ''x''
         \<and> (49 :: nat) \<le> of_char (p ! 0) \<and> of_char (p ! 0) \<le> (53 :: nat) then True
      else if length p = 3 then list_all is_digit p
      else False)"

subsection \<open>Errors\<close>

text \<open>
  What \<open>ClassifyGoError\<close> asks of a Go error: is a deadline or a cancellation in its chain, and
  the \<open>Op\<close> of a \<open>net.OpError\<close> in its chain.
\<close>

record go_error =
  deadline_exceeded :: bool
  canceled :: bool
  op_error :: "string option"
  err_text :: string

definition classify_go_error :: "go_error \<Rightarrow> string" where
  "classify_go_error e =
     (if deadline_exceeded e \<or> canceled e
      then (if op_error e = Some ''dial'' then ''pre.timeout'' else ''http.timeout'')
      else ''pre.error'')"

datatype 'v http_outcome =
    HttpError go_error
  | HttpResponse (http_status: int) (http_body_head: string) (http_json: "'v option")

record 'v response =
  resp_body :: "'v option"
  resp_error_code :: string
  resp_error_message :: string
  resp_status :: int

definition send_http :: "'v http_outcome \<Rightarrow> string list \<Rightarrow> go_error + 'v response" where
  "send_http out accepted =
     (case out of
        HttpError e \<Rightarrow> Inl e
      | HttpResponse st head json \<Rightarrow>
          if \<not> match_accepted_status st accepted then
            (let msg = trim_space head
             in Inr \<lparr>resp_body = None, resp_error_code = ''http.'' @ dec_int st,
                  resp_error_message =
                    (if msg = [] then ''request failed with status '' @ dec_int st @ '' without response body''
                     else msg),
                  resp_status = st\<rparr>)
          else (case json of
                  None \<Rightarrow> Inr \<lparr>resp_body = None, resp_error_code = ''output.parse'',
                            resp_error_message = [], resp_status = st\<rparr>
                | Some b \<Rightarrow> Inr \<lparr>resp_body = Some b, resp_error_code = [],
                            resp_error_message = [], resp_status = st\<rparr>))"

subsection \<open>Backoff\<close>

text \<open>
  \<open>RetryDelay\<close> in nanoseconds: \<open>time.Duration(1<<uint(attempt)) * time.Second\<close> is a signed
  64-bit product that wraps, and only then is it capped at five minutes.
\<close>

definition second_ns :: "64 word" where
  "second_ns = 1000000000"

definition five_minutes :: int where
  "five_minutes = 300000000000"

definition retry_delay :: "nat \<Rightarrow> int" where
  "retry_delay attempt =
     (let d = sint ((push_bit attempt 1 :: 64 word) * second_ns)
      in if five_minutes < d then five_minutes else d)"

lemma sint_small_product:
  assumes "k < 2 ^ 63" and "0 \<le> k"
  shows "sint (word_of_int k :: 64 word) = k"
  using assms
  by (simp add: signed_take_bit_int_eq_self_iff sint_sbintrunc')

text \<open>Before the cap, the delay is the low 64 bits of \<open>2^attempt\<close> seconds, read as signed.\<close>

lemma retry_delay_eq:
  "retry_delay n = min (sint (word_of_int (2 ^ n * 1000000000) :: 64 word)) five_minutes"
proof -
  have "(push_bit n 1 :: 64 word) * second_ns = word_of_int (2 ^ n * 1000000000)"
    by (simp add: push_bit_eq_mult second_ns_def)
  then show ?thesis by (simp add: retry_delay_def Let_def min_def)
qed

text \<open>
  C30: for the first 33 attempts the backoff is exponential from one second and capped at five
  minutes: \<open>min (2^attempt s) (5 min)\<close>.
\<close>

theorem retry_delay_exponential:
  assumes "attempt < 33"
  shows "retry_delay attempt = min (2 ^ attempt * 1000000000) five_minutes"
proof -
  have "(2 :: int) ^ attempt \<le> 2 ^ 32" using assms by (intro power_increasing) simp_all
  then have "sint (word_of_int (2 ^ attempt * 1000000000) :: 64 word) = 2 ^ attempt * 1000000000"
    by (intro sint_small_product) simp_all
  then show ?thesis by (simp only: retry_delay_eq)
qed

theorem retry_delay_exponential_witness:
  "retry_delay 4 = 16000000000 \<and> retry_delay 12 = 300000000000"
  using retry_delay_exponential [of 4] retry_delay_exponential [of 12]
  by (simp add: five_minutes_def)

lemma retry_delay_34: "retry_delay 34 < 0"
proof -
  have "sint (17179869184000000000 :: 64 word) < 0" by simp
  then show ?thesis by (simp add: retry_delay_eq min_less_iff_disj)
qed

lemma word_64_of_multiple: "(word_of_int (2 ^ 64 * k) :: 64 word) = 0"
  by (simp only: word_of_int_eq_0_iff) simp

text \<open>
  C31: past that the shift and the product overflow before the cap is applied: attempt 34
  gives a negative delay (an immediate retry), and every attempt from 55 on gives no delay.
\<close>

theorem retry_delay_overflows:
  "retry_delay 34 < 0 \<and> retry_delay (55 + n) = 0"
proof -
  have "(2 :: int) ^ (55 + n) * 1000000000 = 2 ^ 64 * (2 ^ n * 1953125)"
    by (simp add: power_add)
  then have "retry_delay (55 + n) = 0"
    by (simp only: retry_delay_eq word_64_of_multiple) (simp add: five_minutes_def)
  then show ?thesis using retry_delay_34 by simp
qed

end
