(* ===== verification/Definition.thy ===== *)
theory Definition
  imports Model SchemaValidate Transport LikeMatch
begin

section \<open>Validation and configuration of definitions (\<open>internal/model/definition.go\<close>)\<close>

text \<open>
  The static checks a definition passes before it is stored, the wire form of its routing rules,
  and the resolution of its configuration from the environment. Errors keep what was wrong, not
  the message text. Where the code ranges over a Go map the order of the checks is not fixed; the
  model follows the list.
\<close>

datatype definition_error =
    FieldRequired string
  | BadSchema string schema_error
  | ConfigNotObject
  | ConfigCombinators
  | ConfigUnknownRequired string
  | ConfigBadName string
  | ConfigNameClash string string
  | ConfigBadType string
  | ConfigNotPrimitive string
  | ConfigRequiredDefault string
  | ReservedTaskId string
  | ActionFieldMissing string string
  | BadActionType string
  | SwitchMissing string
  | CatchAllNotLast string nat
  | NextOnLast string
  | UnknownTarget string string
  | BadTarget string string
  | NoCatchAll string
  | EmptyPattern string nat
  | CatchesChildFailed string nat
  | CatchAllRuleNotLast string nat
  | OnlyOnceCatchAll string nat
  | OnlyOncePattern string nat string
  | BadAcceptedStatus string string
  | ConfigMissing string
  | ConfigBadValue string
  | ConfigInvalid schema_error

subsection \<open>The wire form of routing rules\<close>

text \<open>A decoded JSON value of a \<open>switch\<close>: absent, a scalar, or a list of \<open>(case, goto)\<close> pairs.\<close>

datatype wire_switch = WireNull | WireScalar string | WireCases "(string \<times> string) list"

definition valid_target :: "string \<Rightarrow> bool" where
  "valid_target g \<longleftrightarrow> g = goto_end \<or> g = goto_next \<or> prefix_of ''$'' g"

definition marshal_switch :: "switch_case list \<Rightarrow> wire_switch" where
  "marshal_switch cs = WireCases (map (\<lambda>c. (case_when c, case_goto c)) cs)"

definition unmarshal_switch :: "wire_switch \<Rightarrow> definition_error + switch_case list" where
  "unmarshal_switch w =
     (case w of
        WireNull \<Rightarrow> Inr []
      | WireScalar v \<Rightarrow>
          if \<not> valid_target v then Inl (BadTarget [] v)
          else Inr [\<lparr>case_when = [], case_goto = v\<rparr>]
      | WireCases items \<Rightarrow>
          traverse (\<lambda>(c, g).
            if g = [] then Inl (FieldRequired ''goto'')
            else if \<not> valid_target g then Inl (BadTarget [] g)
            else Inr \<lparr>case_when = c, case_goto = g\<rparr>) items)"

definition marshal_goto :: "string \<Rightarrow> string" where
  "marshal_goto g = (if g = [] then [] else if g = goto_end then ''end'' else ''$'' @ g)"

definition unmarshal_goto :: "string \<Rightarrow> definition_error + string" where
  "unmarshal_goto w =
     (if w = [] then Inr []
      else if w = ''end'' then Inr goto_end
      else if prefix_of ''$'' w then Inr (drop 1 w)
      else Inl (BadTarget [] w))"

text \<open>\<open>checkShape\<close> and \<open>Shape.Strings\<close>.\<close>

fun check_shape :: "gval \<Rightarrow> bool" where
  "check_shape (GStr s) = True"
| "check_shape (GObj kvs) = list_all (\<lambda>(k, v). check_shape v) kvs"
| "check_shape v = False"

fun shape_leaves :: "gval \<Rightarrow> string list" where
  "shape_leaves (GStr s) = [s]"
| "shape_leaves (GObj kvs) = concat (map (\<lambda>(k, v). shape_leaves v) kvs)"
| "shape_leaves v = []"

definition shape_strings :: "gval option \<Rightarrow> string list" where
  "shape_strings s = (case s of None \<Rightarrow> [] | Some v \<Rightarrow> shape_leaves v)"

subsection \<open>Checks of one task\<close>

definition check_schema_doc :: "string \<Rightarrow> node option \<Rightarrow> definition_error option" where
  "check_schema_doc field s = map_option (BadSchema field) (check_doc_root s)"

definition action_error :: "string \<Rightarrow> action \<Rightarrow> definition_error option" where
  "action_error i a =
     (case act_type a of
        Rest \<Rightarrow> if act_endpoint a = [] then Some (ActionFieldMissing i ''endpoint'') else None
      | Child \<Rightarrow> if act_name a = [] then Some (ActionFieldMissing i ''name'') else None
      | ChildParallel \<Rightarrow>
          if act_children a = [] then Some (ActionFieldMissing i ''children'')
          else first_some (\<lambda>(k, e). if ce_name e = [] then Some (ActionFieldMissing i k) else None) (act_children a)
      | Delay \<Rightarrow> if act_ms a = [] then Some (ActionFieldMissing i ''ms'') else None
      | ExternalTask \<Rightarrow> None
      | OtherAction t \<Rightarrow> Some (BadActionType i))"

text \<open>One case of the switch at position \<open>k\<close> of \<open>n\<close>.\<close>

definition switch_case_error :: "string \<Rightarrow> string list \<Rightarrow> bool \<Rightarrow> nat \<Rightarrow> nat \<times> switch_case \<Rightarrow> definition_error option" where
  "switch_case_error i ids last_task n = (\<lambda>(k, c).
     if case_when c = [] \<and> k \<noteq> n - 1 then Some (CatchAllNotLast i k)
     else if case_goto c = goto_end then None
     else if case_goto c = goto_next then (if last_task then Some (NextOnLast i) else None)
     else if prefix_of ''$'' (case_goto c) then
       (if drop 1 (case_goto c) \<in> set ids then None else Some (UnknownTarget i (case_goto c)))
     else Some (BadTarget i (case_goto c)))"

definition switch_error :: "string \<Rightarrow> string list \<Rightarrow> bool \<Rightarrow> switch_case list \<Rightarrow> definition_error option" where
  "switch_error i ids last_task cs =
     (if cs = [] then Some (SwitchMissing i)
      else or_else (first_some (switch_case_error i ids last_task (length cs)) (enumerate 0 cs))
             (if case_when (last cs) \<noteq> [] then Some (NoCatchAll i) else None))"

definition is_true :: "bool option \<Rightarrow> bool" where
  "is_true b \<longleftrightarrow> b = Some True"

definition error_case_error :: "string \<Rightarrow> string list \<Rightarrow> bool \<Rightarrow> nat \<Rightarrow> nat \<times> error_case \<Rightarrow> definition_error option" where
  "error_case_error i ids only_once n = (\<lambda>(k, ec).
     or_else (first_some (\<lambda>p. if \<not> valid_like_pattern p then Some (EmptyPattern i k)
                             else if sql_like_match p ''child.failed'' then Some (CatchesChildFailed i k)
                             else None) (err_codes ec))
     (if err_codes ec = [] \<and> k \<noteq> n - 1 then Some (CatchAllRuleNotLast i k)
      else if err_goto ec \<noteq> [] \<and> err_goto ec \<noteq> goto_end \<and> err_goto ec \<notin> set ids
        then Some (UnknownTarget i (err_goto ec))
      else if only_once \<and> 0 < err_retries ec \<and> \<not> is_true (err_not_reached ec) then
        (if err_codes ec = [] then Some (OnlyOnceCatchAll i k)
         else first_some (\<lambda>p. if \<not> pattern_only_matches_pre p then Some (OnlyOncePattern i k p) else None)
                (err_codes ec))
      else None))"

definition action_schema_error :: "string \<Rightarrow> action \<Rightarrow> definition_error option" where
  "action_schema_error i a =
     or_else (check_schema_doc i (act_result_schema a))
       (if act_type a = ChildParallel
        then first_some (\<lambda>(k, e). check_schema_doc i (ce_result_schema e)) (act_children a)
        else None)"

definition validate_task :: "task \<Rightarrow> string list \<Rightarrow> nat \<Rightarrow> nat \<Rightarrow> definition_error option" where
  "validate_task s ids idx last_idx =
     (let i = task_id s in
      if i = goto_end \<or> i = goto_next then Some (ReservedTaskId i)
      else or_else (case task_action s of None \<Rightarrow> None | Some a \<Rightarrow> action_error i a)
          (or_else (switch_error i ids (idx = last_idx) (task_switch s))
          (or_else (first_some (error_case_error i ids (is_true (task_only_once s)) (length (task_on_error s)))
                     (enumerate 0 (task_on_error s)))
          (case task_action s of
             None \<Rightarrow> None
           | Some a \<Rightarrow>
               or_else (if act_type a = Rest
                        then first_some (\<lambda>p. if \<not> valid_accepted_status_pattern p then Some (BadAcceptedStatus i p) else None)
                               (act_accepted_status a)
                        else None)
                 (action_schema_error i a)))))"

subsection \<open>The configuration schema\<close>

definition is_upper :: "char \<Rightarrow> bool" where
  "is_upper c \<longleftrightarrow> (65 :: nat) \<le> of_char c \<and> of_char c \<le> (90 :: nat)"

definition is_lower :: "char \<Rightarrow> bool" where
  "is_lower c \<longleftrightarrow> (97 :: nat) \<le> of_char c \<and> of_char c \<le> (122 :: nat)"

definition to_upper :: "char \<Rightarrow> char" where
  "to_upper c = char_of ((of_char c :: nat) - 32)"

text \<open>\<open>^[A-Za-z_][A-Za-z0-9_]*$\<close>\<close>

definition is_config_name :: "string \<Rightarrow> bool" where
  "is_config_name s =
     (case s of [] \<Rightarrow> False
      | c # cs \<Rightarrow> (is_upper c \<or> is_lower c \<or> c = CHR ''_'')
           \<and> list_all (\<lambda>d. is_upper d \<or> is_lower d \<or> is_digit d \<or> d = CHR ''_'') cs)"

text \<open>
  \<open>envToken\<close>: \<open>out\<close> is the reversed output so far, \<open>prev\<close> the previous character. A byte of a
  multi-byte character is a separator like the character itself.
\<close>

definition token_sep :: "string \<Rightarrow> string" where
  "token_sep out = (case out of [] \<Rightarrow> [] | c # cs \<Rightarrow> if c = CHR ''_'' then out else CHR ''_'' # out)"

definition camel_boundary :: "char option \<Rightarrow> string \<Rightarrow> bool" where
  "camel_boundary prev rest =
     (case prev of
        None \<Rightarrow> False
      | Some p \<Rightarrow> is_lower p \<or> is_digit p
          \<or> is_upper p \<and> (case rest of [] \<Rightarrow> False | n # _ \<Rightarrow> is_lower n))"

fun env_loop :: "char option \<Rightarrow> string \<Rightarrow> string \<Rightarrow> string" where
  "env_loop prev [] out = out"
| "env_loop prev (c # cs) out =
     env_loop (Some c) cs
       (if is_lower c then to_upper c # out
        else if is_digit c then c # out
        else if is_upper c then c # (if camel_boundary prev cs then token_sep out else out)
        else token_sep out)"

definition env_token :: "string \<Rightarrow> string" where
  "env_token s = rev (dropWhile (\<lambda>c. c = CHR ''_'') (env_loop None s []))"

definition has_combinators :: "node \<Rightarrow> bool" where
  "has_combinators s \<longleftrightarrow> variants_of (n_one_of s) \<noteq> [] \<or> variants_of (n_any_of s) \<noteq> [] \<or> variants_of (n_all_of s) \<noteq> []"

definition primitive_types :: "string list" where
  "primitive_types = [''string'', ''integer'', ''number'', ''boolean'']"

definition config_property_error :: "string list \<Rightarrow> string \<times> node option \<Rightarrow> definition_error option" where
  "config_property_error req = (\<lambda>(name, p).
     if \<not> is_config_name name then Some (ConfigBadName name)
     else case p of
       None \<Rightarrow> Some (ConfigBadType name)
     | Some nd \<Rightarrow>
         if length (n_type nd) \<noteq> 1 \<or> \<not> hd (n_type nd) \<in> set primitive_types then Some (ConfigBadType name)
         else if entries_of (n_properties nd) \<noteq> [] \<or> n_items nd \<noteq> None \<or> has_combinators nd \<or> n_ref nd \<noteq> []
           then Some (ConfigNotPrimitive name)
         else if name \<in> set req \<and> n_default nd \<noteq> GNil then Some (ConfigRequiredDefault name)
         else None)"

fun token_clash :: "string list \<Rightarrow> definition_error option" where
  "token_clash [] = None"
| "token_clash (n # ns) =
     (case find (\<lambda>m. env_token m = env_token n) ns of
        Some m \<Rightarrow> Some (ConfigNameClash n m)
      | None \<Rightarrow> token_clash ns)"

definition required_of :: "node \<Rightarrow> string list" where
  "required_of s = (case n_required s of None \<Rightarrow> [] | Some rs \<Rightarrow> rs)"

definition validate_config_schema :: "node option \<Rightarrow> definition_error option" where
  "validate_config_schema cs =
     (case cs of
        None \<Rightarrow> None
      | Some s \<Rightarrow>
          if n_type s \<noteq> [''object''] then Some ConfigNotObject
          else if has_combinators s \<or> n_ref s \<noteq> [] \<or> entries_of (n_defs s) \<noteq> [] then Some ConfigCombinators
          else (case find (\<lambda>r. r \<notin> fst ` set (entries_of (n_properties s))) (required_of s) of
                 Some r \<Rightarrow> Some (ConfigUnknownRequired r)
               | None \<Rightarrow>
                   or_else (first_some (config_property_error (required_of s)) (entries_of (n_properties s)))
                     (token_clash (map fst (entries_of (n_properties s))))))"

subsection \<open>The whole definition\<close>

text \<open>The struct tags: a name, at least one task, every task with an id.\<close>

definition tag_error :: "process_definition \<Rightarrow> definition_error option" where
  "tag_error d =
     (if def_name d = [] then Some (FieldRequired ''name'')
      else if def_tasks d = [] then Some (FieldRequired ''tasks'')
      else if list_ex (\<lambda>t. task_id t = []) (def_tasks d) then Some (FieldRequired ''id'')
      else None)"

definition validate_definition :: "process_definition \<Rightarrow> definition_error option" where
  "validate_definition d =
     (let ids = map task_id (def_tasks d) in
      or_else (tag_error d)
     (or_else (check_schema_doc ''input_schema'' (def_input_schema d))
     (or_else (check_schema_doc ''config_schema'' (def_config_schema d))
     (or_else (validate_config_schema (def_config_schema d))
       (first_some (\<lambda>(k, t). validate_task t ids k (length ids - 1)) (enumerate 0 (def_tasks d)))))))"

subsection \<open>Configuration\<close>

text \<open>
  \<open>strconv.ParseFloat(raw, 64)\<close>: a sign, then \<open>inf\<close>, \<open>infinity\<close>, \<open>nan\<close> in any case, or decimal digits with at
  most one point and an optional exponent; a value too large is an error. (Hexadecimal floats are
  not covered: they are read as an error here.)
\<close>

fun span_digits :: "string \<Rightarrow> string \<times> string" where
  "span_digits [] = ([], [])"
| "span_digits (c # cs) = (if is_digit c then (let (a, b) = span_digits cs in (c # a, b)) else ([], c # cs))"

definition lower_char :: "char \<Rightarrow> char" where
  "lower_char c = (if is_upper c then char_of ((of_char c :: nat) + 32) else c)"

definition sign_split :: "string \<Rightarrow> bool \<times> string" where
  "sign_split s =
     (case s of [] \<Rightarrow> (False, [])
      | c # cs \<Rightarrow> if c = CHR ''-'' then (True, cs) else if c = CHR ''+'' then (False, cs) else (False, s))"

definition parse_exponent :: "string \<Rightarrow> int option" where
  "parse_exponent s =
     (case s of
        [] \<Rightarrow> Some 0
      | c # cs \<Rightarrow>
          if lower_char c = CHR ''e'' then
            (let (neg, ds) = sign_split cs
             in map_option (\<lambda>n. if neg then - int n else int n) (parse_digits ds))
          else None)"

definition parse_decimal :: "string \<Rightarrow> rat option" where
  "parse_decimal s =
     (let (whole, r1) = span_digits s;
          (frac, r2) = (case r1 of [] \<Rightarrow> ([], []) | c # cs \<Rightarrow> if c = CHR ''.'' then span_digits cs else ([], r1))
      in if whole @ frac = [] then None
         else map_option (\<lambda>e. of_nat (digits_val 0 (whole @ frac)) * pow10 (e - int (length frac))) (parse_exponent r2))"

definition parse_float :: "string \<Rightarrow> f64 option" where
  "parse_float raw =
     (let (neg, body) = sign_split raw; word = map lower_char body
      in if word = ''inf'' \<or> word = ''infinity'' then Some (if neg then NegInf else PosInf)
         else if map lower_char raw = ''nan'' then Some NaN
         else case parse_decimal body of
                None \<Rightarrow> None
              | Some q \<Rightarrow> (case round64 (if neg then - q else q) of Fin f \<Rightarrow> Some (Fin f) | _ \<Rightarrow> None))"

definition parse_bool :: "string \<Rightarrow> bool option" where
  "parse_bool s =
     (if s \<in> {''1'', ''t'', ''T'', ''TRUE'', ''true'', ''True''} then Some True
      else if s \<in> {''0'', ''f'', ''F'', ''FALSE'', ''false'', ''False''} then Some False
      else None)"

definition coerce_config_value :: "string \<Rightarrow> string \<Rightarrow> string \<Rightarrow> definition_error + gval" where
  "coerce_config_value name typ raw =
     (if typ = [] \<or> typ = ''string'' then Inr (GStr raw)
      else if typ = ''integer'' then
        (case parse_int64 raw of Some n \<Rightarrow> Inr (GInt n) | None \<Rightarrow> Inl (ConfigBadValue name))
      else if typ = ''number'' then
        (case parse_float raw of Some f \<Rightarrow> Inr (GFloat f) | None \<Rightarrow> Inl (ConfigBadValue name))
      else if typ = ''boolean'' then
        (case parse_bool raw of Some b \<Rightarrow> Inr (GBool b) | None \<Rightarrow> Inl (ConfigBadValue name))
      else Inl (ConfigBadType name))"

text \<open>\<open>env\<close> is the environment; an unset variable and an empty one are the same.\<close>

definition env_lookup :: "(string \<Rightarrow> string option) \<Rightarrow> string \<Rightarrow> string \<Rightarrow> string" where
  "env_lookup env proc name =
     (case env (''GENROC_'' @ env_token proc @ ''_'' @ env_token name) of
        Some (c # cs) \<Rightarrow> c # cs
      | _ \<Rightarrow> (case env (''GENROC_GLOBAL_'' @ env_token name) of Some raw \<Rightarrow> raw | None \<Rightarrow> []))"

definition prop_type :: "node option \<Rightarrow> string" where
  "prop_type p = (case p of None \<Rightarrow> [] | Some nd \<Rightarrow> (case n_type nd of [] \<Rightarrow> [] | t # _ \<Rightarrow> t))"

definition node_default :: "node option \<Rightarrow> gval" where
  "node_default p = (case p of None \<Rightarrow> GNil | Some nd \<Rightarrow> n_default nd)"

definition config_value ::
  "(string \<Rightarrow> string option) \<Rightarrow> string \<Rightarrow> string list \<Rightarrow> string \<times> node option \<Rightarrow> definition_error + (string \<times> gval) list" where
  "config_value env proc req = (\<lambda>(name, p).
     let raw = env_lookup env proc name in
     if raw = [] then
       (if node_default p \<noteq> GNil then Inr [(name, node_default p)]
        else if name \<in> set req then Inl (ConfigMissing name)
        else Inr [])
     else and_then (coerce_config_value name (prop_type p) raw) (\<lambda>v. Inr [(name, v)]))"

definition resolve_config :: "process_definition \<Rightarrow> (string \<Rightarrow> string option) \<Rightarrow> definition_error + ctx_data" where
  "resolve_config d env =
     (case def_config_schema d of
        None \<Rightarrow> Inr []
      | Some cs \<Rightarrow>
          and_then (traverse (config_value env (def_name d) (required_of cs)) (entries_of (n_properties cs))) (\<lambda>parts.
            (case validate cs (GObj (concat parts)) of
               Inl e \<Rightarrow> Inl (ConfigInvalid e)
             | Inr _ \<Rightarrow> Inr (concat parts))))"

definition secret_string :: "gval \<Rightarrow> string" where
  "secret_string v = (case v of GStr s \<Rightarrow> s | _ \<Rightarrow> (case marshal v of Some t \<Rightarrow> t | None \<Rightarrow> []))"

text \<open>Longest first: the order in which the scrubbing replaces them.\<close>

definition longest_first :: "string list \<Rightarrow> string list" where
  "longest_first ss = rev (sort_key length ss)"

definition secret_config_values :: "process_definition \<Rightarrow> ctx_data \<Rightarrow> string list" where
  "secret_config_values d resolved =
     (case def_config_schema d of
        None \<Rightarrow> []
      | Some cs \<Rightarrow>
          longest_first (concat (map (\<lambda>(name, p).
            case p of None \<Rightarrow> []
            | Some nd \<Rightarrow>
                if \<not> is_secret nd then []
                else (case map_of resolved name of None \<Rightarrow> []
                      | Some v \<Rightarrow> if secret_string v = [] then [] else [secret_string v]))
            (entries_of (n_properties cs)))))"

subsection \<open>What validation guarantees\<close>

lemma goto_wire_roundtrip: "unmarshal_goto (marshal_goto g) = Inr g"
  by (simp add: unmarshal_goto_def marshal_goto_def goto_end_def)

lemma switch_wire_roundtrip:
  "(\<forall>c \<in> set cs. case_goto c \<noteq> [] \<and> valid_target (case_goto c)) \<Longrightarrow> unmarshal_switch (marshal_switch cs) = Inr cs"
  by (induction cs) (auto simp: unmarshal_switch_def marshal_switch_def)

lemma valid_definition_task:
  assumes "validate_definition d = None" and "k < length (def_tasks d)"
  shows "validate_task (def_tasks d ! k) (map task_id (def_tasks d)) k (length (def_tasks d) - 1) = None"
proof -
  have "(k, def_tasks d ! k) \<in> set (enumerate 0 (def_tasks d))"
    using assms(2) by (auto simp: enumerate_eq_zip in_set_zip intro!: exI [of _ k])
  with assms(1) show ?thesis by (force simp: validate_definition_def Let_def first_some_None)
qed

lemma valid_definition_tags:
  "validate_definition d = None \<Longrightarrow> def_tasks d \<noteq> [] \<and> (\<forall>t \<in> set (def_tasks d). task_id t \<noteq> [])"
  by (auto simp: validate_definition_def tag_error_def Let_def list_ex_iff split: if_splits)

text \<open>The target of a routing case of task \<open>k\<close> exists.\<close>

definition target_ok :: "process_definition \<Rightarrow> nat \<Rightarrow> string \<Rightarrow> bool" where
  "target_ok d k g \<longleftrightarrow> g = goto_end \<or> g = goto_next \<and> Suc k < length (def_tasks d)
     \<or> (\<exists>i. g = ''$'' @ i \<and> i \<in> task_id ` set (def_tasks d))"

lemma valid_switch:
  assumes "validate_definition d = None" and "k < length (def_tasks d)"
  shows "task_switch (def_tasks d ! k) \<noteq> [] \<and> case_when (last (task_switch (def_tasks d ! k))) = []
    \<and> (\<forall>c \<in> set (task_switch (def_tasks d ! k)). target_ok d k (case_goto c))"
proof -
  let ?t = "def_tasks d ! k" and ?ids = "map task_id (def_tasks d)"
  have e: "switch_error (task_id ?t) ?ids (k = length (def_tasks d) - 1) (task_switch ?t) = None"
    using valid_definition_task [OF assms] by (simp add: validate_task_def Let_def split: if_split_asm)
  then have ne: "task_switch ?t \<noteq> []" "case_when (last (task_switch ?t)) = []"
    and cs: "\<forall>kc \<in> set (enumerate 0 (task_switch ?t)).
       switch_case_error (task_id ?t) ?ids (k = length (def_tasks d) - 1) (length (task_switch ?t)) kc = None"
    by (auto simp: switch_error_def first_some_None split: if_splits)
  have "target_ok d k (case_goto c)" if "c \<in> set (task_switch ?t)" for c
  proof -
    from that obtain j where "j < length (task_switch ?t)" "task_switch ?t ! j = c" by (auto simp: in_set_conv_nth)
    then have "(j, c) \<in> set (enumerate 0 (task_switch ?t))"
      by (auto simp: enumerate_eq_zip in_set_zip intro!: exI [of _ j])
    with cs have "switch_case_error (task_id ?t) ?ids (k = length (def_tasks d) - 1) (length (task_switch ?t)) (j, c) = None"
      by blast
    then have "case_goto c = goto_end \<or> case_goto c = goto_next \<and> k \<noteq> length (def_tasks d) - 1
        \<or> prefix_of ''$'' (case_goto c) \<and> drop 1 (case_goto c) \<in> set ?ids"
      by (simp add: switch_case_error_def split: if_split_asm)
    then show ?thesis
    proof (elim disjE conjE)
      assume g: "prefix_of ''$'' (case_goto c)" "drop 1 (case_goto c) \<in> set ?ids"
      then obtain r where "case_goto c = ''$'' @ r" by (auto simp: prefix_of_append)
      with g(2) show ?thesis by (auto simp: target_ok_def)
    qed (use assms(2) in \<open>auto simp: target_ok_def\<close>)
  qed
  with ne show ?thesis by blast
qed

lemma valid_on_error:
  assumes "validate_definition d = None" and "k < length (def_tasks d)" and "ec \<in> set (task_on_error (def_tasks d ! k))"
  shows "err_goto ec = [] \<or> err_goto ec = goto_end \<or> err_goto ec \<in> task_id ` set (def_tasks d)"
    and "is_true (task_only_once (def_tasks d ! k)) \<Longrightarrow> 0 < err_retries ec \<Longrightarrow> \<not> is_true (err_not_reached ec) \<Longrightarrow>
           err_codes ec \<noteq> [] \<and> list_all pattern_only_matches_pre (err_codes ec)"
proof -
  let ?t = "def_tasks d ! k" and ?ids = "map task_id (def_tasks d)"
  obtain j where "j < length (task_on_error ?t)" "task_on_error ?t ! j = ec"
    using assms(3) by (auto simp: in_set_conv_nth)
  then have "(j, ec) \<in> set (enumerate 0 (task_on_error ?t))"
    by (auto simp: enumerate_eq_zip in_set_zip intro!: exI [of _ j])
  moreover have "\<forall>kc \<in> set (enumerate 0 (task_on_error ?t)).
      error_case_error (task_id ?t) ?ids (is_true (task_only_once ?t)) (length (task_on_error ?t)) kc = None"
    using valid_definition_task [OF assms(1,2)]
    by (simp add: validate_task_def Let_def first_some_None split: if_split_asm)
  ultimately have e: "error_case_error (task_id ?t) ?ids (is_true (task_only_once ?t)) (length (task_on_error ?t)) (j, ec) = None"
    by blast
  show "err_goto ec = [] \<or> err_goto ec = goto_end \<or> err_goto ec \<in> task_id ` set (def_tasks d)"
    using e by (simp add: error_case_error_def split: if_split_asm)
  show "err_codes ec \<noteq> [] \<and> list_all pattern_only_matches_pre (err_codes ec)"
    if "is_true (task_only_once ?t)" "0 < err_retries ec" "\<not> is_true (err_not_reached ec)"
    using e that by (auto simp: error_case_error_def first_some_None list_all_iff split: if_split_asm)
qed

end
