(* ===== verification/Lifecycle.thy ===== *)
theory Lifecycle
  imports Rows
begin

section \<open>The process tree's lifecycle (\<open>db_lifecycle.go\<close>)\<close>

text \<open>
  Finishing, failing, cancelling, retrying and spawning, each a transaction that reads and
  writes several rows. Row locks order concurrent transactions; here a transaction is one
  function of the database, and \<open>Inl\<close> is the error after which it is rolled back.
\<close>

subsection \<open>Statements\<close>

definition count_active_siblings :: "database \<Rightarrow> string \<Rightarrow> string \<Rightarrow> nat" where
  "count_active_siblings db parent spawn =
     length (filter (\<lambda>r. r_parent r = parent \<and> r_spawn_task r = spawn \<and> active (r_status r)) (d_rows db))"

definition woken :: "int \<Rightarrow> row \<Rightarrow> row" where
  "woken now r = r\<lparr>r_wait := (if r_status r = Running then Collecting else WaitNone), r_updated_at := now\<rparr>"

definition wake_parent :: "int \<Rightarrow> string \<Rightarrow> database \<Rightarrow> database" where
  "wake_parent now i = modify_rows (has_id i) (woken now)"

definition doomed :: "string \<Rightarrow> int \<Rightarrow> row \<Rightarrow> row" where
  "doomed err now r = r\<lparr>r_status := Failing, r_error := err, r_updated_at := now\<rparr>"

definition fail_ancestors :: "string \<Rightarrow> int \<Rightarrow> string list \<Rightarrow> database \<Rightarrow> database" where
  "fail_ancestors err now ids =
     modify_rows (\<lambda>r. r_id r \<in> set ids \<and> (r_status r = Running \<or> r_status r = Cancelling)) (doomed err now)"

text \<open>The last active member of a batch wakes the waiting parent.\<close>

definition settle_batch :: "int \<Rightarrow> bool \<Rightarrow> string \<Rightarrow> string \<Rightarrow> database \<Rightarrow> database" where
  "settle_batch now parent_waiting parent spawn db =
     (if parent_waiting \<and> count_active_siblings db parent spawn = 0 then wake_parent now parent db else db)"

definition is_waiting :: "database \<Rightarrow> string \<Rightarrow> bool" where
  "is_waiting db i = (case get_row db i of None \<Rightarrow> False | Some r \<Rightarrow> r_wait r = Waiting)"

subsection \<open>Terminal states\<close>

definition finish_child ::
  "(string \<Rightarrow> string) \<Rightarrow> int \<Rightarrow> proc_instance \<Rightarrow> database \<Rightarrow> db_error + database" where
  "finish_child hash now child db =
     (if inst_parent child = [] then update_instance hash now child db
      else let w = is_waiting db (inst_parent child) in
        and_then (update_instance hash now child db) (\<lambda>db'.
          Inr (settle_batch now w (inst_parent child) (inst_spawn_task child) db')))"

definition fail_instance_and_ancestors ::
  "(string \<Rightarrow> string) \<Rightarrow> int \<Rightarrow> proc_instance \<Rightarrow> database \<Rightarrow> db_error + database" where
  "fail_instance_and_ancestors hash now child db =
     and_then (update_instance hash now child db) (\<lambda>db1.
       let db2 = (if inst_call_stack child = [] then db1
                  else fail_ancestors (inst_error child) now (inst_call_stack child) db1)
       in Inr (if inst_parent child = [] then db2
               else settle_batch now (is_waiting db2 (inst_parent child))
                      (inst_parent child) (inst_spawn_task child) db2))"

subsection \<open>Cancelling a tree\<close>

text \<open>
  The recursive walk over \<open>parent_id\<close>, level by level. The bound is the number of rows, more
  levels than a tree can have.
\<close>

fun walk :: "nat \<Rightarrow> row list \<Rightarrow> string list \<Rightarrow> string list" where
  "walk 0 rows level = []"
| "walk (Suc n) rows level =
     (if level = [] then []
      else level @ walk n rows (map r_id (filter (\<lambda>r. r_parent r \<in> set level) rows)))"

definition subtree :: "database \<Rightarrow> string \<Rightarrow> string list" where
  "subtree db i = walk (length (d_rows db)) (d_rows db) (map r_id (filter (has_id i) (d_rows db)))"

definition require_root :: "row \<Rightarrow> db_error option" where
  "require_root r =
     (if r_parent r = [] then None
      else case r_call_stack r of
             [] \<Rightarrow> Some (NotRoot (r_id r) None)
           | anc # _ \<Rightarrow> Some (NotRoot (r_id r) (Some anc)))"

definition cancelled_row :: "int \<Rightarrow> row \<Rightarrow> row" where
  "cancelled_row now r = r\<lparr>r_status := Cancelling, r_updated_at := now\<rparr>"

definition cancel_process :: "int \<Rightarrow> string \<Rightarrow> database \<Rightarrow> db_error + database" where
  "cancel_process now i db =
     (case get_row db i of
        None \<Rightarrow> Inl InstanceNotFound
      | Some r \<Rightarrow>
          (case require_root r of
             Some e \<Rightarrow> Inl e
           | None \<Rightarrow>
               Inr (modify_rows (\<lambda>q. r_id q \<in> set (subtree db i) \<and> r_status q = Running)
                      (cancelled_row now) db)))"

subsection \<open>Retrying a tree\<close>

definition load_task :: "database \<Rightarrow> proc_instance \<Rightarrow> db_error + task option" where
  "load_task db node =
     (if inst_task node = [] then Inr None
      else case get_definition db (inst_process node) (inst_version node) of
             None \<Rightarrow> Inl (DefinitionNotFound (inst_id node))
           | Some d \<Rightarrow>
               (case find (\<lambda>t. task_id t = inst_task node) (def_tasks d) of
                  None \<Rightarrow> Inl (TaskNotFound (inst_task node))
                | Some t \<Rightarrow> Inr (Some t)))"

definition batch_of :: "proc_instance list \<Rightarrow> proc_instance \<Rightarrow> proc_instance list" where
  "batch_of nodes node =
     filter (\<lambda>k. inst_parent k = inst_id node \<and> inst_parent k \<noteq> [] \<and> inst_spawn_task k = inst_task node) nodes"

definition revived :: "wait_state \<Rightarrow> proc_instance \<Rightarrow> proc_instance" where
  "revived w node = node\<lparr>inst_status := Running, inst_wait := w, inst_error := [],
     inst_wake_at := (if 0 < inst_retry_count node then None else inst_wake_at node)\<rparr>"

definition reviving :: "proc_instance \<Rightarrow> bool" where
  "reviving node \<longleftrightarrow> inst_status node = Failed \<or> inst_status node = Cancelled"

text \<open>
  The check a revived leaf makes before its front task runs again.
\<close>

definition front_task_error :: "database \<Rightarrow> bool \<Rightarrow> proc_instance \<Rightarrow> db_error option" where
  "front_task_error db force node =
     (if force then None
      else case load_task db node of
             Inl e \<Rightarrow> Some e
           | Inr None \<Rightarrow> None
           | Inr (Some t) \<Rightarrow>
               if task_only_once t = Some True
               then Some (OnlyOnceAttempted (inst_id node) (inst_task node)) else None)"

text \<open>
  \<open>revive\<close> gives the node as it is left and the nodes revived below and at it, children
  first. The fuel \<open>retry_process\<close> gives is the number of rows, at least the depth of any tree.
\<close>

fun revive ::
  "nat \<Rightarrow> database \<Rightarrow> bool \<Rightarrow> proc_instance list \<Rightarrow> proc_instance \<Rightarrow>
     db_error + (proc_instance \<times> proc_instance list)" where
  "revive 0 db force nodes node = Inl TreeTooDeep"
| "revive (Suc n) db force nodes node =
     (if \<not> reviving node then Inr (node, [])
      else if inst_task node = [] then
        Inr (revived WaitNone node, [revived WaitNone node])
      else if batch_of nodes node \<noteq> [] then
        and_then (traverse (revive n db force nodes) (batch_of nodes node)) (\<lambda>rs.
          let w = (if list_ex (\<lambda>(k, _). active (inst_status k)) rs then Waiting else Collecting)
          in Inr (revived w node, concat (map snd rs) @ [revived w node]))
      else (case front_task_error db force node of
              Some e \<Rightarrow> Inl e
            | None \<Rightarrow> Inr (revived WaitNone node, [revived WaitNone node])))"

definition write_revived :: "int \<Rightarrow> proc_instance \<Rightarrow> row \<Rightarrow> row" where
  "write_revived now node r = r\<lparr>
     r_retry_count := inst_retry_count node, r_wake_at := inst_wake_at node,
     r_status := inst_status node, r_wait := inst_wait node, r_error := [],
     r_updated_at := now, r_worker := None, r_lease := None\<rparr>"

definition save_revived :: "int \<Rightarrow> proc_instance \<Rightarrow> database \<Rightarrow> database" where
  "save_revived now node = modify_rows (has_id (inst_id node)) (write_revived now node)"

definition tree_nodes :: "database \<Rightarrow> string \<Rightarrow> proc_instance list" where
  "tree_nodes db i =
     map to_instance (sort_key r_id (filter (\<lambda>r. r_id r \<in> set (subtree db i)) (d_rows db)))"

definition retry_process :: "int \<Rightarrow> string \<Rightarrow> bool \<Rightarrow> database \<Rightarrow> db_error + database" where
  "retry_process now i force db =
     (case get_row db i of
        None \<Rightarrow> Inl InstanceNotFound
      | Some r \<Rightarrow>
          (case require_root r of
             Some e \<Rightarrow> Inl e
           | None \<Rightarrow>
               if r_status r \<noteq> Failed \<and> r_status r \<noteq> Cancelled then Inl (NotRetryable (r_status r))
               else let nodes = tree_nodes db i in
                 (case find (\<lambda>k. inst_id k = i) nodes of
                    None \<Rightarrow> Inl InstanceNotFound
                  | Some rt \<Rightarrow>
                      and_then (revive (length (d_rows db)) db force nodes rt) (\<lambda>(_, dirty).
                        Inr (fold (save_revived now) dirty db)))))"

subsection \<open>Spawning children\<close>

fun insert_children ::
  "(string \<Rightarrow> string) \<Rightarrow> int \<Rightarrow> status \<Rightarrow> proc_instance list \<Rightarrow> database \<Rightarrow> db_error + database" where
  "insert_children hash ts st [] db = Inr db"
| "insert_children hash ts st (c # cs) db =
     and_then (persist_context hash ts c db) (\<lambda>(cols, db1).
       and_then (insert_row (insert_params c cols st ts ts) db1) (\<lambda>db2.
         insert_children hash (ts + 1) st cs db2))"

definition suspended :: "status \<Rightarrow> proc_instance \<Rightarrow> proc_instance" where
  "suspended st parent = parent\<lparr>inst_wake_at := None, inst_status := st, inst_wait := Waiting\<rparr>"

definition spawn_children_and_wait ::
  "(string \<Rightarrow> string) \<Rightarrow> int \<Rightarrow> proc_instance \<Rightarrow> proc_instance list \<Rightarrow> database \<Rightarrow> db_error + database" where
  "spawn_children_and_wait hash now parent children db =
     (if children = [] then Inr db
      else case get_row db (inst_id parent) of
             None \<Rightarrow> Inl InstanceNotFound
           | Some r \<Rightarrow>
               if r_wait r \<noteq> WaitNone then Inl (AlreadyWaiting (r_wait r))
               else and_then (insert_children hash now (r_status r) children db) (\<lambda>db1.
                      update_instance hash now (suspended (r_status r) parent) db1))"

end
