(* ===== verification/Claim.thy ===== *)
theory Claim
  imports Lifecycle "HOL-Library.Product_Lexorder"
begin

section \<open>Claiming and leases (\<open>db_claim.go\<close>)\<close>

text \<open>
  A worker claims runnable instances for a lease and renews all its leases in chunks.
\<close>

subsection \<open>The claim\<close>

text \<open>A comparison with NULL is not true.\<close>

definition due :: "int \<Rightarrow> int option \<Rightarrow> bool" where
  "due now t = (case t of None \<Rightarrow> False | Some x \<Rightarrow> x \<le> now)"

definition claimable :: "int \<Rightarrow> row \<Rightarrow> bool" where
  "claimable now r \<longleftrightarrow>
     (r_status r = Running \<or> r_status r = Failing \<or> r_status r = Cancelling)
   \<and> r_wait r \<noteq> Waiting
   \<and> (r_status r = Failing \<or> r_status r = Cancelling
      \<or> due now (r_wake_at r)
      \<or> (r_wait r \<noteq> External \<and> r_wake_at r = None))
   \<and> (r_worker r = None \<or> due now (r_lease r))"

definition claim_key :: "row \<Rightarrow> int \<times> string" where
  "claim_key r = (r_created_at r, r_id r)"

definition candidates :: "int \<Rightarrow> nat \<Rightarrow> database \<Rightarrow> row list" where
  "candidates now limit db = take limit (sort_key claim_key (filter (claimable now) (d_rows db)))"

definition leased :: "string \<Rightarrow> int \<Rightarrow> row \<Rightarrow> row" where
  "leased worker expiry r = r\<lparr>r_worker := Some worker, r_lease := Some expiry\<rparr>"

definition claimed_instance :: "string \<Rightarrow> int \<Rightarrow> row \<Rightarrow> proc_instance" where
  "claimed_instance worker expiry r =
     (to_instance r)\<lparr>inst_worker := Some worker, inst_lease := Some expiry,
                     inst_reclaimed := (r_worker r \<noteq> None)\<rparr>"

definition claim_instances ::
  "string \<Rightarrow> int \<Rightarrow> int \<Rightarrow> nat \<Rightarrow> database \<Rightarrow> proc_instance list \<times> database" where
  "claim_instances worker now dur limit db =
     (let cand = candidates now limit db; ids = map r_id cand
      in (map (claimed_instance worker (now + dur)) cand,
          modify_rows (\<lambda>r. r_id r \<in> set ids) (leased worker (now + dur)) db))"

subsection \<open>Renewal\<close>

definition renew_chunk_size :: nat where "renew_chunk_size = 100"

definition renewable :: "string \<Rightarrow> int \<Rightarrow> row \<Rightarrow> bool" where
  "renewable worker expiry r \<longleftrightarrow>
     r_worker r = Some worker \<and> (case r_lease r of None \<Rightarrow> False | Some l \<Rightarrow> l < expiry)"

definition renewed :: "int \<Rightarrow> row \<Rightarrow> row" where
  "renewed expiry r = r\<lparr>r_lease := Some expiry\<rparr>"

definition chunk_ids :: "string \<Rightarrow> int \<Rightarrow> nat \<Rightarrow> row list \<Rightarrow> string list" where
  "chunk_ids worker expiry k rows =
     map r_id (take k (sort_key (\<lambda>r. the (r_lease r)) (filter (renewable worker expiry) rows)))"

text \<open>\<open>RenewWorkerLeasesChunk\<close>: the rows and how many were updated.\<close>

definition renew_chunk :: "string \<Rightarrow> int \<Rightarrow> nat \<Rightarrow> row list \<Rightarrow> nat \<times> row list" where
  "renew_chunk worker expiry k rows =
     (let ids = chunk_ids worker expiry k rows
      in (length (filter (\<lambda>r. r_id r \<in> set ids) rows),
          update_where (\<lambda>r. r_id r \<in> set ids) (renewed expiry) rows))"

lemma renewable_renewed [simp]: "\<not> renewable worker expiry (renewed expiry r)"
  by (simp add: renewable_def renewed_def)

lemma chunk_ids_renewable:
  "i \<in> set (chunk_ids worker expiry k rows) \<Longrightarrow> \<exists>r \<in> set rows. r_id r = i \<and> renewable worker expiry r"
  unfolding chunk_ids_def by (auto dest!: in_set_takeD)

lemma renewable_count_update:
  "length (filter (renewable worker expiry) (update_where P (renewed expiry) rows))
     = length (filter (\<lambda>r. \<not> P r \<and> renewable worker expiry r) rows)"
  by (induction rows) auto

lemma renew_chunk_progress:
  assumes "fst (renew_chunk worker expiry k rows) \<noteq> 0"
  shows "length (filter (renewable worker expiry) (snd (renew_chunk worker expiry k rows)))
           < length (filter (renewable worker expiry) rows)"
proof -
  let ?ids = "chunk_ids worker expiry k rows"
  from assms obtain i where "i \<in> set ?ids"
    by (auto simp: renew_chunk_def Let_def filter_empty_conv)
  then obtain r where r: "r \<in> set rows" "r_id r \<in> set ?ids" "renewable worker expiry r"
    using chunk_ids_renewable by blast
  have "filter (\<lambda>r. r_id r \<notin> set ?ids \<and> renewable worker expiry r) rows
      = filter (\<lambda>r. r_id r \<notin> set ?ids) (filter (renewable worker expiry) rows)"
    by (simp add: conj_commute)
  moreover have "length (filter (\<lambda>r. r_id r \<notin> set ?ids) (filter (renewable worker expiry) rows))
      < length (filter (renewable worker expiry) rows)"
    using r by (intro length_filter_less [where x = r]) auto
  ultimately show ?thesis
    by (simp add: renew_chunk_def Let_def renewable_count_update)
qed

text \<open>The loop of \<open>RenewWorkerLeases\<close>: until a chunk is not full.\<close>

function renew_loop :: "string \<Rightarrow> int \<Rightarrow> row list \<Rightarrow> row list" where
  "renew_loop worker expiry rows =
     (let (n, rows') = renew_chunk worker expiry renew_chunk_size rows
      in if n < renew_chunk_size then rows' else renew_loop worker expiry rows')"
  by pat_completeness auto
termination
proof (relation "measure (\<lambda>(w, e, rows). length (filter (renewable w e) rows))", goal_cases)
  case (2 worker expiry rows p n rows')
  then have eq: "renew_chunk worker expiry renew_chunk_size rows = (n, rows')" by simp
  then have "fst (renew_chunk worker expiry renew_chunk_size rows) = n" by simp
  with 2(3) have "fst (renew_chunk worker expiry renew_chunk_size rows) \<noteq> 0"
    by (simp add: renew_chunk_size_def)
  with eq renew_chunk_progress [of worker expiry renew_chunk_size rows] show ?case by auto
qed simp

declare renew_loop.simps [simp del]

definition renew_worker_leases :: "string \<Rightarrow> int \<Rightarrow> int \<Rightarrow> database \<Rightarrow> database" where
  "renew_worker_leases worker now dur db =
     db\<lparr>d_rows := renew_loop worker (now + dur) (d_rows db)\<rparr>"

subsection \<open>Facts\<close>

lemma candidates_claimable:
  "r \<in> set (candidates now limit db) \<Longrightarrow> r \<in> set (d_rows db) \<and> claimable now r"
  unfolding candidates_def by (auto dest!: in_set_takeD)

lemma leased_not_claimable:
  assumes "now < expiry"
  shows "\<not> claimable now (leased worker expiry r)"
  using assms by (simp add: claimable_def leased_def due_def)

lemma candidates_distinct:
  assumes "distinct (map r_id (d_rows db))"
  shows "distinct (map r_id (candidates now limit db))"
proof -
  let ?s = "sort_key claim_key (filter (claimable now) (d_rows db))"
  have "distinct (map r_id (filter (claimable now) (d_rows db)))"
    using assms by (simp add: distinct_map_filter)
  then have "distinct (map r_id ?s)"
    by (simp add: distinct_map)
  then show ?thesis
    unfolding candidates_def by (metis distinct_take take_map)
qed

lemma take_sorted_le:
  assumes "sorted (map f xs)" and "x \<in> set (take n xs)" and "y \<in> set xs" and "y \<notin> set (take n xs)"
  shows "f x \<le> f y"
proof -
  have "xs = take n xs @ drop n xs" by simp
  with assms(1) have "sorted (map f (take n xs) @ map f (drop n xs))" by (metis map_append)
  moreover have "y \<in> set (drop n xs)" using assms(3,4) by (metis UnE append_take_drop_id set_append)
  ultimately show ?thesis using assms(2) by (auto simp: sorted_append)
qed

text \<open>
  C17: a claim takes the oldest runnable instances (by creation time, then id), at most
  \<open>limit\<close> of them, only rows that satisfy the claim predicate, and stamps exactly those with
  the worker and the lease; every other row is untouched.
\<close>

theorem claim_oldest_runnable:
  assumes "distinct (map r_id (d_rows db))"
      and "claim_instances worker now dur limit db = (claimed, db')"
  shows "length claimed \<le> limit
    \<and> set (map inst_id claimed) \<subseteq> {r_id r |r. r \<in> set (d_rows db) \<and> claimable now r}
    \<and> (\<forall>r \<in> set (d_rows db). \<forall>q \<in> set (d_rows db).
         claimable now q \<and> r_id q \<notin> set (map inst_id claimed) \<and> r_id r \<in> set (map inst_id claimed)
           \<longrightarrow> claim_key r \<le> claim_key q)
    \<and> d_rows db' = map (\<lambda>r. if r_id r \<in> set (map inst_id claimed)
                             then leased worker (now + dur) r else r) (d_rows db)"
proof -
  let ?c = "candidates now limit db"
  let ?s = "sort_key claim_key (filter (claimable now) (d_rows db))"
  have ids: "map inst_id claimed = map r_id ?c"
    using assms(2) by (auto simp: claim_instances_def Let_def claimed_instance_def to_instance_def)
  have len: "length claimed \<le> limit"
    using assms(2) by (auto simp: claim_instances_def Let_def candidates_def)
  have rows: "d_rows db' = map (\<lambda>r. if r_id r \<in> set (map r_id ?c) then leased worker (now + dur) r else r) (d_rows db)"
    using assms(2) by (auto simp: claim_instances_def Let_def modify_rows_def update_where_def)
  have oldest: "claim_key r \<le> claim_key q"
    if "r \<in> set (d_rows db)" "q \<in> set (d_rows db)" "claimable now q" "r_id q \<notin> r_id ` set ?c"
       "r_id r \<in> r_id ` set ?c" for r q
  proof -
    from that(5) obtain r' where "r' \<in> set ?c" "r_id r' = r_id r" by auto
    moreover from this have "r' \<in> set (d_rows db)" using candidates_claimable by blast
    ultimately have "r \<in> set ?c"
      using assms(1) that(1) by (metis distinct_map inj_onD)
    moreover have "q \<notin> set ?c" using that(4) by auto
    ultimately show ?thesis
      using take_sorted_le [of claim_key ?s r limit q] that(2,3)
      by (simp add: candidates_def)
  qed
  show ?thesis
    using len rows oldest candidates_claimable unfolding ids by auto
qed

theorem claim_oldest_runnable_witness:
  "\<exists>claimed db'. claim_instances ''w'' 5 10 1 (db_with [blank_row ''a'']) = (claimed, db')
     \<and> length claimed = 1 \<and> d_rows db' = [leased ''w'' 15 (blank_row ''a'')]"
proof -
  obtain claimed db' where c: "claim_instances ''w'' 5 10 1 (db_with [blank_row ''a'']) = (claimed, db')"
    by fastforce
  moreover have ids: "map inst_id claimed = [''a'']"
    using c by (auto simp: claim_instances_def candidates_def claimable_def blank_row_def
        claimed_instance_def to_instance_def Let_def)
  moreover have "d_rows db' = [leased ''w'' 15 (blank_row ''a'')]"
    using claim_oldest_runnable [OF _ c] ids by (simp add: blank_row_def)
  moreover have "length claimed = 1" using ids by (metis One_nat_def length_Cons length_map list.size(3))
  ultimately show ?thesis by blast
qed

text \<open>
  Every selected id is the id of a selected row, and a chunk that is not full selects every
  row that is still to be renewed.
\<close>

lemma chunk_full:
  assumes "distinct (map r_id rows)" and "fst (renew_chunk worker expiry k rows) < k"
      and "r \<in> set rows" and "renewable worker expiry r"
  shows "r_id r \<in> set (chunk_ids worker expiry k rows)"
proof -
  let ?s = "sort_key (\<lambda>r. the (r_lease r)) (filter (renewable worker expiry) rows)"
  have dist: "distinct (map r_id ?s)"
  proof -
    have "distinct (map r_id (filter (renewable worker expiry) rows))"
      using assms(1) by (simp add: distinct_map_filter)
    then show ?thesis by (simp add: distinct_map)
  qed
  then have d: "distinct (chunk_ids worker expiry k rows)"
    unfolding chunk_ids_def by (metis distinct_take take_map)
  have sub: "set (chunk_ids worker expiry k rows) \<subseteq> set (map r_id rows)"
    using chunk_ids_renewable by fastforce
  have "length (chunk_ids worker expiry k rows) = card (set (chunk_ids worker expiry k rows))"
    using d by (simp add: distinct_card)
  also have "\<dots> \<le> card (set (map r_id (filter (\<lambda>r. r_id r \<in> set (chunk_ids worker expiry k rows)) rows)))"
    using sub by (intro card_mono) auto
  also have "\<dots> \<le> length (filter (\<lambda>r. r_id r \<in> set (chunk_ids worker expiry k rows)) rows)"
    by (metis card_length length_map)
  also have "\<dots> < k" using assms(2) by (simp add: renew_chunk_def Let_def)
  finally have "length ?s < k" by (simp add: chunk_ids_def)
  then have "chunk_ids worker expiry k rows = map r_id ?s"
    by (simp add: chunk_ids_def)
  then show ?thesis using assms(3,4) by auto
qed

lemma update_where_twice:
  assumes "\<And>r. r \<in> set rows \<Longrightarrow> Q r \<Longrightarrow> P r" and "\<And>r. \<not> P (f r)"
  shows "update_where P f (update_where Q f rows) = update_where P f rows"
  using assms(1) by (induction rows) (auto simp: assms(2))

lemma renewed_id [simp]: "r_id (renewed expiry r) = r_id r"
  by (simp add: renewed_def)

lemma chunk_only_renewable:
  assumes "distinct (map r_id rows)" and "r \<in> set rows"
      and "r_id r \<in> set (chunk_ids worker expiry k rows)"
  shows "renewable worker expiry r"
proof -
  obtain q where "q \<in> set rows" "r_id q = r_id r" "renewable worker expiry q"
    using chunk_ids_renewable [OF assms(3)] by blast
  moreover from this have "q = r" using assms(1,2) by (metis distinct_map inj_onD)
  ultimately show ?thesis by simp
qed

lemma renew_loop_all:
  assumes "distinct (map r_id rows)"
  shows "renew_loop worker expiry rows = update_where (renewable worker expiry) (renewed expiry) rows"
  using assms
proof (induction worker expiry rows rule: renew_loop.induct)
  case (1 worker expiry rows)
  let ?ids = "chunk_ids worker expiry renew_chunk_size rows"
  obtain n rows' where ch: "renew_chunk worker expiry renew_chunk_size rows = (n, rows')" by fastforce
  then have rows': "rows' = update_where (\<lambda>r. r_id r \<in> set ?ids) (renewed expiry) rows"
    by (simp add: renew_chunk_def Let_def)
  have only: "r \<in> set rows \<Longrightarrow> r_id r \<in> set ?ids \<Longrightarrow> renewable worker expiry r" for r
    using chunk_only_renewable [OF 1(2)] .
  show ?case
  proof (cases "n < renew_chunk_size")
    case True
    then have "r \<in> set rows \<Longrightarrow> renewable worker expiry r \<Longrightarrow> r_id r \<in> set ?ids" for r
      using chunk_full [OF 1(2)] ch by fastforce
    with only have "rows' = update_where (renewable worker expiry) (renewed expiry) rows"
      unfolding rows' update_where_def by (auto intro!: map_cong)
    with True ch show ?thesis by (simp add: renew_loop.simps)
  next
    case False
    have "map r_id rows' = map r_id rows" unfolding rows' by (rule map_update_where) simp
    with 1 ch False have "renew_loop worker expiry rows'
        = update_where (renewable worker expiry) (renewed expiry) rows'" by simp
    also have "\<dots> = update_where (renewable worker expiry) (renewed expiry) rows"
      unfolding rows' by (rule update_where_twice) (auto dest: only)
    finally show ?thesis using False ch by (subst renew_loop.simps) simp
  qed
qed

text \<open>
  C27: the renewal loop ends and has then extended exactly the leases of this worker that ended
  before the new expiry, however the rows fall into chunks of 100.
\<close>

theorem renew_all_leases:
  assumes "distinct (map r_id (d_rows db))"
  shows "d_rows (renew_worker_leases worker now dur db)
    = map (\<lambda>r. if renewable worker (now + dur) r then renewed (now + dur) r else r) (d_rows db)"
  using renew_loop_all [OF assms] by (simp add: renew_worker_leases_def update_where_def)

theorem renew_all_leases_witness:
  "d_rows (renew_worker_leases ''w'' 3 9 (db_with [leased ''w'' 5 (blank_row ''a''), blank_row ''b'']))
     = [leased ''w'' 12 (blank_row ''a''), blank_row ''b'']"
proof -
  have "distinct (map r_id (d_rows (db_with [leased ''w'' 5 (blank_row ''a''), blank_row ''b''])))"
    by (simp add: leased_def blank_row_def)
  from renew_all_leases [OF this, of "''w''" 3 9] show ?thesis
    by (simp add: leased_def blank_row_def renewable_def renewed_def)
qed

end
