(* ===== verification/Signals.thy ===== *)
theory Signals
  imports Claim
begin

section \<open>External tasks and signals (\<open>db_external.go\<close>, \<open>db_signals.go\<close>)\<close>

text \<open>
  Delivering a result to an instance parked on an external task: through the resolve API, by a
  direct signal, or from the buffer of signals when the task is armed. Each is a transaction
  under the instance's row lock.
\<close>

definition live_lease :: "int \<Rightarrow> row \<Rightarrow> bool" where
  "live_lease now r \<longleftrightarrow> r_worker r \<noteq> None \<and> (case r_lease r of None \<Rightarrow> False | Some l \<Rightarrow> now < l)"

text \<open>The \<open>SetExternalResult\<close> statement: the worker and the lease stay.\<close>

definition unparked :: "(string \<times> gval) list option \<Rightarrow> int \<Rightarrow> row \<Rightarrow> row" where
  "unparked ext now r = r\<lparr>r_external := ext, r_wait := WaitNone, r_wake_at := None, r_updated_at := now\<rparr>"

definition set_external_result :: "(string \<times> gval) list option \<Rightarrow> int \<Rightarrow> string \<Rightarrow> database \<Rightarrow> database" where
  "set_external_result ext now i = modify_rows (has_id i) (unparked ext now)"

definition resolve_external_task ::
  "int \<Rightarrow> string \<Rightarrow> string \<Rightarrow> gval \<Rightarrow> database \<Rightarrow> db_error + database" where
  "resolve_external_task now i token result db =
     (case get_row db i of
        None \<Rightarrow> Inl InstanceNotFound
      | Some r \<Rightarrow>
          if r_status r \<noteq> Running \<or> r_wait r \<noteq> External then Inl TaskNotWaiting
          else if live_lease now r then Inl BeingProcessed
          else if external_token (r_external r) = [] \<or> external_token (r_external r) \<noteq> token
            then Inl TokenMismatch
          else and_then (with_external_result (r_external r) result) (\<lambda>ext.
                 Inr (set_external_result ext now i db)))"

subsection \<open>The signal buffer\<close>

definition buffered_for :: "string \<Rightarrow> string \<Rightarrow> signal_row \<Rightarrow> bool" where
  "buffered_for i t s \<longleftrightarrow> s_instance s = i \<and> s_task s = t"

definition signal_key :: "signal_row \<Rightarrow> int \<times> string" where
  "signal_key s = (s_created_at s, s_id s)"

definition queue :: "signal_row list \<Rightarrow> string \<Rightarrow> string \<Rightarrow> signal_row list" where
  "queue signals i t = sort_key signal_key (filter (buffered_for i t) signals)"

text \<open>\<open>PopOldestSignal\<close>: delete the first of the queue and return its result.\<close>

definition pop_oldest :: "string \<Rightarrow> string \<Rightarrow> signal_row list \<Rightarrow> (gval \<times> signal_row list) option" where
  "pop_oldest i t signals =
     (case queue signals i t of
        [] \<Rightarrow> None
      | s # _ \<Rightarrow> Some (s_result s, filter (\<lambda>q. s_id q \<noteq> s_id s) signals))"

definition insert_signal :: "signal_row \<Rightarrow> database \<Rightarrow> db_error + database" where
  "insert_signal s db =
     (if s_id s \<in> s_id ` set (d_signals db) then Inl (DuplicateKey (s_id s))
      else Inr (db\<lparr>d_signals := d_signals db @ [s]\<rparr>))"

definition count_buffered :: "string \<Rightarrow> string \<Rightarrow> database \<Rightarrow> nat" where
  "count_buffered i t db = length (filter (buffered_for i t) (d_signals db))"

subsection \<open>Arming\<close>

text \<open>
  \<open>ArmExternalOrConsumeSignal\<close>. The result is \<open>Some\<close> of a consumed signal, or \<open>None\<close> when the
  instance was parked; the instance is returned as the call leaves it. The metadata of the
  parked task is its id, the token of this arming and the input snapshot.
\<close>

definition consume_context :: "gval \<Rightarrow> ctx_data \<Rightarrow> ctx_data" where
  "consume_context p cd = del ctx_external (put ctx_external_result p cd)"

definition parked :: "string \<Rightarrow> string \<Rightarrow> gval \<Rightarrow> int option \<Rightarrow> proc_instance \<Rightarrow> proc_instance" where
  "parked t token input wake inst = inst\<lparr>
     inst_context := del ctx_external_result
       (put ctx_external (GObj [(''task_id'', GStr t), (''token'', GStr token), (''input'', input)])
          (inst_context inst)),
     inst_wait := External, inst_wake_at := wake\<rparr>"

definition arm_external_or_consume_signal ::
  "(string \<Rightarrow> string) \<Rightarrow> int \<Rightarrow> string \<Rightarrow> string \<Rightarrow> gval \<Rightarrow> int option \<Rightarrow> proc_instance \<Rightarrow> database \<Rightarrow>
     db_error + (gval option \<times> proc_instance \<times> database)" where
  "arm_external_or_consume_signal hash now t token input wake inst db =
     (if get_row db (inst_id inst) = None then Inl InstanceNotFound
      else case pop_oldest (inst_id inst) t (d_signals db) of
        Some (p, rest) \<Rightarrow>
          and_then (encode_external_data (consume_context p (inst_context inst))) (\<lambda>ext.
            Inr (Some p, inst, set_external_result ext now (inst_id inst) (db\<lparr>d_signals := rest\<rparr>)))
      | None \<Rightarrow>
          and_then (update_instance hash now (parked t token input wake inst) db) (\<lambda>db'.
            Inr (None, parked t token input wake inst, db')))"

subsection \<open>Delivery\<close>

text \<open>\<open>DeliverSignal\<close>: True when the task was armed and resolved at once, False when buffered.\<close>

definition armed_for :: "string \<Rightarrow> row \<Rightarrow> bool" where
  "armed_for t r \<longleftrightarrow> r_wait r = External \<and> r_task r = t"

definition deliver_signal ::
  "int \<Rightarrow> string \<Rightarrow> string \<Rightarrow> string \<Rightarrow> gval \<Rightarrow> database \<Rightarrow> db_error + (bool \<times> database)" where
  "deliver_signal now i t sid result db =
     (if marshal result = None then Inl MarshalError
      else case get_row db i of
        None \<Rightarrow> Inl InstanceNotFound
      | Some r \<Rightarrow>
          if r_status r \<noteq> Running then Inl (NotRunning (r_status r))
          else if armed_for t r \<and> \<not> live_lease now r then
            and_then (with_external_result (r_external r) result) (\<lambda>ext.
              Inr (True, set_external_result ext now i db))
          else and_then (insert_signal \<lparr>s_id = sid, s_instance = i, s_task = t,
                           s_result = decoded result, s_created_at = now\<rparr> db) (\<lambda>db'.
                 Inr (False, db')))"

end
