(* ===== verification/Tree.thy ===== *)
theory Tree
  imports Signals
begin

section \<open>The shape of the process tree\<close>

text \<open>
  What the rows of \<open>process_instances\<close> satisfy between transactions: ids are unique, a child's
  call stack is its parent's with the parent added, an active child has an active parent that
  is waiting on exactly the task that spawned it, and a waiting parent has an active child to
  wake it. The lemmas here are about row lists; the next theory shows that every transaction
  keeps the invariant.
\<close>

subsection \<open>The invariant\<close>

definition stack_ok :: "row list \<Rightarrow> row \<Rightarrow> bool" where
  "stack_ok rows c \<longleftrightarrow> r_id c \<noteq> [] \<and>
     (if r_parent c = [] then r_call_stack c = []
      else \<exists>p \<in> set rows. r_id p = r_parent c \<and> r_call_stack c = r_call_stack p @ [r_id p])"

definition wf_rows :: "row list \<Rightarrow> bool" where
  "wf_rows rows \<longleftrightarrow> distinct (map r_id rows) \<and> (\<forall>c \<in> set rows. stack_ok rows c)"

text \<open>\<open>c\<close> is an active member of the batch \<open>p\<close> waits for.\<close>

definition awaited :: "row \<Rightarrow> row \<Rightarrow> bool" where
  "awaited p c \<longleftrightarrow> r_parent c = r_id p \<and> r_spawn_task c = r_task p \<and> active (r_status c)"

definition child_linked :: "row list \<Rightarrow> row \<Rightarrow> bool" where
  "child_linked rows c \<longleftrightarrow>
     (r_parent c \<noteq> [] \<and> active (r_status c) \<longrightarrow>
       (\<exists>p \<in> set rows. r_wait p = Waiting \<and> active (r_status p) \<and> awaited p c))"

definition parent_served :: "row list \<Rightarrow> row \<Rightarrow> bool" where
  "parent_served rows p \<longleftrightarrow>
     (r_wait p = Waiting \<longrightarrow> active (r_status p) \<and> (\<exists>c \<in> set rows. awaited p c))"

definition tree_ok :: "row list \<Rightarrow> bool" where
  "tree_ok rows \<longleftrightarrow> wf_rows rows \<and> (\<forall>r \<in> set rows. child_linked rows r \<and> parent_served rows r)"

text \<open>The invariant while the parent \<open>i\<close> of a settled child has not yet been looked at.\<close>

definition tree_ok_but :: "string \<Rightarrow> row list \<Rightarrow> bool" where
  "tree_ok_but i rows \<longleftrightarrow> wf_rows rows \<and>
     (\<forall>r \<in> set rows. child_linked rows r \<and> (r_id r \<noteq> i \<longrightarrow> parent_served rows r))"

lemma tree_ok_but_Nil: "tree_ok_but [] rows \<longleftrightarrow> tree_ok rows"
  by (auto simp: tree_ok_but_def tree_ok_def wf_rows_def stack_ok_def)

lemma tree_ok_butI: "tree_ok rows \<Longrightarrow> tree_ok_but i rows"
  by (simp add: tree_ok_but_def tree_ok_def)

lemma tree_okD:
  assumes "tree_ok rows"
  shows "distinct (map r_id rows)"
    and "r \<in> set rows \<Longrightarrow> stack_ok rows r"
    and "r \<in> set rows \<Longrightarrow> child_linked rows r"
    and "r \<in> set rows \<Longrightarrow> parent_served rows r"
  using assms by (auto simp: tree_ok_def wf_rows_def)

lemma same_id_same_row:
  "distinct (map r_id rows) \<Longrightarrow> r \<in> set rows \<Longrightarrow> q \<in> set rows \<Longrightarrow> r_id r = r_id q \<Longrightarrow> r = q"
  by (metis distinct_map inj_onD)

lemma set_update_one:
  assumes "distinct (map r_id rows)" and "r \<in> set rows"
  shows "set (update_where (has_id (r_id r)) g rows) = insert (g r) (set rows - {r})"
proof -
  have "has_id (r_id r) q \<longleftrightarrow> q = r" if "q \<in> set rows" for q
    using same_id_same_row [OF assms(1) that assms(2)] by (auto simp: has_id_def)
  then have "set (update_where (has_id (r_id r)) g rows) = (\<lambda>q. if q = r then g r else q) ` set rows"
    by (auto simp: update_where_def image_iff)
  also have "\<dots> = insert (g r) (set rows - {r})" using assms(2) by auto
  finally show ?thesis .
qed

text \<open>A row that does not wait has no active child.\<close>

lemma no_active_child:
  assumes "tree_ok rows" and "p \<in> set rows" and "r_wait p \<noteq> Waiting"
      and "c \<in> set rows" and "r_parent c = r_id p"
  shows "terminal (r_status c)"
proof (rule ccontr)
  assume act: "active (r_status c)"
  have "r_parent c \<noteq> []"
    using tree_okD(2) [OF assms(1,2)] assms(5) by (simp add: stack_ok_def)
  with act obtain q where q: "q \<in> set rows" "r_wait q = Waiting" "awaited q c"
    using tree_okD(3) [OF assms(1,4)] by (auto simp: child_linked_def)
  then have "q = p"
    using same_id_same_row [OF tree_okD(1) [OF assms(1)]] assms(2,5) by (auto simp: awaited_def)
  with q(2) assms(3) show False by simp
qed

subsection \<open>Updates that keep a row's place in the tree\<close>

text \<open>What the invariant sees of a row.\<close>

definition same_view :: "row \<Rightarrow> row \<Rightarrow> bool" where
  "same_view r q \<longleftrightarrow> r_id q = r_id r \<and> r_parent q = r_parent r \<and> r_spawn_task q = r_spawn_task r
     \<and> r_call_stack q = r_call_stack r \<and> active (r_status q) = active (r_status r)
     \<and> (r_wait q = Waiting) = (r_wait r = Waiting)
     \<and> (r_wait r = Waiting \<longrightarrow> r_task q = r_task r)"

lemma same_view_refl [simp]: "same_view r r"
  by (simp add: same_view_def)

lemma list_all2_same_ids:
  "list_all2 same_view rows rows' \<Longrightarrow> map r_id rows' = map r_id rows"
  by (induction rule: list_all2_induct) (auto simp: same_view_def)

lemma stack_ok_view:
  assumes "list_all2 same_view rows rows'" and "stack_ok rows r" and "same_view r q"
  shows "stack_ok rows' q"
proof (cases "r_parent r = []")
  case True
  with assms(2,3) show ?thesis by (simp add: stack_ok_def same_view_def)
next
  case False
  with assms(2) obtain p where p: "p \<in> set rows" "r_id p = r_parent r" "r_call_stack r = r_call_stack p @ [r_id p]"
    by (auto simp: stack_ok_def)
  then obtain p' where p': "p' \<in> set rows'" "same_view p p'"
    using list_all2_in1 [OF assms(1)] by blast
  have "r_id p' = r_parent q" "r_call_stack q = r_call_stack p' @ [r_id p']"
    using p(2,3) p'(2) assms(3) by (simp_all add: same_view_def)
  moreover have "r_id q \<noteq> []" "r_parent q \<noteq> []"
    using assms(2,3) False by (simp_all add: stack_ok_def same_view_def)
  ultimately show ?thesis using p'(1) unfolding stack_ok_def by metis
qed

lemma wf_rows_view:
  assumes "list_all2 same_view rows rows'" and "wf_rows rows"
  shows "wf_rows rows'"
proof -
  have "stack_ok rows' q" if "q \<in> set rows'" for q
  proof -
    obtain r where "r \<in> set rows" "same_view r q" using list_all2_in2 [OF assms(1) \<open>q \<in> set rows'\<close>] by blast
    then show ?thesis using stack_ok_view [OF assms(1)] assms(2) unfolding wf_rows_def by blast
  qed
  then show ?thesis using assms(2) list_all2_same_ids [OF assms(1)] unfolding wf_rows_def by metis
qed

lemma child_linked_view:
  assumes "list_all2 same_view rows rows'" and "child_linked rows r" and "same_view r q"
  shows "child_linked rows' q"
proof (cases "r_parent r \<noteq> [] \<and> active (r_status r)")
  case True
  then obtain p where p: "p \<in> set rows" "r_wait p = Waiting" "active (r_status p)" "awaited p r"
    using assms(2) by (auto simp: child_linked_def)
  then obtain p' where "p' \<in> set rows'" "same_view p p'" using list_all2_in1 [OF assms(1)] by blast
  with p assms(3) show ?thesis by (auto simp: child_linked_def awaited_def same_view_def)
qed (use assms(3) in \<open>auto simp: child_linked_def same_view_def\<close>)

lemma parent_served_view:
  assumes "list_all2 same_view rows rows'" and "parent_served rows r" and "same_view r q"
  shows "parent_served rows' q"
proof (cases "r_wait r = Waiting")
  case True
  then obtain c where c: "c \<in> set rows" "active (r_status r)" "awaited r c"
    using assms(2) by (auto simp: parent_served_def)
  then obtain c' where "c' \<in> set rows'" "same_view c c'" using list_all2_in1 [OF assms(1)] by blast
  with c assms(3) True show ?thesis by (auto simp: parent_served_def awaited_def same_view_def)
qed (use assms(3) in \<open>auto simp: parent_served_def same_view_def\<close>)

lemma tree_ok_but_view:
  assumes "list_all2 same_view rows rows'" and "tree_ok_but i rows"
  shows "tree_ok_but i rows'"
proof -
  have "child_linked rows' q \<and> (r_id q \<noteq> i \<longrightarrow> parent_served rows' q)" if q: "q \<in> set rows'" for q
  proof -
    obtain r where r: "r \<in> set rows" "same_view r q" using list_all2_in2 [OF assms(1) q] by blast
    then have "r_id r = r_id q" by (simp add: same_view_def)
    with r child_linked_view [OF assms(1) _ r(2)] parent_served_view [OF assms(1) _ r(2)] assms(2)
    show ?thesis by (auto simp: tree_ok_but_def)
  qed
  then show ?thesis
    using wf_rows_view [OF assms(1)] assms(2) by (simp add: tree_ok_but_def)
qed

lemma tree_ok_view:
  assumes "list_all2 same_view rows rows'" and "tree_ok rows"
  shows "tree_ok rows'"
  using tree_ok_but_view [OF assms(1), of "[]"] assms(2) by (simp add: tree_ok_but_Nil)

lemma update_where_view:
  assumes "\<And>r. r \<in> set rows \<Longrightarrow> P r \<Longrightarrow> same_view r (f r)"
  shows "list_all2 same_view rows (update_where P f rows)"
  using assms by (induction rows) auto

lemma tree_ok_update:
  assumes "tree_ok rows" and "\<And>r. r \<in> set rows \<Longrightarrow> P r \<Longrightarrow> same_view r (f r)"
  shows "tree_ok (update_where P f rows)"
  using tree_ok_view [OF update_where_view] assms by blast

subsection \<open>Settling a child and waking its parent\<close>

definition same_place :: "row \<Rightarrow> row \<Rightarrow> bool" where
  "same_place r q \<longleftrightarrow> r_id q = r_id r \<and> r_parent q = r_parent r \<and> r_spawn_task q = r_spawn_task r
     \<and> r_call_stack q = r_call_stack r"

lemma stack_ok_place:
  assumes "list_all2 same_place rows rows'" and "stack_ok rows r" and "same_place r q"
  shows "stack_ok rows' q"
proof (cases "r_parent r = []")
  case True
  with assms(2,3) show ?thesis by (simp add: stack_ok_def same_place_def)
next
  case False
  with assms(2) obtain p where p: "p \<in> set rows" "r_id p = r_parent r" "r_call_stack r = r_call_stack p @ [r_id p]"
    by (auto simp: stack_ok_def)
  then obtain p' where p': "p' \<in> set rows'" "same_place p p'"
    using list_all2_in1 [OF assms(1)] by blast
  have "r_id p' = r_parent q" "r_call_stack q = r_call_stack p' @ [r_id p']"
    using p(2,3) p'(2) assms(3) by (simp_all add: same_place_def)
  moreover have "r_id q \<noteq> []" "r_parent q \<noteq> []"
    using assms(2,3) False by (simp_all add: stack_ok_def same_place_def)
  ultimately show ?thesis using p'(1) unfolding stack_ok_def by metis
qed

lemma wf_rows_place:
  assumes "list_all2 same_place rows rows'" and "wf_rows rows"
  shows "wf_rows rows'"
proof -
  have "stack_ok rows' q" if q: "q \<in> set rows'" for q
  proof -
    obtain r where "r \<in> set rows" "same_place r q" using list_all2_in2 [OF assms(1) q] by blast
    then show ?thesis using stack_ok_place [OF assms(1)] assms(2) unfolding wf_rows_def by blast
  qed
  moreover have "map r_id rows' = map r_id rows"
    using assms(1) by (induction rule: list_all2_induct) (auto simp: same_place_def)
  ultimately show ?thesis using assms(2) unfolding wf_rows_def by metis
qed

lemma update_where_place:
  assumes "\<And>r. r \<in> set rows \<Longrightarrow> P r \<Longrightarrow> same_place r (f r)"
  shows "list_all2 same_place rows (update_where P f rows)"
  using assms by (induction rows) (auto simp: same_place_def)

text \<open>An active row that does not wait becomes terminal: only its parent may be left unserved.\<close>

lemma leaf_settled:
  assumes ok: "tree_ok rows" and r: "r \<in> set rows" "r_wait r \<noteq> Waiting"
      and g: "same_place r (g r)" "r_wait (g r) \<noteq> Waiting" "terminal (r_status (g r))"
  shows "tree_ok_but (r_parent r) (update_where (has_id (r_id r)) g rows)"
proof -
  let ?rows = "update_where (has_id (r_id r)) g rows"
  have only: "q = r" if "q \<in> set rows" "has_id (r_id r) q" for q
    using same_id_same_row [OF tree_okD(1) [OF ok] that(1) r(1)] that(2) by (simp add: has_id_def)
  have place: "list_all2 same_place rows ?rows"
    using g(1) only by (intro update_where_place) blast
  have keep: "q \<in> set ?rows \<longleftrightarrow> q = g r \<or> (q \<in> set rows \<and> q \<noteq> r)" for q
    using set_update_one [OF tree_okD(1) [OF ok] r(1), of g] by auto
  have "child_linked ?rows q \<and> (r_id q \<noteq> r_parent r \<longrightarrow> parent_served ?rows q)" if q: "q \<in> set ?rows" for q
  proof (cases "q = g r")
    case True
    then show ?thesis using g by (simp add: child_linked_def parent_served_def)
  next
    case False
    with q have q': "q \<in> set rows" "q \<noteq> r" by (auto simp: keep)
    have "child_linked ?rows q"
      using tree_okD(3) [OF ok q'(1)] r(2) unfolding child_linked_def by (metis keep)
    moreover have "parent_served ?rows q" if "r_id q \<noteq> r_parent r"
    proof -
      have "\<not> awaited q r" using that by (auto simp: awaited_def)
      then show ?thesis using tree_okD(4) [OF ok q'(1)] unfolding parent_served_def by (metis keep)
    qed
    ultimately show ?thesis by simp
  qed
  then show ?thesis
    using wf_rows_place [OF place] ok by (simp add: tree_ok_but_def tree_ok_def)
qed

text \<open>The rows after \<open>settle_batch\<close>.\<close>

definition batch_done :: "row list \<Rightarrow> string \<Rightarrow> string \<Rightarrow> bool" where
  "batch_done rows parent spawn \<longleftrightarrow>
     (\<forall>c \<in> set rows. r_parent c = parent \<and> r_spawn_task c = spawn \<longrightarrow> terminal (r_status c))"

lemma count_active_siblings_0:
  "count_active_siblings db parent spawn = 0 \<longleftrightarrow> batch_done (d_rows db) parent spawn"
  by (auto simp: count_active_siblings_def batch_done_def filter_empty_conv)

lemma woken_view:
  "same_place r (woken now r)" "r_wait (woken now r) \<noteq> Waiting" "r_status (woken now r) = r_status r"
  by (simp_all add: woken_def same_place_def)

lemma batch_settled:
  assumes but: "tree_ok_but (r_id p) rows" and p: "p \<in> set rows" "r_wait p = Waiting" "active (r_status p)"
  shows "tree_ok (if batch_done rows (r_id p) (r_task p)
                  then update_where (has_id (r_id p)) (woken now) rows else rows)"
proof (cases "batch_done rows (r_id p) (r_task p)")
  case False
  then obtain c where "c \<in> set rows" "awaited p c" by (auto simp: batch_done_def awaited_def)
  then have "parent_served rows p" using p by (auto simp: parent_served_def)
  moreover have "r = p" if "r \<in> set rows" "r_id r = r_id p" for r
    using same_id_same_row [OF _ that(1) p(1) that(2)] but by (simp add: tree_ok_but_def wf_rows_def)
  ultimately show ?thesis using but False by (auto simp: tree_ok_but_def tree_ok_def)
next
  case True
  let ?rows = "update_where (has_id (r_id p)) (woken now) rows"
  have dist: "distinct (map r_id rows)" using but by (simp add: tree_ok_but_def wf_rows_def)
  have only: "q = p" if "q \<in> set rows" "has_id (r_id p) q" for q
    using same_id_same_row [OF dist that(1) p(1)] that(2) by (simp add: has_id_def)
  have keep: "q \<in> set ?rows \<longleftrightarrow> q = woken now p \<or> (q \<in> set rows \<and> q \<noteq> p)" for q
    using set_update_one [OF dist p(1), of "woken now"] by auto
  have not_awaited: "\<not> awaited p c" if "c \<in> set rows" for c
    using True that by (auto simp: awaited_def batch_done_def)
  have aw: "awaited q (woken now p) \<longleftrightarrow> awaited q p" for q
    by (simp add: awaited_def woken_def)
  have linked: "\<exists>q \<in> set ?rows. r_wait q = Waiting \<and> active (r_status q) \<and> awaited q c"
    if "c \<in> set rows" "r_parent c \<noteq> []" "active (r_status c)" for c
    using but that not_awaited [OF that(1)] unfolding tree_ok_but_def child_linked_def by (metis keep)
  have "child_linked ?rows q" if "q \<in> set ?rows" for q
  proof (cases "q = woken now p")
    case True
    with linked [OF p(1)] show ?thesis
      by (simp add: child_linked_def aw) (simp add: woken_def)
  next
    case False
    with that linked show ?thesis by (simp add: keep child_linked_def)
  qed
  moreover have "parent_served ?rows q" if "q \<in> set ?rows" for q
  proof (cases "q = woken now p")
    case True
    then show ?thesis by (simp add: parent_served_def woken_view)
  next
    case False
    with that have q: "q \<in> set rows" "q \<noteq> p" "r_id q \<noteq> r_id p" using only by (auto simp: keep has_id_def)
    then have "parent_served rows q" using but by (simp add: tree_ok_but_def)
    then show ?thesis unfolding parent_served_def by (metis keep aw)
  qed
  moreover have "wf_rows ?rows"
    using but by (intro wf_rows_place [OF update_where_place])
      (auto simp: tree_ok_but_def woken_view(1))
  ultimately show ?thesis using True by (simp add: tree_ok_def)
qed

subsection \<open>Ancestors, descendants and the recursive walk\<close>

definition child_rel :: "row list \<Rightarrow> (row \<times> row) set" where
  "child_rel rows = {(p, c). p \<in> set rows \<and> c \<in> set rows \<and> r_parent c = r_id p \<and> r_parent c \<noteq> []}"

abbreviation below :: "row list \<Rightarrow> row \<Rightarrow> row \<Rightarrow> bool" where
  "below rows a c \<equiv> (a, c) \<in> (child_rel rows)\<^sup>*"

lemma parent_row:
  assumes "wf_rows rows" and "c \<in> set rows" and "r_parent c \<noteq> []"
  obtains p where "p \<in> set rows" "r_id p = r_parent c" "r_call_stack c = r_call_stack p @ [r_id p]"
proof -
  have "stack_ok rows c" using assms(1,2) by (simp add: wf_rows_def)
  with assms(3) have "\<exists>p \<in> set rows. r_id p = r_parent c \<and> r_call_stack c = r_call_stack p @ [r_id p]"
    unfolding stack_ok_def by presburger
  with that show thesis by blast
qed

lemma wf_id: "wf_rows rows \<Longrightarrow> c \<in> set rows \<Longrightarrow> r_id c \<noteq> []"
  by (simp add: wf_rows_def stack_ok_def)

lemma wf_root: "wf_rows rows \<Longrightarrow> c \<in> set rows \<Longrightarrow> r_parent c = [] \<Longrightarrow> r_call_stack c = []"
  by (simp add: wf_rows_def stack_ok_def)

lemma stack_length:
  assumes "wf_rows rows" and "(p, c) \<in> child_rel rows"
  shows "length (r_call_stack c) = Suc (length (r_call_stack p))"
proof -
  from assms obtain q where "q \<in> set rows" "r_id q = r_parent c" "r_call_stack c = r_call_stack q @ [r_id q]"
    using parent_row [OF assms(1), of c] unfolding child_rel_def by blast
  moreover from this assms have "q = p"
    using same_id_same_row [of rows q p] by (auto simp: child_rel_def wf_rows_def)
  ultimately show ?thesis by simp
qed

lemma terminal_below:
  assumes "tree_ok rows" and "below rows a c" and "terminal (r_status a)"
  shows "terminal (r_status c)"
  using assms(2,3)
proof (induction rule: rtrancl_induct)
  case (step p c)
  then have pc: "p \<in> set rows" "c \<in> set rows" "r_parent c = r_id p" by (auto simp: child_rel_def)
  have "terminal (r_status p)" using step by simp
  then have "r_wait p \<noteq> Waiting" using tree_okD(4) [OF assms(1) pc(1)] by (auto simp: parent_served_def)
  then show ?case using no_active_child [OF assms(1) pc(1) _ pc(2,3)] by blast
qed simp

text \<open>A row at depth \<open>k\<close> has \<open>k\<close> distinct rows above it, so there are more rows than levels.\<close>

lemma stack_ids:
  assumes "wf_rows rows"
  shows "c \<in> set rows \<Longrightarrow> length (r_call_stack c) = k \<Longrightarrow>
     set (r_call_stack c) \<subseteq> r_id ` {p \<in> set rows. length (r_call_stack p) < k} \<and> distinct (r_call_stack c)"
proof (induction k arbitrary: c)
  case (Suc k)
  then have "r_parent c \<noteq> []" using wf_root [OF assms Suc.prems(1)] by auto
  then obtain p where p: "p \<in> set rows" "r_call_stack c = r_call_stack p @ [r_id p]"
    using parent_row [OF assms Suc.prems(1)] by blast
  with Suc.prems(2) have k: "length (r_call_stack p) = k" by simp
  then have IH: "set (r_call_stack p) \<subseteq> r_id ` {p \<in> set rows. length (r_call_stack p) < k}" "distinct (r_call_stack p)"
    using Suc.IH [OF p(1)] by simp_all
  have "r_id p \<notin> r_id ` {p \<in> set rows. length (r_call_stack p) < k}"
    using same_id_same_row [OF _ p(1)] assms k by (auto simp: wf_rows_def)
  with IH p k show ?case by auto
qed simp

lemma stack_shorter:
  assumes "wf_rows rows" and "c \<in> set rows"
  shows "length (r_call_stack c) < length rows"
proof -
  let ?k = "length (r_call_stack c)"
  have "?k = card (set (r_call_stack c))"
    using stack_ids [OF assms(1,2) refl] by (simp add: distinct_card)
  also have "\<dots> \<le> card (r_id ` {p \<in> set rows. length (r_call_stack p) < ?k})"
    using stack_ids [OF assms(1,2) refl] by (intro card_mono) auto
  also have "\<dots> \<le> card {p \<in> set rows. length (r_call_stack p) < ?k}"
    by (rule card_image_le) simp
  also have "\<dots> < card (set rows)"
    using assms(2) by (intro psubset_card_mono) auto
  also have "\<dots> \<le> length rows" by (rule card_length)
  finally show ?thesis .
qed

lemma walk_reaches:
  assumes "wf_rows rows"
  shows "(a, c) \<in> child_rel rows ^^ k \<Longrightarrow> r_id a \<in> set level \<Longrightarrow> k < n \<Longrightarrow> r_id c \<in> set (walk n rows level)"
proof (induction n arbitrary: a k level)
  case (Suc n)
  show ?case
  proof (cases k)
    case 0
    with Suc.prems show ?thesis by auto
  next
    case (Suc j)
    then obtain b where b: "(a, b) \<in> child_rel rows" "(b, c) \<in> child_rel rows ^^ j"
      using relpow_Suc_D2 [of a c j "child_rel rows"] Suc.prems(1) by blast
    let ?next = "map r_id (filter (\<lambda>r. r_parent r \<in> set level) rows)"
    have "r_id b \<in> set ?next" using b(1) Suc.prems(2) by (auto simp: child_rel_def)
    then have "r_id c \<in> set (walk n rows ?next)"
      using Suc.IH [OF b(2)] Suc.prems(3) Suc by simp
    with Suc.prems(2) show ?thesis by auto
  qed
qed simp

lemma walk_below:
  assumes "wf_rows rows"
  shows "i \<in> set (walk n rows level) \<Longrightarrow> (\<And>j. j \<in> set level \<Longrightarrow> \<exists>r \<in> set rows. r_id r = j)
     \<Longrightarrow> \<exists>a c. a \<in> set rows \<and> r_id a \<in> set level \<and> r_id c = i \<and> below rows a c"
proof (induction n arbitrary: level)
  case (Suc n)
  let ?next = "map r_id (filter (\<lambda>r. r_parent r \<in> set level) rows)"
  consider "i \<in> set level" | "i \<in> set (walk n rows ?next)" "level \<noteq> []"
    using Suc.prems(1) by (auto split: if_splits)
  then show ?case
  proof cases
    case 1
    then show ?thesis using Suc.prems(2) by blast
  next
    case 2
    then obtain b c where b: "b \<in> set rows" "r_id b \<in> set ?next" "r_id c = i" "below rows b c"
      using Suc.IH [of ?next] by auto
    then obtain b' where "b' \<in> set rows" "r_id b' = r_id b" "r_parent b' \<in> set level" by auto
    then have "r_parent b \<in> set level"
      using same_id_same_row [of rows b' b] assms b(1) by (auto simp: wf_rows_def)
    then obtain a where a: "a \<in> set rows" "r_id a = r_parent b" using Suc.prems(2) by blast
    then have "(a, b) \<in> child_rel rows"
      using b(1) wf_id [OF assms a(1)] by (auto simp: child_rel_def)
    with a b \<open>r_parent b \<in> set level\<close> show ?thesis
      by (metis converse_rtrancl_into_rtrancl)
  qed
qed simp

lemma below_rows: "below rows a c \<Longrightarrow> a \<in> set rows \<Longrightarrow> c \<in> set rows"
  by (induction rule: rtrancl_induct) (auto simp: child_rel_def)

lemma relpow_stack:
  "wf_rows rows \<Longrightarrow> (a, c) \<in> child_rel rows ^^ k \<Longrightarrow> length (r_call_stack c) = k + length (r_call_stack a)"
proof (induction k arbitrary: c)
  case (Suc k)
  then show ?case by (auto dest: stack_length)
qed simp

text \<open>The walk enumerates exactly the instance and its descendants.\<close>

lemma subtree_iff:
  assumes "wf_rows (d_rows db)" and a: "a \<in> set (d_rows db)" and c: "c \<in> set (d_rows db)"
  shows "r_id c \<in> set (subtree db (r_id a)) \<longleftrightarrow> below (d_rows db) a c"
proof
  let ?rows = "d_rows db"
  have dist: "distinct (map r_id ?rows)" using assms(1) by (simp add: wf_rows_def)
  assume "r_id c \<in> set (subtree db (r_id a))"
  then obtain a' c' where *: "a' \<in> set ?rows" "r_id a' = r_id a" "r_id c' = r_id c" "below ?rows a' c'"
    using walk_below [OF assms(1), of "r_id c" "length ?rows" "map r_id (filter (has_id (r_id a)) ?rows)"]
    unfolding subtree_def by (auto simp: has_id_def)
  then have "a' = a" "c' = c"
    using same_id_same_row [OF dist] a c below_rows by blast+
  with * show "below ?rows a c" by simp
next
  let ?rows = "d_rows db"
  assume "below ?rows a c"
  then obtain k where k: "(a, c) \<in> child_rel ?rows ^^ k" by (auto simp: rtrancl_power)
  then have "k < length ?rows"
    using relpow_stack [OF assms(1) k] stack_shorter [OF assms(1) c] by simp
  moreover have "r_id a \<in> set (map r_id (filter (has_id (r_id a)) ?rows))"
    using a by (auto simp: has_id_def)
  ultimately show "r_id c \<in> set (subtree db (r_id a))"
    unfolding subtree_def by (rule walk_reaches [OF assms(1) k, rotated])
qed

subsection \<open>New rows\<close>

lemma stack_ok_more: "stack_ok rows c \<Longrightarrow> stack_ok (rows @ new) c"
  unfolding stack_ok_def by (simp split: if_splits) blast

lemma tree_ok_new_root:
  assumes "tree_ok rows" and "r_id r \<notin> r_id ` set rows" and "r_id r \<noteq> []"
      and "r_parent r = []" and "r_call_stack r = []" and "r_wait r \<noteq> Waiting"
  shows "tree_ok (rows @ [r])"
proof -
  have "wf_rows (rows @ [r])"
    using assms stack_ok_more [of rows _ "[r]"] by (auto simp: tree_ok_def wf_rows_def stack_ok_def [of _ r])
  moreover have "child_linked (rows @ [r]) q \<and> parent_served (rows @ [r]) q" if "q \<in> set (rows @ [r])" for q
  proof (cases "q = r")
    case False
    with that tree_okD(3,4) [OF assms(1)] show ?thesis
      by (auto simp: child_linked_def parent_served_def)
  qed (use assms in \<open>simp add: child_linked_def parent_served_def\<close>)
  ultimately show ?thesis by (simp add: tree_ok_def)
qed

definition spawned_by :: "row \<Rightarrow> string \<Rightarrow> row \<Rightarrow> bool" where
  "spawned_by p t k \<longleftrightarrow> r_id k \<noteq> [] \<and> r_parent k = r_id p \<and> r_spawn_task k = t
     \<and> r_call_stack k = r_call_stack p @ [r_id p] \<and> active (r_status k) \<and> r_wait k \<noteq> Waiting"

lemma tree_ok_spawn:
  assumes ok: "tree_ok rows" and p: "p \<in> set rows" "r_wait p \<noteq> Waiting"
      and kids: "\<forall>k \<in> set kids. spawned_by p t k" "kids \<noteq> []"
      and dist: "distinct (map r_id (rows @ kids))"
      and g: "same_place p (g p)" "active (r_status p)" "active (r_status (g p))" "r_wait (g p) = Waiting" "r_task (g p) = t"
  shows "tree_ok (update_where (has_id (r_id p)) g (rows @ kids))"
proof -
  let ?rows = "update_where (has_id (r_id p)) g (rows @ kids)"
  have p': "p \<in> set (rows @ kids)" using p(1) by simp
  have pid: "r_id p \<noteq> []" using wf_id ok p(1) by (auto simp: tree_ok_def)
  have keep: "q \<in> set ?rows \<longleftrightarrow> q = g p \<or> (q \<in> set rows \<union> set kids \<and> q \<noteq> p)" for q
    using set_update_one [OF dist p', of g] by auto
  have only: "q = p" if "q \<in> set (rows @ kids)" "r_id q = r_id p" for q
    using same_id_same_row [OF dist that(1) p' that(2)] .
  have stacks: "stack_ok (rows @ kids) q" if "q \<in> set (rows @ kids)" for q
  proof (cases "q \<in> set rows")
    case True
    then show ?thesis using tree_okD(2) [OF ok] stack_ok_more by blast
  next
    case False
    then show ?thesis using that kids(1) p(1) pid by (auto simp: stack_ok_def spawned_by_def)
  qed
  have wf: "wf_rows ?rows"
  proof (rule wf_rows_place [OF update_where_place])
    show "wf_rows (rows @ kids)" using stacks dist by (simp add: wf_rows_def)
  qed (use only g(1) in \<open>auto simp: has_id_def\<close>)
  have kid_linked: "awaited (g p) k" if "k \<in> set kids" for k
    using kids(1) that g by (auto simp: awaited_def spawned_by_def same_place_def)
  have "child_linked ?rows q \<and> parent_served ?rows q" if q: "q \<in> set ?rows" for q
  proof -
    consider "q = g p" | "q \<in> set kids" "q \<noteq> p" | "q \<in> set rows" "q \<noteq> p" using q by (auto simp: keep)
    then show ?thesis
    proof cases
      case 1
      have "child_linked ?rows (g p)"
        using tree_okD(3) [OF ok p(1)] g(1,2) p(2) unfolding child_linked_def
        by (auto simp: keep same_place_def awaited_def)
      moreover obtain k where k: "k \<in> set kids" using kids(2) by (cases kids) auto
      then have "k \<noteq> p" using dist p(1) by auto
      with k have "k \<in> set ?rows" by (simp add: keep)
      with k have "parent_served ?rows (g p)"
        using kid_linked [OF k] g(3) unfolding parent_served_def by blast
      ultimately show ?thesis using 1 by simp
    next
      case 2
      then show ?thesis using kid_linked kids(1) g
        by (auto simp: child_linked_def parent_served_def keep spawned_by_def)
    next
      case 3
      have "child_linked ?rows q"
        using tree_okD(3) [OF ok 3(1)] p(2) unfolding child_linked_def by (metis UnI1 keep)
      moreover have "parent_served ?rows q"
      proof -
        have aw: "awaited q (g p)" if "awaited q p"
          using that g by (simp add: awaited_def same_place_def)
        show ?thesis using tree_okD(4) [OF ok 3(1)] aw unfolding parent_served_def by (metis UnI1 keep)
      qed
      ultimately show ?thesis by simp
    qed
  qed
  with wf show ?thesis by (simp add: tree_ok_def)
qed

end
