(* ===== verification/TreeOps.thy ===== *)
theory TreeOps
  imports Tree
begin

section \<open>Every transaction keeps the tree invariant\<close>

text \<open>
  One lemma per transaction of \<open>db_lifecycle.go\<close>, \<open>db_claim.go\<close>, \<open>db_external.go\<close> and
  \<open>db_signals.go\<close>: from a database whose rows satisfy \<open>tree_ok\<close>, and a snapshot that agrees
  with its row on the columns no statement ever changes, it gives one whose rows satisfy it.
\<close>

definition agrees :: "proc_instance \<Rightarrow> row \<Rightarrow> bool" where
  "agrees inst r \<longleftrightarrow> inst_id inst = r_id r \<and> inst_parent inst = r_parent r
     \<and> inst_spawn_task inst = r_spawn_task r \<and> inst_call_stack inst = r_call_stack r"

subsection \<open>What the writes do to the rows\<close>

lemma object_ops_rows [simp]:
  "d_rows (pin_context_object i now p db) = d_rows db"
  "d_rows (release_object i now refs h db) = d_rows db"
  "d_signals (pin_context_object i now p db) = d_signals db"
  "d_signals (release_object i now refs h db) = d_signals db"
  "d_definitions (pin_context_object i now p db) = d_definitions db"
  "d_definitions (release_object i now refs h db) = d_definitions db"
  by (simp_all add: pin_context_object_def release_object_def unpin_object_def
      delete_dereferenced_object_def Let_def)

lemma fold_keeps:
  "(\<And>x s. v (f x s) = v s) \<Longrightarrow> v (fold f xs s) = v s"
  by (induction xs arbitrary: s) auto

lemma apply_object_diff_rows [simp]:
  "d_rows (apply_object_diff i now pending loaded refs db) = d_rows db"
  "d_signals (apply_object_diff i now pending loaded refs db) = d_signals db"
  "d_definitions (apply_object_diff i now pending loaded refs db) = d_definitions db"
  by (simp_all add: apply_object_diff_def fold_keeps [of d_rows] fold_keeps [of d_signals]
      fold_keeps [of d_definitions])

lemma persist_context_rows:
  assumes "persist_context hash now inst db = Inr (cols, db')"
  shows "d_rows db' = d_rows db" "d_signals db' = d_signals db" "d_definitions db' = d_definitions db"
  using assms by (auto simp: persist_context_def and_then_eq_Inr split: prod.splits)

lemma modify_rows_simps [simp]:
  "d_rows (modify_rows P f db) = update_where P f (d_rows db)"
  "d_signals (modify_rows P f db) = d_signals db"
  "d_definitions (modify_rows P f db) = d_definitions db"
  "d_objects (modify_rows P f db) = d_objects db"
  by (simp_all add: modify_rows_def)

lemma update_instance_rows:
  assumes "update_instance hash now inst db = Inr db'"
  shows "\<exists>cols. d_rows db' = update_where (has_id (inst_id inst)) (write_row inst cols now) (d_rows db)"
    and "d_signals db' = d_signals db" and "d_definitions db' = d_definitions db"
  using assms persist_context_rows [of hash now inst db]
  by (auto simp: update_instance_def and_then_eq_Inr split: prod.splits)

lemma update_instance_progress_rows:
  assumes "update_instance_progress hash now inst db = Inr db'"
  shows "\<exists>cols. d_rows db' = update_where (has_id (inst_id inst)) (write_row_progress inst cols now) (d_rows db)"
    and "d_signals db' = d_signals db" and "d_definitions db' = d_definitions db"
  using assms persist_context_rows [of hash now inst db]
  by (auto simp: update_instance_progress_def and_then_eq_Inr split: prod.splits)

lemma write_row_simps [simp]:
  "r_id (write_row inst cols now r) = r_id r" "r_parent (write_row inst cols now r) = r_parent r"
  "r_spawn_task (write_row inst cols now r) = r_spawn_task r"
  "r_call_stack (write_row inst cols now r) = r_call_stack r"
  "r_status (write_row inst cols now r) = inst_status inst"
  "r_wait (write_row inst cols now r) = inst_wait inst"
  "r_task (write_row inst cols now r) = inst_task inst"
  "r_worker (write_row inst cols now r) = None"
  by (simp_all add: write_row_def)

lemma write_row_progress_simps [simp]:
  "r_id (write_row_progress inst cols now r) = r_id r"
  "r_parent (write_row_progress inst cols now r) = r_parent r"
  "r_spawn_task (write_row_progress inst cols now r) = r_spawn_task r"
  "r_call_stack (write_row_progress inst cols now r) = r_call_stack r"
  "r_status (write_row_progress inst cols now r) = r_status r"
  "r_wait (write_row_progress inst cols now r) = inst_wait inst"
  "r_worker (write_row_progress inst cols now r) = None"
  by (simp_all add: write_row_progress_def)

subsection \<open>Writes that keep an instance active\<close>

lemma only_row:
  assumes "tree_ok rows" and "r \<in> set rows" and "q \<in> set rows" and "has_id (r_id r) q"
  shows "q = r"
  using same_id_same_row [OF tree_okD(1) [OF assms(1)] assms(3,2)] assms(4) by (simp add: has_id_def)

lemma update_instance_active_ok:
  assumes ok: "tree_ok (d_rows db)" and r: "r \<in> set (d_rows db)" "agrees inst r" "r_wait r \<noteq> Waiting" "active (r_status r)"
      and i: "active (inst_status inst)" "inst_wait inst \<noteq> Waiting"
      and u: "update_instance hash now inst db = Inr db'"
  shows "tree_ok (d_rows db')"
proof -
  obtain cols where rows: "d_rows db' = update_where (has_id (r_id r)) (write_row inst cols now) (d_rows db)"
    using update_instance_rows(1) [OF u] r(2) by (auto simp: agrees_def)
  show ?thesis unfolding rows
    by (rule tree_ok_update [OF ok]) (use only_row [OF ok r(1)] r i in \<open>auto simp: same_view_def\<close>)
qed

lemma update_instance_progress_ok:
  assumes ok: "tree_ok (d_rows db)" and r: "r \<in> set (d_rows db)" "agrees inst r" "r_wait r \<noteq> Waiting"
      and i: "inst_wait inst \<noteq> Waiting"
      and u: "update_instance_progress hash now inst db = Inr db'"
  shows "tree_ok (d_rows db')"
proof -
  obtain cols where rows: "d_rows db' = update_where (has_id (r_id r)) (write_row_progress inst cols now) (d_rows db)"
    using update_instance_progress_rows(1) [OF u] r(2) by (auto simp: agrees_def)
  show ?thesis unfolding rows
    by (rule tree_ok_update [OF ok]) (use only_row [OF ok r(1)] r i in \<open>auto simp: same_view_def\<close>)
qed

lemma set_external_result_ok:
  assumes ok: "tree_ok (d_rows db)" and r: "r \<in> set (d_rows db)" "r_wait r \<noteq> Waiting"
  shows "tree_ok (d_rows (set_external_result ext now (r_id r) db))"
  unfolding set_external_result_def modify_rows_simps
  by (rule tree_ok_update [OF ok]) (use only_row [OF ok r(1)] r(2) in \<open>auto simp: same_view_def unparked_def\<close>)

lemma claim_instances_ok:
  assumes "tree_ok (d_rows db)" and "claim_instances worker now dur limit db = (claimed, db')"
  shows "tree_ok (d_rows db')"
proof -
  have "d_rows db' = update_where (\<lambda>r. r_id r \<in> set (map r_id (candidates now limit db))) (leased worker (now + dur)) (d_rows db)"
    using assms(2) by (auto simp: claim_instances_def Let_def)
  then show ?thesis
    using tree_ok_update [OF assms(1)] by (simp add: same_view_def leased_def)
qed

lemma renew_worker_leases_ok:
  assumes "tree_ok (d_rows db)"
  shows "tree_ok (d_rows (renew_worker_leases worker now dur db))"
  unfolding renew_worker_leases_def
  using tree_ok_update [OF assms, of "renewable worker (now + dur)" "renewed (now + dur)"]
    renew_loop_all [OF tree_okD(1) [OF assms]]
  by (simp add: same_view_def renewed_def)

lemma cancel_process_ok:
  assumes "tree_ok (d_rows db)" and "cancel_process now i db = Inr db'"
  shows "tree_ok (d_rows db')"
proof -
  have "d_rows db' = update_where (\<lambda>q. r_id q \<in> set (subtree db i) \<and> r_status q = Running) (cancelled_row now) (d_rows db)"
    using assms(2) by (auto simp: cancel_process_def split: option.splits)
  then show ?thesis
    by (simp only:) (rule tree_ok_update [OF assms(1)], auto simp: same_view_def cancelled_row_def)
qed

subsection \<open>Writes that make an instance terminal\<close>

lemma get_row_eq:
  assumes "distinct (map r_id (d_rows db))"
  shows "get_row db i = Some r \<longleftrightarrow> r \<in> set (d_rows db) \<and> r_id r = i"
  using assms by (simp add: get_row_def row_of_eq_iff)

text \<open>After the child's own write: the rows, and the waiting parent of a non-root.\<close>

lemma terminal_write:
  assumes ok: "tree_ok (d_rows db)" and r: "r \<in> set (d_rows db)" "agrees inst r" "r_wait r \<noteq> Waiting" "active (r_status r)"
      and i: "terminal (inst_status inst)" "inst_wait inst \<noteq> Waiting"
      and u: "update_instance hash now inst db = Inr db'"
  shows "tree_ok_but (r_parent r) (d_rows db')"
    and "r_parent r \<noteq> [] \<Longrightarrow>
      \<exists>p \<in> set (d_rows db'). r_id p = r_parent r \<and> r_wait p = Waiting \<and> active (r_status p) \<and> r_task p = r_spawn_task r
        \<and> p \<in> set (d_rows db)"
proof -
  obtain cols where rows: "d_rows db' = update_where (has_id (r_id r)) (write_row inst cols now) (d_rows db)"
    using update_instance_rows(1) [OF u] r(2) by (auto simp: agrees_def)
  show "tree_ok_but (r_parent r) (d_rows db')" unfolding rows
    by (rule leaf_settled [OF ok r(1,3)]) (use i in \<open>simp_all add: same_place_def\<close>)
  assume "r_parent r \<noteq> []"
  then obtain p where p: "p \<in> set (d_rows db)" "r_wait p = Waiting" "active (r_status p)" "awaited p r"
    using tree_okD(3) [OF ok r(1)] r(4) by (auto simp: child_linked_def)
  then have "p \<in> set (d_rows db')" using r(3)
    unfolding rows set_update_one [OF tree_okD(1) [OF ok] r(1)] by auto
  with p show "\<exists>p \<in> set (d_rows db'). r_id p = r_parent r \<and> r_wait p = Waiting \<and> active (r_status p)
      \<and> r_task p = r_spawn_task r \<and> p \<in> set (d_rows db)"
    by (auto simp: awaited_def)
qed

lemma settle_batch_ok:
  assumes but: "tree_ok_but i (d_rows db)"
      and p: "p \<in> set (d_rows db)" "r_id p = i" "r_wait p = Waiting" "active (r_status p)" "r_task p = t"
  shows "tree_ok (d_rows (settle_batch now True i t db))"
  using batch_settled [of p "d_rows db" now] but p
  by (simp add: settle_batch_def wake_parent_def count_active_siblings_0 split: if_splits)

lemma is_waiting_row:
  assumes "distinct (map r_id (d_rows db))" and "p \<in> set (d_rows db)"
  shows "is_waiting db (r_id p) \<longleftrightarrow> r_wait p = Waiting"
proof -
  have "get_row db (r_id p) = Some p" using get_row_eq [OF assms(1)] assms(2) by blast
  then show ?thesis by (simp add: is_waiting_def)
qed

lemma tree_ok_but_distinct: "tree_ok_but i rows \<Longrightarrow> distinct (map r_id rows)"
  by (simp add: tree_ok_but_def wf_rows_def)

lemma finish_child_ok:
  assumes ok: "tree_ok (d_rows db)" and r: "r \<in> set (d_rows db)" "agrees inst r" "r_wait r \<noteq> Waiting" "active (r_status r)"
      and i: "terminal (inst_status inst)" "inst_wait inst \<noteq> Waiting"
      and u: "finish_child hash now inst db = Inr db'"
  shows "tree_ok (d_rows db')"
proof (cases "r_parent r = []")
  case True
  with u r(2) have "update_instance hash now inst db = Inr db'" by (simp add: finish_child_def agrees_def)
  from terminal_write(1) [OF ok r i this] True show ?thesis by (simp add: tree_ok_but_Nil)
next
  case False
  then obtain db1 where db1: "update_instance hash now inst db = Inr db1"
    and db': "db' = settle_batch now (is_waiting db (r_parent r)) (r_parent r) (r_spawn_task r) db1"
    using u r(2) by (auto simp: finish_child_def agrees_def and_then_eq_Inr Let_def)
  obtain p where p: "p \<in> set (d_rows db1)" "r_id p = r_parent r" "r_wait p = Waiting" "active (r_status p)"
      "r_task p = r_spawn_task r" "p \<in> set (d_rows db)"
    using terminal_write(2) [OF ok r i db1 False] by blast
  have "is_waiting db (r_parent r)"
    using is_waiting_row [OF tree_okD(1) [OF ok] p(6)] p(2,3) by simp
  then show ?thesis
    using settle_batch_ok [OF terminal_write(1) [OF ok r i db1] p(1-5)] unfolding db' by simp
qed

lemma fail_instance_and_ancestors_ok:
  assumes ok: "tree_ok (d_rows db)" and r: "r \<in> set (d_rows db)" "agrees inst r" "r_wait r \<noteq> Waiting" "active (r_status r)"
      and i: "terminal (inst_status inst)" "inst_wait inst \<noteq> Waiting"
      and u: "fail_instance_and_ancestors hash now inst db = Inr db'"
  shows "tree_ok (d_rows db')"
proof -
  obtain db1 where db1: "update_instance hash now inst db = Inr db1"
    using u by (auto simp: fail_instance_and_ancestors_def and_then_eq_Inr)
  define db2 where "db2 = (if inst_call_stack inst = [] then db1
     else fail_ancestors (inst_error inst) now (inst_call_stack inst) db1)"
  have db': "db' = (if r_parent r = [] then db2
      else settle_batch now (is_waiting db2 (r_parent r)) (r_parent r) (r_spawn_task r) db2)"
    using u r(2) db1 by (auto simp: fail_instance_and_ancestors_def agrees_def db2_def Let_def)
  have view: "list_all2 same_view (d_rows db1) (d_rows db2)"
  proof (cases "inst_call_stack inst = []")
    case False
    then show ?thesis
      by (simp add: db2_def fail_ancestors_def)
        (rule update_where_view, auto simp: same_view_def doomed_def)
  qed (simp add: db2_def list_all2_same)
  have but: "tree_ok_but (r_parent r) (d_rows db2)"
    using tree_ok_but_view [OF view] terminal_write(1) [OF ok r i db1] by blast
  show ?thesis
  proof (cases "r_parent r = []")
    case True
    with but db' show ?thesis by (simp add: tree_ok_but_Nil)
  next
    case False
    then obtain p where p: "p \<in> set (d_rows db1)" "r_id p = r_parent r" "r_wait p = Waiting" "active (r_status p)"
        "r_task p = r_spawn_task r"
      using terminal_write(2) [OF ok r i db1] by blast
    then obtain p2 where p2: "p2 \<in> set (d_rows db2)" "same_view p p2"
      using list_all2_in1 [OF view] by blast
    with p have w: "r_id p2 = r_parent r" "r_wait p2 = Waiting" "active (r_status p2)" "r_task p2 = r_spawn_task r"
      by (auto simp: same_view_def)
    then have "is_waiting db2 (r_parent r)"
      using is_waiting_row [OF tree_ok_but_distinct [OF but] p2(1)] by simp
    then show ?thesis using settle_batch_ok [OF but p2(1) w] db' False by simp
  qed
qed

subsection \<open>New instances\<close>

lemma insert_row_rows:
  assumes "insert_row r db = Inr db'"
  shows "d_rows db' = d_rows db @ [r]" and "r_id r \<notin> r_id ` set (d_rows db)"
    and "d_signals db' = d_signals db" and "d_definitions db' = d_definitions db"
  using assms by (auto simp: insert_row_def get_row_def row_of_None split: if_splits)

lemma save_instance_rows:
  assumes "save_instance hash now inst db = Inr db'"
  shows "\<exists>cols. d_rows db' = d_rows db @ [insert_params inst cols (inst_status inst) now now]
           \<and> inst_id inst \<notin> r_id ` set (d_rows db)"
    and "d_signals db' = d_signals db"
proof -
  obtain cols db1 where 1: "persist_context hash now inst db = Inr (cols, db1)"
    "insert_row (insert_params inst cols (inst_status inst) now now) db1 = Inr db'"
    using assms by (auto simp: save_instance_def and_then_eq_Inr split: prod.splits)
  with insert_row_rows [OF 1(2)] persist_context_rows [OF 1(1)]
  show "\<exists>cols. d_rows db' = d_rows db @ [insert_params inst cols (inst_status inst) now now]
           \<and> inst_id inst \<notin> r_id ` set (d_rows db)"
    and "d_signals db' = d_signals db"
    by (auto simp: insert_params_def)
qed

lemma save_root_ok:
  assumes "tree_ok (d_rows db)" and "inst_parent inst = []" and "inst_call_stack inst = []"
      and "inst_id inst \<noteq> []" and "inst_wait inst \<noteq> Waiting" and "save_instance hash now inst db = Inr db'"
  shows "tree_ok (d_rows db')"
proof -
  obtain cols where "d_rows db' = d_rows db @ [insert_params inst cols (inst_status inst) now now]"
    "inst_id inst \<notin> r_id ` set (d_rows db)"
    using save_instance_rows [OF assms(6)] by blast
  then show ?thesis
    using tree_ok_new_root [OF assms(1), of "insert_params inst cols (inst_status inst) now now"] assms
    by (simp add: insert_params_def)
qed

definition kid_of :: "proc_instance \<Rightarrow> proc_instance \<Rightarrow> bool" where
  "kid_of parent c \<longleftrightarrow> inst_id c \<noteq> [] \<and> inst_parent c = inst_id parent \<and> inst_spawn_task c = inst_task parent
     \<and> inst_call_stack c = inst_call_stack parent @ [inst_id parent] \<and> inst_wait c \<noteq> Waiting"

lemma insert_children_rows:
  assumes "insert_children hash ts st cs db = Inr db'" and "\<forall>c \<in> set cs. kid_of parent c"
      and "agrees parent p" and "active st" and "distinct (map r_id (d_rows db))"
  shows "\<exists>kids. d_rows db' = d_rows db @ kids \<and> length kids = length cs
     \<and> (\<forall>k \<in> set kids. spawned_by p (inst_task parent) k) \<and> distinct (map r_id (d_rows db @ kids))
     \<and> d_signals db' = d_signals db"
  using assms
proof (induction cs arbitrary: ts db)
  case (Cons c cs)
  then obtain cols db1 db2 where
    1: "persist_context hash ts c db = Inr (cols, db1)"
    and 2: "insert_row (insert_params c cols st ts ts) db1 = Inr db2"
    and 3: "insert_children hash (ts + 1) st cs db2 = Inr db'"
    by (auto simp: and_then_eq_Inr split: prod.splits)
  let ?k = "insert_params c cols st ts ts"
  have rows2: "d_rows db2 = d_rows db @ [?k]" "r_id ?k \<notin> r_id ` set (d_rows db)"
    using insert_row_rows [OF 2] persist_context_rows [OF 1] by simp_all
  then have "distinct (map r_id (d_rows db2))" using Cons.prems(5) by simp
  then obtain kids where kids: "d_rows db' = d_rows db2 @ kids" "length kids = length cs"
      "\<forall>k \<in> set kids. spawned_by p (inst_task parent) k" "distinct (map r_id (d_rows db2 @ kids))"
      "d_signals db' = d_signals db2"
    using Cons.IH [OF 3] Cons.prems(2-4) by auto
  have "spawned_by p (inst_task parent) ?k"
    using Cons.prems(2-4) by (simp add: spawned_by_def insert_params_def kid_of_def agrees_def)
  with kids rows2 insert_row_rows(3) [OF 2] persist_context_rows(2) [OF 1] show ?case
    by (intro exI [of _ "?k # kids"]) simp
qed auto

lemma spawn_children_and_wait_ok:
  assumes ok: "tree_ok (d_rows db)" and r: "r \<in> set (d_rows db)" "agrees parent r" "active (r_status r)"
      and kids: "\<forall>c \<in> set cs. kid_of parent c"
      and u: "spawn_children_and_wait hash now parent cs db = Inr db'"
  shows "tree_ok (d_rows db')" and "d_signals db' = d_signals db"
proof -
  have get: "get_row db (inst_id parent) = Some r"
    using get_row_eq [OF tree_okD(1) [OF ok]] r(1,2) by (simp add: agrees_def)
  have "tree_ok (d_rows db') \<and> d_signals db' = d_signals db"
  proof (cases "cs = []")
    case True
    with ok u show ?thesis by (simp add: spawn_children_and_wait_def)
  next
    case False
    with u get obtain db1 where w: "r_wait r = WaitNone"
      and 1: "insert_children hash now (r_status r) cs db = Inr db1"
      and 2: "update_instance hash now (suspended (r_status r) parent) db1 = Inr db'"
      by (auto simp: spawn_children_and_wait_def and_then_eq_Inr split: if_splits)
    obtain ks where ks: "d_rows db1 = d_rows db @ ks" "length ks = length cs"
        "\<forall>k \<in> set ks. spawned_by r (inst_task parent) k" "distinct (map r_id (d_rows db @ ks))"
        "d_signals db1 = d_signals db"
      using insert_children_rows [OF 1 kids r(2,3) tree_okD(1) [OF ok]] by blast
    obtain cols where rows: "d_rows db' = update_where (has_id (r_id r))
        (write_row (suspended (r_status r) parent) cols now) (d_rows db @ ks)"
      using update_instance_rows(1) [OF 2] r(2) ks(1) by (auto simp: agrees_def suspended_def)
    have "ks \<noteq> []" using ks(2) False by auto
    then have "tree_ok (d_rows db')" unfolding rows
      using w r(3) by (intro tree_ok_spawn [OF ok r(1) _ ks(3) _ ks(4)])
        (simp_all add: same_place_def suspended_def)
    then show ?thesis using update_instance_rows(2) [OF 2] ks(5) by simp
  qed
  then show "tree_ok (d_rows db')" and "d_signals db' = d_signals db" by simp_all
qed

subsection \<open>External tasks\<close>

lemma arm_external_ok:
  assumes ok: "tree_ok (d_rows db)" and r: "r \<in> set (d_rows db)" "agrees inst r" "r_wait r \<noteq> Waiting" "active (r_status r)"
      and i: "active (inst_status inst)"
      and u: "arm_external_or_consume_signal hash now t token input wake inst db = Inr (res, inst', db')"
  shows "tree_ok (d_rows db')"
proof (cases "pop_oldest (inst_id inst) t (d_signals db)")
  case None
  with u have "update_instance hash now (parked t token input wake inst) db = Inr db'"
    by (auto simp: arm_external_or_consume_signal_def and_then_eq_Inr split: if_splits)
  then show ?thesis
    by (rule update_instance_active_ok [OF ok r(1) _ r(3,4), rotated -1])
      (use r(2) i in \<open>simp_all add: parked_def agrees_def\<close>)
next
  case (Some a)
  then obtain p rest where a: "pop_oldest (inst_id inst) t (d_signals db) = Some (p, rest)" by (cases a) auto
  with u r(2) obtain ext where "db' = set_external_result ext now (r_id r) (db\<lparr>d_signals := rest\<rparr>)"
    by (auto simp: arm_external_or_consume_signal_def and_then_eq_Inr agrees_def split: if_splits)
  then show ?thesis
    using set_external_result_ok [of "db\<lparr>d_signals := rest\<rparr>" r ext now] ok r(1,3) by simp
qed

lemma deliver_signal_ok:
  assumes ok: "tree_ok (d_rows db)" and u: "deliver_signal now i t sid result db = Inr (b, db')"
  shows "tree_ok (d_rows db')"
proof -
  obtain r where r: "get_row db i = Some r"
    using u by (auto simp: deliver_signal_def split: if_splits option.splits)
  then have r': "r \<in> set (d_rows db)" "r_id r = i"
    using get_row_eq [OF tree_okD(1) [OF ok]] by auto
  show ?thesis
  proof (cases "armed_for t r \<and> \<not> live_lease now r")
    case True
    then obtain ext where "db' = set_external_result ext now (r_id r) db"
      using u r r'(2) by (auto simp: deliver_signal_def and_then_eq_Inr split: if_splits)
    with True show ?thesis
      using set_external_result_ok [OF ok r'(1)] by (simp add: armed_for_def)
  next
    case False
    then show ?thesis using u r ok
      by (auto simp: deliver_signal_def and_then_eq_Inr insert_signal_def split: if_splits)
  qed
qed

lemma resolve_external_task_ok:
  assumes ok: "tree_ok (d_rows db)" and u: "resolve_external_task now i token result db = Inr db'"
  shows "tree_ok (d_rows db')"
proof -
  obtain r where r: "get_row db i = Some r"
    using u by (auto simp: resolve_external_task_def split: option.splits)
  then have r': "r \<in> set (d_rows db)" "r_id r = i"
    using get_row_eq [OF tree_okD(1) [OF ok]] by auto
  with u r obtain ext where "db' = set_external_result ext now (r_id r) db" "r_wait r = External"
    by (auto simp: resolve_external_task_def and_then_eq_Inr split: if_splits)
  then show ?thesis using set_external_result_ok [OF ok r'(1)] by simp
qed

end
