(* ===== verification/Engine.thy ===== *)
theory Engine
  imports Evaluator Definition Signals TreeOps
begin

section \<open>Advancing an instance (\<open>internal/engine/engine.go\<close>, \<open>collect.go\<close>)\<close>

text \<open>
  One call of \<open>advance\<close> with the handlers it dispatches to, and \<open>persist\<close>. The state is the
  worker's copy of the instance and the database; a handler either stops with an outcome or goes on
  with a value. Audit logging is left out: it changes neither. The text of a failure keeps its
  constant part and the task, not the wrapped error. \<open>Crashed\<close> is a run-time panic: the process
  dies before it writes anything more.

  \<open>services\<close> holds what an advance uses from outside: the expression parser, the environment, the
  remote endpoints, the decoder of stored JSON, the hash of object contents, fresh identifiers, the
  table of pinned dependency versions and the JSON text of schemas.
\<close>

record services =
  sv_parse :: parser
  sv_env :: "string \<Rightarrow> string option"
  sv_http :: "string \<Rightarrow> (string \<times> string) list \<Rightarrow> gval \<Rightarrow> gval http_outcome"
  sv_unmarshal :: "string \<Rightarrow> gval option"
  sv_hash :: "string \<Rightarrow> string"
  sv_fresh :: string
  sv_child_id :: "string \<Rightarrow> nat \<Rightarrow> string"
  sv_dependency :: "string \<Rightarrow> int \<Rightarrow> string \<Rightarrow> string \<Rightarrow> int option"
  sv_schema_text :: "node \<Rightarrow> string"
  sv_schema_parse :: "string \<Rightarrow> node option"
  sv_immediate :: bool

datatype outcome = Progress | Update | Terminal | Noop | Crashed

type_synonym stopped = "outcome \<times> proc_instance \<times> database"
type_synonym 'a handler = "stopped + ('a \<times> proc_instance \<times> database)"

subsection \<open>Ends\<close>

definition failed_instance :: "string \<Rightarrow> proc_instance \<Rightarrow> proc_instance" where
  "failed_instance reason inst = inst\<lparr>inst_status := Failed, inst_wait := WaitNone,
     inst_error := reason, inst_wake_at := None\<rparr>"

definition fail_instance :: "string \<Rightarrow> proc_instance \<Rightarrow> outcome \<times> proc_instance" where
  "fail_instance reason inst = (Terminal, failed_instance reason inst)"

definition cancel_instance :: "proc_instance \<Rightarrow> outcome \<times> proc_instance" where
  "cancel_instance inst = (Terminal, inst\<lparr>inst_status := Cancelled, inst_wait := WaitNone,
     inst_wake_at := (if 0 < inst_retry_count inst then None else inst_wake_at inst)\<rparr>)"

definition settle_failing :: "proc_instance \<Rightarrow> outcome \<times> proc_instance" where
  "settle_failing inst = (Terminal, inst\<lparr>inst_status := Failed, inst_wait := WaitNone, inst_wake_at := None\<rparr>)"

definition stop_with :: "database \<Rightarrow> outcome \<times> proc_instance \<Rightarrow> 'a handler" where
  "stop_with db oi = Inl (fst oi, snd oi, db)"

definition stop_fail :: "string \<Rightarrow> proc_instance \<Rightarrow> database \<Rightarrow> 'a handler" where
  "stop_fail reason inst db = stop_with db (fail_instance reason inst)"

text \<open>An expression that fails fails the instance; one that panics ends the process.\<close>

definition evaluated ::
  "string \<Rightarrow> proc_instance \<Rightarrow> database \<Rightarrow> eval_error + ('a \<times> proc_instance) \<Rightarrow> 'a handler" where
  "evaluated reason inst db r =
     (case r of
        Inl e \<Rightarrow> if e = Panicked then Inl (Crashed, inst, db) else stop_fail reason inst db
      | Inr (v, inst') \<Rightarrow> Inr (v, inst', db))"

definition task_reason :: "task \<Rightarrow> string \<Rightarrow> string" where
  "task_reason t what = ''task '' @ task_id t @ '' '' @ what"

subsection \<open>Values and inputs\<close>

definition load_object :: "services \<Rightarrow> database \<Rightarrow> string \<Rightarrow> loader" where
  "load_object sv db i h =
     (case get_object db i h of
        None \<Rightarrow> Inl (LoadFailed h)
      | Some text \<Rightarrow> (case sv_unmarshal sv text of None \<Rightarrow> Inl (LoadFailed h) | Some v \<Rightarrow> Inr v))"

definition eval_input ::
  "services \<Rightarrow> database \<Rightarrow> proc_instance \<Rightarrow> gval option \<Rightarrow> eval_error + (gval \<times> proc_instance)" where
  "eval_input sv db inst shape =
     (if present shape
      then eval_shape_ctx (sv_parse sv) (load_object sv db (inst_id inst)) inst (the shape) GNil
      else Inr (GObj [], inst))"

definition build_task_data :: "services \<Rightarrow> database \<Rightarrow> proc_instance \<Rightarrow> action \<Rightarrow> eval_error + (gval \<times> proc_instance)" where
  "build_task_data sv db inst a = eval_input sv db inst (act_input a)"

text \<open>\<open>fmt.Sprintf("%v", val)\<close>; map keys are printed in order.\<close>

fun space_sep :: "string list \<Rightarrow> string" where
  "space_sep [] = []"
| "space_sep [s] = s"
| "space_sep (s # ss) = s @ '' '' @ space_sep ss"

fun any_text :: "gval \<Rightarrow> string" where
  "any_text GNil = ''<nil>''"
| "any_text (GArr vs) = ''['' @ space_sep (map any_text vs) @ '']''"
| "any_text (GObj kvs) =
     ''map['' @ space_sep (map (\<lambda>(k, t). k @ '':'' @ t) (sort_key fst (map (\<lambda>(k, v). (k, any_text v)) kvs))) @ '']''"
| "any_text v = (case stringify v of Inr t \<Rightarrow> t | Inl _ \<Rightarrow> [])"

definition resolve_endpoint :: "services \<Rightarrow> database \<Rightarrow> proc_instance \<Rightarrow> action \<Rightarrow> eval_error + (string \<times> proc_instance)" where
  "resolve_endpoint sv db inst a =
     (if act_endpoint a = [] then Inr ([], inst)
      else and_then (eval_any_ctx (sv_parse sv) (load_object sv db (inst_id inst)) inst (act_endpoint a))
             (\<lambda>(v, i). Inr (any_text v, i)))"

fun resolve_header_list ::
  "services \<Rightarrow> database \<Rightarrow> proc_instance \<Rightarrow> (string \<times> string) list \<Rightarrow> eval_error + ((string \<times> string) list \<times> proc_instance)" where
  "resolve_header_list sv db inst [] = Inr ([], inst)"
| "resolve_header_list sv db inst ((k, e) # hs) =
     and_then (eval_any_ctx (sv_parse sv) (load_object sv db (inst_id inst)) inst e) (\<lambda>(v, i).
     and_then (resolve_header_list sv db i hs) (\<lambda>(rest, j). Inr ((k, any_text v) # rest, j)))"

definition resolve_headers :: "services \<Rightarrow> database \<Rightarrow> proc_instance \<Rightarrow> action \<Rightarrow> eval_error + ((string \<times> string) list \<times> proc_instance)" where
  "resolve_headers sv db inst a = resolve_header_list sv db inst (act_headers a)"

subsection \<open>Durations\<close>

definition duration_from_value :: "gval \<Rightarrow> int option" where
  "duration_from_value v =
     (case (case v of
              GInt n \<Rightarrow> Some n
            | GFloat f \<Rightarrow> Some (int_of_f64 f)
            | GStr s \<Rightarrow> parse_int64 (trim_space s)
            | _ \<Rightarrow> None) of
        None \<Rightarrow> None
      | Some ms \<Rightarrow> if ms < 0 then None else Some ms)"

text \<open>\<open>now.Add(time.Duration(ms) * time.Millisecond)\<close>: the product of nanoseconds wraps.\<close>

definition add_millis :: "int \<Rightarrow> int \<Rightarrow> int" where
  "add_millis now ms = now + wrap_int (ms * 1000000) div 1000000"

definition retry_delay_of :: "bool \<Rightarrow> int \<Rightarrow> int" where
  "retry_delay_of immediate attempt = (if immediate then 0 else retry_delay (nat attempt))"

subsection \<open>Errors of an action\<close>

definition rule_matches :: "string \<Rightarrow> error_case \<Rightarrow> bool" where
  "rule_matches code c \<longleftrightarrow> err_codes c = [] \<or> list_ex (\<lambda>p. transport_like_match p code) (err_codes c)"

definition match_on_error :: "task \<Rightarrow> string \<Rightarrow> error_case option" where
  "match_on_error t code = find (rule_matches code) (task_on_error t)"

definition is_retry_allowed :: "task \<Rightarrow> string \<Rightarrow> error_case option \<Rightarrow> bool" where
  "is_retry_allowed t code matched =
     (if \<not> is_true (task_only_once t) then True
      else if (case matched of Some c \<Rightarrow> is_true (err_not_reached c) | None \<Rightarrow> False) then True
      else prefix_of ''pre.'' code)"

definition may_retry :: "task \<Rightarrow> string \<Rightarrow> proc_instance \<Rightarrow> bool" where
  "may_retry t code inst \<longleftrightarrow>
     (case match_on_error t code of
        None \<Rightarrow> False
      | Some c \<Rightarrow> inst_retry_count inst < err_retries c \<and> is_retry_allowed t code (Some c))"

definition error_value :: "task \<Rightarrow> string \<Rightarrow> string \<Rightarrow> gval" where
  "error_value t msg code =
     GObj [(''task'', GStr (task_id t)), (''message'', GStr msg), (''code'', GStr code)]"

definition scheduled_retry :: "services \<Rightarrow> int \<Rightarrow> proc_instance \<Rightarrow> proc_instance" where
  "scheduled_retry sv now inst = inst\<lparr>
     inst_retry_count := inst_retry_count inst + 1,
     inst_wake_at := Some (now + retry_delay_of (sv_immediate sv) (inst_retry_count inst + 1) div 1000000)\<rparr>"

definition resolve_goto :: "database \<Rightarrow> proc_instance \<Rightarrow> string \<Rightarrow> bool" where
  "resolve_goto db inst i =
     (case get_definition db (inst_process inst) (inst_version inst) of
        None \<Rightarrow> False
      | Some d \<Rightarrow> task_index (def_tasks d) i \<noteq> None)"

definition call_failure :: "task \<Rightarrow> string \<Rightarrow> string \<Rightarrow> string" where
  "call_failure t msg code = ''task '' @ task_id t @ '': '' @ code @ '': '' @ msg"

definition handle_call_error ::
  "services \<Rightarrow> database \<Rightarrow> int \<Rightarrow> proc_instance \<Rightarrow> task \<Rightarrow> string \<Rightarrow> string \<Rightarrow> outcome \<times> proc_instance" where
  "handle_call_error sv db now inst t msg code =
     (if inst_status inst = Cancelling then
        (if may_retry t code inst then cancel_instance inst
         else fail_instance (call_failure t msg code) inst)
      else if may_retry t code inst then (Update, scheduled_retry sv now inst)
      else let inst1 = inst\<lparr>inst_context := put ''error'' (error_value t msg code) (inst_context inst)\<rparr>
           in case match_on_error t code of
                None \<Rightarrow> fail_instance (call_failure t msg code) inst1
              | Some c \<Rightarrow>
                  if err_goto c = [] then fail_instance (call_failure t msg code) inst1
                  else if err_goto c = goto_end then
                    (Terminal, inst1\<lparr>inst_status := Completed, inst_wake_at := None\<rparr>)
                  else if \<not> resolve_goto db inst1 (err_goto c) then
                    fail_instance (''goto task '' @ err_goto c @ '' not found'') inst1
                  else (Update, inst1\<lparr>inst_task := err_goto c, inst_retry_count := 0, inst_wake_at := None\<rparr>))"

subsection \<open>REST actions\<close>

definition send_action :: "services \<Rightarrow> action \<Rightarrow> string \<Rightarrow> (string \<times> string) list \<Rightarrow> gval \<Rightarrow> go_error + gval response" where
  "send_action sv a url headers payload =
     (if marshal payload = None then
        Inl \<lparr>deadline_exceeded = False, canceled = False, op_error = None, err_text = ''marshal request''\<rparr>
      else if act_type a \<noteq> Rest then
        Inl \<lparr>deadline_exceeded = False, canceled = False, op_error = None, err_text = ''unknown call type''\<rparr>
      else send_http (sv_http sv url headers payload) (act_accepted_status a))"

definition after_response ::
  "services \<Rightarrow> database \<Rightarrow> int \<Rightarrow> proc_instance \<Rightarrow> task \<Rightarrow> action \<Rightarrow> go_error + gval response \<Rightarrow> gval handler" where
  "after_response sv db now inst t a res =
     (case res of
        Inl e \<Rightarrow> stop_with db (handle_call_error sv db now inst t (err_text e) (classify_go_error e))
      | Inr r \<Rightarrow>
          if resp_error_code r \<noteq> [] then
            stop_with db (handle_call_error sv db now inst t
              (if resp_error_message r = [] then resp_error_code r else resp_error_message r) (resp_error_code r))
          else (case validate_opt (act_result_schema a) (case resp_body r of None \<Rightarrow> GNil | Some b \<Rightarrow> b) of
                  Inl _ \<Rightarrow> stop_with db (handle_call_error sv db now inst t ''invalid output'' ''output.invalid'')
                | Inr v \<Rightarrow> Inr (v, inst\<lparr>inst_retry_count := 0\<rparr>, db)))"

definition execute_action ::
  "services \<Rightarrow> int \<Rightarrow> proc_instance \<Rightarrow> task \<Rightarrow> action \<Rightarrow> database \<Rightarrow> gval handler" where
  "execute_action sv now inst t a db =
     and_then (evaluated (task_reason t ''input'') inst db (build_task_data sv db inst a)) (\<lambda>(payload, i1, _).
     and_then (evaluated (task_reason t ''endpoint'') i1 db (resolve_endpoint sv db i1 a)) (\<lambda>(url, i2, _).
     and_then (evaluated (task_reason t ''headers'') i2 db (resolve_headers sv db i2 a)) (\<lambda>(headers, i3, _).
       after_response sv db now i3 t a (send_action sv a url headers payload))))"

subsection \<open>Delays and external tasks\<close>

definition run_delay :: "services \<Rightarrow> int \<Rightarrow> proc_instance \<Rightarrow> task \<Rightarrow> action \<Rightarrow> database \<Rightarrow> gval handler" where
  "run_delay sv now inst t a db =
     (if inst_wake_at inst = None then
        and_then (evaluated (task_reason t ''delay'') inst db
                    (eval_any_ctx (sv_parse sv) (load_object sv db (inst_id inst)) inst (act_ms a))) (\<lambda>(v, i1, _).
          (case duration_from_value v of
             None \<Rightarrow> stop_fail (task_reason t ''delay'') i1 db
           | Some ms \<Rightarrow> stop_with db (Progress, i1\<lparr>inst_wake_at := Some (add_millis now ms)\<rparr>)))
      else Inr (GNil, inst, db))"

definition external_deadline :: "int \<Rightarrow> task \<Rightarrow> int option" where
  "external_deadline now t = (if 0 < task_timeout_ms t then Some (add_millis now (task_timeout_ms t)) else None)"

definition run_external :: "services \<Rightarrow> int \<Rightarrow> proc_instance \<Rightarrow> task \<Rightarrow> action \<Rightarrow> database \<Rightarrow> gval handler" where
  "run_external sv now inst t a db =
     (case map_of (inst_context inst) ctx_external_result of
        Some res \<Rightarrow>
          Inr (res, inst\<lparr>inst_context := del ctx_external (del ctx_external_result (inst_context inst))\<rparr>, db)
      | None \<Rightarrow>
          if inst_wait inst = External then
            stop_with db (handle_call_error sv db now
              (inst\<lparr>inst_wait := WaitNone, inst_context := del ctx_external (inst_context inst)\<rparr>)
              t ''external task timed out'' ''external.timeout'')
          else
            and_then (evaluated (task_reason t ''input'') inst db (build_task_data sv db inst a)) (\<lambda>(input, i1, _).
              (case arm_external_or_consume_signal (sv_hash sv) now (task_id t)
                      (inst_id inst @ ''.'' @ sv_fresh sv) input (external_deadline now t) i1 db of
                 Inl _ \<Rightarrow> stop_fail (task_reason t ''arm'') i1 db
               | Inr (Some res, i2, db') \<Rightarrow> Inr (res, i2, db')
               | Inr (None, i2, db') \<Rightarrow> Inl (Noop, i2, db'))))"

subsection \<open>Children\<close>

definition latest_version :: "database \<Rightarrow> string \<Rightarrow> int option" where
  "latest_version db name =
     (case map (snd \<circ> fst) (filter (\<lambda>e. fst (fst e) = name) (d_definitions db)) of
        [] \<Rightarrow> None
      | v # vs \<Rightarrow> Some (fold max vs v))"

definition child_version :: "services \<Rightarrow> database \<Rightarrow> proc_instance \<Rightarrow> task \<Rightarrow> string \<Rightarrow> string \<Rightarrow> int \<Rightarrow> int option" where
  "child_version sv db inst t key name version =
     (if version \<noteq> 0 then Some version
      else if name = inst_process inst then Some (inst_version inst)
      else case sv_dependency sv (inst_process inst) (inst_version inst) (task_id t) key of
             Some v \<Rightarrow> Some v
           | None \<Rightarrow> latest_version db name)"

definition child_context :: "services \<Rightarrow> string \<Rightarrow> string option \<Rightarrow> node option \<Rightarrow> gval \<Rightarrow> ctx_data" where
  "child_context sv kind key schema input =
     [(''input'', input), (''outputs'', GObj []), (''output_order'', GArr []), (''error'', GNil),
      (''_spawn_action_type'', GStr kind)] @
     (case key of None \<Rightarrow> [] | Some k \<Rightarrow> [(''_spawn_child_key'', GStr k)]) @
     (case schema of None \<Rightarrow> [] | Some nd \<Rightarrow> [(''_spawn_result_schema'', GStr (sv_schema_text sv nd))])"

definition new_child ::
  "services \<Rightarrow> proc_instance \<Rightarrow> task \<Rightarrow> nat \<Rightarrow> process_definition \<Rightarrow> int \<Rightarrow> task \<Rightarrow> ctx_data \<Rightarrow> proc_instance" where
  "new_child sv inst t k d version first cd = \<lparr>
     inst_id = sv_child_id sv (inst_id inst) k, inst_process = def_name d, inst_version = version,
     inst_task = task_id first, inst_context = cd, inst_parent = inst_id inst, inst_spawn_task = task_id t,
     inst_call_stack = inst_call_stack inst @ [inst_id inst], inst_retry_count = 0, inst_wake_at = None,
     inst_status = Running, inst_wait = WaitNone, inst_error = [], inst_created_at = 0, inst_updated_at = 0,
     inst_worker = None, inst_lease = None, inst_config = [], inst_reclaimed = False, inst_loaded = [],
     inst_resolved = []\<rparr>"

text \<open>One child: \<open>kind\<close> and \<open>key\<close> tell a single call from a member of a parallel one.\<close>

definition build_child ::
  "services \<Rightarrow> string \<Rightarrow> string option \<Rightarrow> nat \<Rightarrow> child_entry \<Rightarrow> proc_instance \<Rightarrow> task \<Rightarrow> database \<Rightarrow> proc_instance handler" where
  "build_child sv kind key k e inst t db =
     (case child_version sv db inst t (case key of None \<Rightarrow> [] | Some x \<Rightarrow> x) (ce_name e) (ce_version e) of
        None \<Rightarrow> stop_fail (task_reason t kind) inst db
      | Some version \<Rightarrow>
          (case get_definition db (ce_name e) version of
             None \<Rightarrow> stop_fail (task_reason t kind) inst db
           | Some d \<Rightarrow>
               and_then (evaluated (task_reason t (kind @ '' input'')) inst db (eval_input sv db inst (ce_input e))) (\<lambda>(raw, i1, _).
                 (case validate_opt (def_input_schema d) raw of
                    Inl _ \<Rightarrow> stop_fail (task_reason t (kind @ '' input validation'')) i1 db
                  | Inr input \<Rightarrow>
                      (case def_tasks d of
                         [] \<Rightarrow> Inl (Crashed, i1, db)
                       | first # _ \<Rightarrow>
                           Inr (new_child sv i1 t k d version first
                                  (child_context sv kind key (ce_result_schema e) input), i1, db))))))"

definition build_single_child :: "services \<Rightarrow> proc_instance \<Rightarrow> task \<Rightarrow> action \<Rightarrow> database \<Rightarrow> proc_instance handler" where
  "build_single_child sv inst t a db =
     build_child sv ''child'' None 0
       \<lparr>ce_name = act_name a, ce_version = act_version a, ce_input = act_input a,
        ce_result_schema = act_result_schema a\<rparr> inst t db"

fun build_entries ::
  "services \<Rightarrow> nat \<Rightarrow> (string \<times> child_entry) list \<Rightarrow> proc_instance \<Rightarrow> task \<Rightarrow> database \<Rightarrow>
     (string \<times> proc_instance) list handler" where
  "build_entries sv k [] inst t db = Inr ([], inst, db)"
| "build_entries sv k ((key, e) # es) inst t db =
     and_then (build_child sv ''child_parallel'' (Some key) k e inst t db) (\<lambda>(c, i1, db1).
     and_then (build_entries sv (Suc k) es i1 t db1) (\<lambda>(cs, i2, db2).
       Inr ((key, c) # cs, i2, db2)))"

definition build_parallel_children ::
  "services \<Rightarrow> proc_instance \<Rightarrow> task \<Rightarrow> action \<Rightarrow> database \<Rightarrow> (string \<times> proc_instance) list handler" where
  "build_parallel_children sv inst t a db = build_entries sv 0 (sort_key fst (act_children a)) inst t db"

text \<open>Collecting: \<open>ChildrenForTask\<close> reads every child of the task, of earlier rounds too.\<close>

definition children_for_task :: "database \<Rightarrow> string \<Rightarrow> string \<Rightarrow> proc_instance list" where
  "children_for_task db i t =
     map to_instance (filter (\<lambda>r. r_parent r = i \<and> r_spawn_task r = t) (d_rows db))"

definition child_output :: "services \<Rightarrow> database \<Rightarrow> proc_instance \<Rightarrow> gval option" where
  "child_output sv db child =
     (case resolve_value (load_object sv db (inst_id child)) (inst_resolved child)
             (lookup (inst_context child) ''output'') of
        Inl _ \<Rightarrow> None
      | Inr (v, _) \<Rightarrow>
          (case lookup (inst_context child) ''_spawn_result_schema'' of
             GStr (c # cs) \<Rightarrow>
               (case sv_schema_parse sv (c # cs) of
                  None \<Rightarrow> None
                | Some nd \<Rightarrow> (case validate nd v of Inl _ \<Rightarrow> None | Inr w \<Rightarrow> Some w))
           | _ \<Rightarrow> Some v))"

definition child_key :: "proc_instance \<Rightarrow> string" where
  "child_key child = (case lookup (inst_context child) ''_spawn_child_key'' of GStr k \<Rightarrow> k | _ \<Rightarrow> [])"

fun parallel_output :: "services \<Rightarrow> database \<Rightarrow> proc_instance list \<Rightarrow> (string \<times> gval) list \<Rightarrow> gval option" where
  "parallel_output sv db [] acc = Some (GObj acc)"
| "parallel_output sv db (c # cs) acc =
     (case child_output sv db c of None \<Rightarrow> None | Some v \<Rightarrow> parallel_output sv db cs (put (child_key c) v acc))"

definition collect_child_outputs :: "services \<Rightarrow> database \<Rightarrow> proc_instance \<Rightarrow> task \<Rightarrow> action \<Rightarrow> gval option" where
  "collect_child_outputs sv db inst t a =
     (let siblings = children_for_task db (inst_id inst) (task_id t) in
      if \<not> list_all (\<lambda>c. inst_status c = Completed) siblings then None
      else if act_type a = Child then
        (case siblings of [] \<Rightarrow> Some GNil | c # _ \<Rightarrow> child_output sv db c)
      else parallel_output sv db siblings [])"

definition with_order :: "string \<Rightarrow> ctx_data \<Rightarrow> ctx_data" where
  "with_order i cd =
     put ''output_order'' (GArr (map GStr (to_string_slice (map_of cd ''output_order'') @ [i]))) cd"

definition note_children :: "task \<Rightarrow> gval \<Rightarrow> proc_instance \<Rightarrow> proc_instance" where
  "note_children t ids inst = inst\<lparr>
     inst_context := with_order (task_id t)
       (put ''_children'' (GObj (put (task_id t) ids
          (case lookup (inst_context inst) ''_children'' of GObj m \<Rightarrow> m | _ \<Rightarrow> []))) (inst_context inst)),
     inst_retry_count := 0, inst_wake_at := None\<rparr>"

definition ensure_children :: "proc_instance \<Rightarrow> proc_instance" where
  "ensure_children inst =
     (if lookup (inst_context inst) ''_children'' = GNil
      then inst\<lparr>inst_context := put ''_children'' (GObj []) (inst_context inst)\<rparr> else inst)"

definition build_children ::
  "services \<Rightarrow> proc_instance \<Rightarrow> task \<Rightarrow> action \<Rightarrow> database \<Rightarrow> (gval \<times> proc_instance list) handler" where
  "build_children sv inst t a db =
     (if act_type a = Child then
        and_then (build_single_child sv inst t a db) (\<lambda>(c, i1, db1).
          Inr ((GStr (inst_id c), [c]), i1, db1))
      else
        and_then (build_parallel_children sv inst t a db) (\<lambda>(cs, i1, db1).
          Inr ((GObj (map (\<lambda>(k, c). (k, GStr (inst_id c))) cs), map snd cs), i1, db1)))"

definition run_child_processes :: "services \<Rightarrow> int \<Rightarrow> proc_instance \<Rightarrow> task \<Rightarrow> action \<Rightarrow> database \<Rightarrow> gval handler" where
  "run_child_processes sv now inst t a db =
     (if inst_wait inst = Collecting then
        (case collect_child_outputs sv db inst t a of
           None \<Rightarrow> stop_fail (task_reason t ''collect'') (inst\<lparr>inst_wait := WaitNone\<rparr>) db
         | Some v \<Rightarrow> Inr (v, inst\<lparr>inst_wait := WaitNone\<rparr>, db))
      else
        and_then (build_children sv (ensure_children inst) t a db) (\<lambda>((ids, children), i1, db1).
          let i2 = note_children t ids i1 in
          (case spawn_children_and_wait (sv_hash sv) now i2 children db1 of
             Inl _ \<Rightarrow> stop_fail (task_reason t ''spawn'') i2 db1
           | Inr db2 \<Rightarrow> Inl (Noop, i2, db2))))"

subsection \<open>One task\<close>

definition run_action :: "services \<Rightarrow> int \<Rightarrow> proc_instance \<Rightarrow> task \<Rightarrow> database \<Rightarrow> gval handler" where
  "run_action sv now inst t db =
     (case task_action t of
        None \<Rightarrow> Inr (GNil, inst, db)
      | Some a \<Rightarrow>
          (case act_type a of
             Child \<Rightarrow> run_child_processes sv now inst t a db
           | ChildParallel \<Rightarrow> run_child_processes sv now inst t a db
           | Delay \<Rightarrow> run_delay sv now inst t a db
           | ExternalTask \<Rightarrow> run_external sv now inst t a db
           | _ \<Rightarrow> execute_action sv now inst t a db))"

definition prior_output :: "task \<Rightarrow> proc_instance \<Rightarrow> gval" where
  "prior_output t inst =
     (if present (task_output t) then lookup (outputs_of (inst_context inst)) (task_id t) else GNil)"

definition set_task_output :: "string \<Rightarrow> gval \<Rightarrow> proc_instance \<Rightarrow> proc_instance" where
  "set_task_output i v inst =
     (let cd = inst_context inst; outs = outputs_of cd;
          cd1 = put ''outputs'' (GObj (put i v outs)) cd
      in inst\<lparr>inst_context := (if map_of outs i \<noteq> None then cd1 else with_order i cd1)\<rparr>)"

definition self_scope :: "gval \<Rightarrow> gval \<Rightarrow> gval option \<Rightarrow> gval" where
  "self_scope result previous out =
     GObj ([(''result'', result), (''previous'', previous)] @
           (case out of None \<Rightarrow> [] | Some v \<Rightarrow> [(''output'', v)]))"

definition task_output_step ::
  "services \<Rightarrow> task \<Rightarrow> gval \<Rightarrow> gval \<Rightarrow> proc_instance \<Rightarrow> database \<Rightarrow> gval option handler" where
  "task_output_step sv t result previous inst db =
     (if present (task_output t) then
        and_then (evaluated (task_reason t ''output'') inst db
                    (eval_shape_ctx (sv_parse sv) (load_object sv db (inst_id inst)) inst (the (task_output t))
                       (self_scope result previous None))) (\<lambda>(v, i1, _).
          Inr (Some v, set_task_output (task_id t) v i1, db))
      else Inr (None, inst, db))"

fun eval_switch ::
  "services \<Rightarrow> database \<Rightarrow> proc_instance \<Rightarrow> switch_case list \<Rightarrow> gval \<Rightarrow> eval_error + (string \<times> proc_instance)" where
  "eval_switch sv db inst [] self = Inr ([], inst)"
| "eval_switch sv db inst (c # cs) self =
     (if case_when c = [] then Inr (case_goto c, inst)
      else and_then (eval_bool_ctx (sv_parse sv) (load_object sv db (inst_id inst)) inst (case_when c) self) (\<lambda>(b, i1).
             if b then Inr (case_goto c, i1) else eval_switch sv db i1 cs self))"

text \<open>The action, the output projection and the switch of one task; the value is the target.\<close>

definition run_task :: "services \<Rightarrow> int \<Rightarrow> proc_instance \<Rightarrow> task \<Rightarrow> database \<Rightarrow> string handler" where
  "run_task sv now inst t db =
     and_then (run_action sv now inst t db) (\<lambda>(result, i1, db1).
     and_then (task_output_step sv t result (prior_output t inst) i1 db1) (\<lambda>(out, i2, db2).
     and_then (evaluated (task_reason t ''switch'') i2 db2
                 (eval_switch sv db2 i2 (task_switch t) (self_scope result (prior_output t inst) out))) (\<lambda>(g, i3, db3).
       if g = [] then stop_fail (task_reason t ''switch: no case matched'') i3 db3 else Inr (g, i3, db3))))"

definition compute_output :: "services \<Rightarrow> proc_instance \<Rightarrow> database \<Rightarrow> unit handler" where
  "compute_output sv inst db =
     (case get_definition db (inst_process inst) (inst_version inst) of
        None \<Rightarrow> stop_fail ''load definition for output'' inst db
      | Some d \<Rightarrow>
          if present (def_output d) then
            and_then (evaluated ''output'' inst db
                        (eval_shape_ctx (sv_parse sv) (load_object sv db (inst_id inst)) inst (the (def_output d)) GNil)) (\<lambda>(v, i1, _).
              Inr ((), i1\<lparr>inst_context := put ''output'' v (inst_context i1)\<rparr>, db))
          else Inr ((), inst, db))"

text \<open>Completion: the handler has nothing to go on with, so it always stops.\<close>

definition complete_instance :: "services \<Rightarrow> proc_instance \<Rightarrow> database \<Rightarrow> stopped" where
  "complete_instance sv inst db =
     (case compute_output sv inst db of
        Inl st \<Rightarrow> st
      | Inr (_, i1, db1) \<Rightarrow> (Terminal, i1, db1))"

subsection \<open>The task loop\<close>

definition max_inline_tasks :: nat where "max_inline_tasks = 1000"

text \<open>\<open>left\<close> counts down from \<open>maxInlineTasks\<close>; \<open>None\<close> as a position is past the last task.\<close>

definition next_index :: "process_definition \<Rightarrow> nat \<Rightarrow> string \<Rightarrow> nat option" where
  "next_index d idx g = (if g = goto_next then Some (Suc idx) else task_index (def_tasks d) (drop 1 g))"

definition moved :: "process_definition \<Rightarrow> nat \<Rightarrow> proc_instance \<Rightarrow> proc_instance" where
  "moved d idx inst = inst\<lparr>inst_task := task_id_at (def_tasks d) idx, inst_retry_count := 0, inst_wake_at := None\<rparr>"

definition ran_off :: "proc_instance \<Rightarrow> proc_instance" where
  "ran_off inst = inst\<lparr>inst_task := [], inst_status := Completed, inst_wake_at := None\<rparr>"

definition ended :: "proc_instance \<Rightarrow> proc_instance" where
  "ended inst = inst\<lparr>inst_status := Completed, inst_retry_count := 0, inst_wake_at := None\<rparr>"

fun run_tasks ::
  "services \<Rightarrow> int \<Rightarrow> process_definition \<Rightarrow> nat \<Rightarrow> nat option \<Rightarrow> proc_instance \<Rightarrow> database \<Rightarrow> stopped" where
  "run_tasks sv now d left pos inst db =
     (case (case pos of None \<Rightarrow> None | Some k \<Rightarrow> if k < length (def_tasks d) then Some (k, def_tasks d ! k) else None) of
        None \<Rightarrow> complete_instance sv (ran_off inst) db
      | Some (k, t) \<Rightarrow>
          (case run_task sv now (inst\<lparr>inst_task := task_id t\<rparr>) t db of
             Inl st \<Rightarrow> st
           | Inr (g, i1, db1) \<Rightarrow>
               if g = goto_end then complete_instance sv (ended i1) db1
               else (case next_index d k g of
                       None \<Rightarrow> (Terminal, failed_instance (''goto task '' @ drop 1 g @ '' not found'') i1, db1)
                     | Some k' \<Rightarrow>
                         if task_action t \<noteq> None then (Progress, moved d k' i1, db1)
                         else (case left of
                                 0 \<Rightarrow> (Progress, moved d k' i1, db1)
                               | Suc m \<Rightarrow> run_tasks sv now d m (Some k') (moved d k' i1) db1))))"

declare run_tasks.simps [simp del]

definition interrupted_only_once :: "process_definition \<Rightarrow> nat option \<Rightarrow> proc_instance \<Rightarrow> bool" where
  "interrupted_only_once d pos inst \<longleftrightarrow> inst_reclaimed inst \<and>
     (case pos of None \<Rightarrow> False
      | Some k \<Rightarrow> task_action (def_tasks d ! k) \<noteq> None \<and> is_true (task_only_once (def_tasks d ! k)))"

definition advance :: "services \<Rightarrow> int \<Rightarrow> proc_instance \<Rightarrow> database \<Rightarrow> stopped" where
  "advance sv now inst db =
     (if inst_status inst = Failing then (let (out, i) = settle_failing inst in (out, i, db))
      else if inst_status inst = Cancelling then (let (out, i) = cancel_instance inst in (out, i, db))
      else case get_definition db (inst_process inst) (inst_version inst) of
        None \<Rightarrow> (Terminal, failed_instance ''load definition'' inst, db)
      | Some d \<Rightarrow>
          (case resolve_config d (sv_env sv) of
             Inl _ \<Rightarrow> (Terminal, failed_instance ''config'' inst, db)
           | Inr cfg \<Rightarrow>
               let i1 = (if def_config_schema d = None then inst else inst\<lparr>inst_config := cfg\<rparr>);
                   pos = task_index (def_tasks d) (inst_task inst)
               in if inst_task inst \<noteq> [] \<and> pos = None then
                    (Terminal, failed_instance (''current task '' @ inst_task inst @ '' not found in definition'') i1, db)
                  else if interrupted_only_once d pos i1 then
                    (Terminal, failed_instance (''task '' @ inst_task inst @ '' is only_once and was interrupted'') i1, db)
                  else run_tasks sv now d max_inline_tasks pos i1 db))"

subsection \<open>Persisting\<close>

definition save_and_notify :: "services \<Rightarrow> int \<Rightarrow> proc_instance \<Rightarrow> database \<Rightarrow> db_error + database" where
  "save_and_notify sv now inst db =
     (if inst_parent inst = [] then update_instance (sv_hash sv) now inst db
      else if inst_status inst = Failed then fail_instance_and_ancestors (sv_hash sv) now inst db
      else finish_child (sv_hash sv) now inst db)"

definition persist :: "services \<Rightarrow> int \<Rightarrow> proc_instance \<Rightarrow> outcome \<Rightarrow> database \<Rightarrow> db_error + database" where
  "persist sv now inst out db =
     (case out of
        Terminal \<Rightarrow> save_and_notify sv now inst db
      | Progress \<Rightarrow> update_instance_progress (sv_hash sv) now inst db
      | Update \<Rightarrow> update_instance (sv_hash sv) now inst db
      | _ \<Rightarrow> Inr db)"

end
