(* ===== verification/Retry.thy ===== *)
theory Retry
  imports TreeOps
begin

section \<open>Retrying a settled tree\<close>

text \<open>
  \<open>RetryProcess\<close> rebuilds the wait states of the interrupted path. Under a terminal root every
  row of the tree is terminal, so what a visited node becomes has a closed form, and the set of
  revived nodes is closed towards the root and towards the interrupted children.
\<close>

lemma to_instance_simps [simp]:
  "inst_id (to_instance r) = r_id r" "inst_parent (to_instance r) = r_parent r"
  "inst_task (to_instance r) = r_task r" "inst_spawn_task (to_instance r) = r_spawn_task r"
  "inst_call_stack (to_instance r) = r_call_stack r" "inst_status (to_instance r) = r_status r"
  "inst_wait (to_instance r) = r_wait r" "inst_retry_count (to_instance r) = r_retry_count r"
  "inst_wake_at (to_instance r) = r_wake_at r"
  by (simp_all add: to_instance_def)

lemma agrees_to_instance: "agrees (to_instance r) r"
  by (simp add: agrees_def)

subsection \<open>What \<open>revive\<close> gives\<close>

definition wait_after :: "proc_instance list \<Rightarrow> proc_instance \<Rightarrow> wait_state" where
  "wait_after nodes m =
     (if inst_task m = [] \<or> batch_of nodes m = [] then WaitNone
      else if list_ex reviving (batch_of nodes m) then Waiting else Collecting)"

definition after :: "proc_instance list \<Rightarrow> proc_instance \<Rightarrow> proc_instance" where
  "after nodes m = (if reviving m then revived (wait_after nodes m) m else m)"

lemma reviving_terminal: "reviving m \<Longrightarrow> terminal (inst_status m)"
  by (auto simp: reviving_def)

lemma after_simps [simp]:
  "inst_id (after nodes m) = inst_id m" "inst_task (after nodes m) = inst_task m"
  "inst_parent (after nodes m) = inst_parent m"
  "terminal (inst_status m) \<Longrightarrow> active (inst_status (after nodes m)) = reviving m"
  by (auto simp: after_def revived_def)

definition revived_at :: "proc_instance list \<Rightarrow> proc_instance \<Rightarrow> proc_instance list \<Rightarrow> proc_instance \<Rightarrow> bool" where
  "revived_at nodes start dirty m \<longleftrightarrow> m \<in> insert start (set nodes) \<and> reviving m
     \<and> (m = start \<or> (\<exists>m' \<in> insert start (set nodes). reviving m' \<and> after nodes m' \<in> set dirty
           \<and> m \<in> set (batch_of nodes m') \<and> inst_task m' \<noteq> []))
     \<and> (inst_task m \<noteq> [] \<longrightarrow> (\<forall>k \<in> set (batch_of nodes m). reviving k \<longrightarrow> after nodes k \<in> set dirty))"

lemma revived_at_mono:
  assumes "revived_at nodes k ds m" and "set ds \<subseteq> set dirty" and "k \<in> set (batch_of nodes start)"
      and "reviving start" and "after nodes start \<in> set dirty" and "inst_task start \<noteq> []"
  shows "revived_at nodes start dirty m"
proof -
  have "k \<in> set nodes" using assms(3) by (auto simp: batch_of_def)
  with assms show ?thesis unfolding revived_at_def by blast
qed

lemma revive_spec:
  assumes "\<forall>k \<in> set nodes. terminal (inst_status k)"
  shows "terminal (inst_status node) \<Longrightarrow> revive n db force nodes node = Inr (node', dirty) \<Longrightarrow>
     node' = after nodes node \<and> (reviving node \<longrightarrow> after nodes node \<in> set dirty)
     \<and> (\<not> reviving node \<longrightarrow> dirty = [])
     \<and> (\<forall>d \<in> set dirty. \<exists>m. d = after nodes m \<and> revived_at nodes node dirty m)"
proof (induction n arbitrary: node node' dirty)
  case (Suc n)
  let ?kids = "batch_of nodes node"
  have kid: "k \<in> set nodes" if "k \<in> set ?kids" for k using that by (simp add: batch_of_def)
  consider (kept) "\<not> reviving node" | (leaf) "reviving node" "inst_task node = [] \<or> ?kids = []"
    | (batch) "reviving node" "inst_task node \<noteq> []" "?kids \<noteq> []" by blast
  then show ?case
  proof cases
    case kept
    with Suc.prems show ?thesis by (simp add: after_def)
  next
    case leaf
    then have w: "wait_after nodes node = WaitNone" by (auto simp: wait_after_def)
    with leaf Suc.prems(2) have "node' = after nodes node" "dirty = [after nodes node]"
      by (auto simp: after_def split: if_splits option.splits)
    with leaf show ?thesis by (auto simp: revived_at_def)
  next
    case batch
    then obtain rs where rs: "list_all2 (\<lambda>k r. revive n db force nodes k = Inr r) ?kids rs"
      and res: "node' = revived (if list_ex (\<lambda>(k, _). active (inst_status k)) rs then Waiting else Collecting) node"
        "dirty = concat (map snd rs) @ [node']"
      using Suc.prems(2) by (auto simp: and_then_eq_Inr traverse_Inr Let_def)
    have IH: "fst r = after nodes k \<and> (reviving k \<longrightarrow> after nodes k \<in> set (snd r))
       \<and> (\<forall>d \<in> set (snd r). \<exists>m. d = after nodes m \<and> revived_at nodes k (snd r) m)"
      if "revive n db force nodes k = Inr r" "k \<in> set ?kids" for k r
      using Suc.IH [of k "fst r" "snd r"] that kid assms by simp
    have "list_ex (\<lambda>(k, _). active (inst_status k)) rs = list_ex reviving ?kids"
    proof -
      have "list_all2 (\<lambda>k r. active (inst_status (fst r)) = reviving k) ?kids rs"
        using rs by (rule list.rel_mono_strong) (use IH kid assms in auto)
      then show ?thesis by (induction rule: list_all2_induct) auto
    qed
    with batch res have node': "node' = after nodes node"
      by (simp add: after_def wait_after_def)
    have "\<exists>m. d = after nodes m \<and> revived_at nodes node dirty m" if d: "d \<in> set dirty" for d
    proof (cases "d = node'")
      case True
      have "after nodes k \<in> set dirty" if k: "k \<in> set ?kids" "reviving k" for k
      proof -
        obtain r where r: "r \<in> set rs" "revive n db force nodes k = Inr r"
          using list_all2_in1 [OF rs k(1)] by blast
        with IH k have "after nodes k \<in> set (snd r)" by blast
        with r(1) show ?thesis by (auto simp: res(2))
      qed
      with batch show ?thesis unfolding True node' revived_at_def by blast
    next
      case False
      with d obtain r where r: "r \<in> set rs" "d \<in> set (snd r)" by (auto simp: res(2))
      obtain k where k: "k \<in> set ?kids" "revive n db force nodes k = Inr r"
        using list_all2_in2 [OF rs r(1)] by blast
      then obtain m where m: "d = after nodes m" "revived_at nodes k (snd r) m"
        using IH r(2) by blast
      have "set (snd r) \<subseteq> set dirty" "after nodes node \<in> set dirty"
        using r(1) by (auto simp: res(2) node' [symmetric])
      with revived_at_mono [OF m(2) _ k(1) batch(1) _ batch(2)] m(1) show ?thesis by blast
    qed
    with batch node' res(2) show ?thesis by simp
  qed
qed simp

subsection \<open>The rows a retry writes\<close>

definition upd :: "int \<Rightarrow> proc_instance list \<Rightarrow> row \<Rightarrow> row" where
  "upd now dirty q = (case find (\<lambda>d. inst_id d = r_id q) dirty of
     None \<Rightarrow> q | Some d \<Rightarrow> write_revived now d q)"

lemma write_revived_simps [simp]:
  "r_id (write_revived now d q) = r_id q" "r_parent (write_revived now d q) = r_parent q"
  "r_spawn_task (write_revived now d q) = r_spawn_task q"
  "r_call_stack (write_revived now d q) = r_call_stack q" "r_task (write_revived now d q) = r_task q"
  "r_status (write_revived now d q) = inst_status d" "r_wait (write_revived now d q) = inst_wait d"
  "r_worker (write_revived now d q) = None"
  by (simp_all add: write_revived_def)

lemma upd_place: "same_place q (upd now dirty q)"
  by (auto simp: upd_def same_place_def split: option.splits)

lemma fold_save_revived:
  assumes "\<And>d e. d \<in> set dirty \<Longrightarrow> e \<in> set dirty \<Longrightarrow> inst_id d = inst_id e \<Longrightarrow> d = e"
  shows "d_rows (fold (save_revived now) dirty db) = map (upd now dirty) (d_rows db)"
  using assms
proof (induction dirty arbitrary: db)
  case Nil
  then show ?case by (simp add: upd_def)
next
  case (Cons d ds)
  have twice: "upd now ds (write_revived now d q) = write_revived now d q" if "r_id q = inst_id d" for q
  proof (cases "find (\<lambda>e. inst_id e = r_id q) ds")
    case (Some e)
    with find_SomeD [OF Some] Cons.prems [of e d] that have "e = d" by simp
    with Some show ?thesis by (simp add: upd_def write_revived_def)
  qed (simp add: upd_def)
  have "d_rows (save_revived now d db) = map (\<lambda>q. if r_id q = inst_id d then write_revived now d q else q) (d_rows db)"
    by (simp add: save_revived_def update_where_def has_id_def)
  then have "d_rows (fold (save_revived now) (d # ds) db)
      = map (upd now ds) (map (\<lambda>q. if r_id q = inst_id d then write_revived now d q else q) (d_rows db))"
    using Cons.IH [of "save_revived now d db"] Cons.prems by simp
  also have "\<dots> = map (upd now (d # ds)) (d_rows db)"
    using twice by (auto simp: upd_def)
  finally show ?case .
qed

text \<open>A retry that is accepted: the nodes, the root and what was revived.\<close>

lemma retry_dirty:
  assumes ok: "tree_ok (d_rows db)" and u: "retry_process now i force db = Inr db'"
  obtains a dirty where
    "a \<in> set (d_rows db)" "r_id a = i" "r_parent a = []" "reviving (to_instance a)"
    "d_rows db' = map (upd now dirty) (d_rows db)"
    "after (tree_nodes db i) (to_instance a) \<in> set dirty"
    "\<forall>d \<in> set dirty. \<exists>q \<in> set (d_rows db). below (d_rows db) a q \<and> d = after (tree_nodes db i) (to_instance q)
        \<and> revived_at (tree_nodes db i) (to_instance a) dirty (to_instance q)"
    "set (tree_nodes db i) = to_instance ` {q \<in> set (d_rows db). below (d_rows db) a q}"
proof -
  let ?nodes = "tree_nodes db i"
  have dist: "distinct (map r_id (d_rows db))" using tree_okD(1) [OF ok] .
  have wf: "wf_rows (d_rows db)" using ok by (simp add: tree_ok_def)
  obtain a where get: "get_row db i = Some a" using u by (auto simp: retry_process_def split: option.splits)
  then have a: "a \<in> set (d_rows db)" "r_id a = i" using get_row_eq [OF dist] by auto
  have parent: "r_parent a = []"
    using u get by (auto simp: retry_process_def require_root_def split: option.splits if_splits list.splits)
  have st: "reviving (to_instance a)"
    using u get by (auto simp: retry_process_def reviving_def split: option.splits if_splits)
  have nodes: "set ?nodes = to_instance ` {q \<in> set (d_rows db). below (d_rows db) a q}"
    using subtree_iff [OF wf a(1)] a(2) by (auto simp: tree_nodes_def)
  have trm: "\<forall>k \<in> set ?nodes. terminal (inst_status k)"
    using terminal_below [OF ok] reviving_terminal [OF st] by (auto simp: nodes)
  obtain rt x dirty where rt: "find (\<lambda>k. inst_id k = i) ?nodes = Some rt"
    and rev: "revive (length (d_rows db)) db force ?nodes rt = Inr (x, dirty)"
    and db': "db' = fold (save_revived now) dirty db"
    using u get by (auto simp: retry_process_def and_then_eq_Inr Let_def split: option.splits if_splits prod.splits)
  have node_row: "\<exists>q \<in> set (d_rows db). below (d_rows db) a q \<and> k = to_instance q" if "k \<in> set ?nodes" for k
    using that by (auto simp: nodes)
  have "rt = to_instance a"
    using find_SomeD [OF rt] node_row same_id_same_row [OF dist] a by force
  note spec = revive_spec [OF trm _ rev, unfolded this]
  have d: "\<exists>q \<in> set (d_rows db). below (d_rows db) a q \<and> d = after ?nodes (to_instance q)
      \<and> revived_at ?nodes (to_instance a) dirty (to_instance q)" if dd: "d \<in> set dirty" for d
  proof -
    obtain m where m: "d = after ?nodes m" "revived_at ?nodes (to_instance a) dirty m"
      using spec reviving_terminal [OF st] dd by blast
    then have "m = to_instance a \<or> m \<in> set ?nodes" by (auto simp: revived_at_def)
    then obtain q where "q \<in> set (d_rows db)" "below (d_rows db) a q" "m = to_instance q"
      using node_row a(1) by blast
    with m show ?thesis by blast
  qed
  have uniq: "d = e" if de: "d \<in> set dirty" "e \<in> set dirty" "inst_id d = inst_id e" for d e
  proof -
    obtain q where q: "q \<in> set (d_rows db)" "d = after ?nodes (to_instance q)" using d [OF de(1)] by blast
    obtain p where p: "p \<in> set (d_rows db)" "e = after ?nodes (to_instance p)" using d [OF de(2)] by blast
    have "q = p" using same_id_same_row [OF dist q(1) p(1)] de(3) q(2) p(2) by simp
    with q p show ?thesis by simp
  qed
  have "d_rows db' = map (upd now dirty) (d_rows db)"
    unfolding db' by (rule fold_save_revived) (rule uniq)
  moreover have "after ?nodes (to_instance a) \<in> set dirty"
    using spec reviving_terminal [OF st] st by blast
  ultimately show thesis using that [OF a parent st _ _ _ nodes] d by blast
qed

text \<open>Which rows change, and to what.\<close>

lemma retry_hit:
  assumes ok: "tree_ok (d_rows db)" and u: "retry_process now i force db = Inr db'"
  obtains a hit where
    "a \<in> set (d_rows db)" "r_id a = i" "r_parent a = []" "a \<in> hit"
    "hit \<subseteq> {q \<in> set (d_rows db). below (d_rows db) a q \<and> reviving (to_instance q)}"
    "d_rows db' = map (\<lambda>q. if q \<in> hit
       then write_revived now (revived (wait_after (tree_nodes db i) (to_instance q)) (to_instance q)) q else q) (d_rows db)"
    "\<And>q. q \<in> hit \<Longrightarrow> q \<noteq> a \<Longrightarrow> \<exists>p \<in> hit. r_parent q = r_id p \<and> r_spawn_task q = r_task p \<and> r_task p \<noteq> []"
    "\<And>p q. p \<in> hit \<Longrightarrow> q \<in> set (d_rows db) \<Longrightarrow> r_parent q = r_id p \<Longrightarrow> r_spawn_task q = r_task p
       \<Longrightarrow> r_task p \<noteq> [] \<Longrightarrow> reviving (to_instance q) \<Longrightarrow> q \<in> hit"
    "\<And>q. q \<in> hit \<Longrightarrow> wait_after (tree_nodes db i) (to_instance q) = Waiting \<longleftrightarrow>
       r_task q \<noteq> [] \<and> (\<exists>k \<in> set (d_rows db). r_parent k = r_id q \<and> r_spawn_task k = r_task q \<and> reviving (to_instance k))"
proof -
  let ?nodes = "tree_nodes db i"
  have dist: "distinct (map r_id (d_rows db))" using tree_okD(1) [OF ok] .
  have wf: "wf_rows (d_rows db)" using ok by (simp add: tree_ok_def)
  obtain a dirty where a: "a \<in> set (d_rows db)" "r_id a = i" "r_parent a = []" "reviving (to_instance a)"
    and rows: "d_rows db' = map (upd now dirty) (d_rows db)"
    and ad: "after ?nodes (to_instance a) \<in> set dirty"
    and d: "\<forall>d \<in> set dirty. \<exists>q \<in> set (d_rows db). below (d_rows db) a q \<and> d = after ?nodes (to_instance q)
        \<and> revived_at ?nodes (to_instance a) dirty (to_instance q)"
    and nodes: "set ?nodes = to_instance ` {q \<in> set (d_rows db). below (d_rows db) a q}"
    by (rule retry_dirty [OF ok u]) blast
  define hit where "hit = {q \<in> set (d_rows db). after ?nodes (to_instance q) \<in> set dirty}"
  have hitD: "below (d_rows db) a q \<and> revived_at ?nodes (to_instance a) dirty (to_instance q)" if "q \<in> hit" for q
  proof -
    from that have q: "q \<in> set (d_rows db)" "after ?nodes (to_instance q) \<in> set dirty" by (auto simp: hit_def)
    obtain q' where q': "q' \<in> set (d_rows db)" "below (d_rows db) a q'"
        "after ?nodes (to_instance q) = after ?nodes (to_instance q')"
        "revived_at ?nodes (to_instance a) dirty (to_instance q')"
      using bspec [OF d q(2)] by blast
    then have "r_id q = r_id q'" by (metis after_simps(1) to_instance_simps(1))
    then have "q = q'" using same_id_same_row [OF dist q(1) q'(1)] by simp
    with q' show ?thesis by simp
  qed
  have kids: "to_instance k \<in> set (batch_of ?nodes (to_instance q))
       \<longleftrightarrow> r_parent k = r_id q \<and> r_spawn_task k = r_task q"
    if "k \<in> set (d_rows db)" "q \<in> set (d_rows db)" "below (d_rows db) a q" for k q
  proof -
    have "r_parent k \<noteq> [] \<and> below (d_rows db) a k" if "r_parent k = r_id q"
    proof -
      have "(q, k) \<in> child_rel (d_rows db)" "r_id q \<noteq> []"
        using \<open>k \<in> _\<close> \<open>q \<in> _\<close> that wf_id [OF wf] by (auto simp: child_rel_def)
      with \<open>below (d_rows db) a q\<close> that show ?thesis by (auto intro: rtrancl_into_rtrancl)
    qed
    with that(1) nodes show ?thesis by (auto simp: batch_of_def)
  qed
  have kid_row: "\<exists>k \<in> set (d_rows db). m = to_instance k" if "m \<in> set (batch_of ?nodes x)" for m x
    using that nodes by (auto simp: batch_of_def)
  have upd_hit: "upd now dirty q = write_revived now (revived (wait_after ?nodes (to_instance q)) (to_instance q)) q"
    if q: "q \<in> hit" for q
  proof -
    have "find (\<lambda>d. inst_id d = r_id q) dirty \<noteq> None"
      using q by (auto simp: hit_def find_None_iff intro!: bexI [of _ "after ?nodes (to_instance q)"])
    then obtain e where e: "find (\<lambda>d. inst_id d = r_id q) dirty = Some e" by blast
    then have "e \<in> set dirty" "inst_id e = r_id q" using find_SomeD [OF e] by simp_all
    then obtain q' where "q' \<in> set (d_rows db)" "e = after ?nodes (to_instance q')" using d by blast
    moreover from this \<open>inst_id e = r_id q\<close> have "q' = q"
      using same_id_same_row [OF dist] q by (auto simp: hit_def)
    moreover have "reviving (to_instance q)" using hitD [OF q] by (simp add: revived_at_def)
    ultimately show ?thesis using e by (simp add: upd_def after_def)
  qed
  have upd_miss: "upd now dirty q = q" if q: "q \<in> set (d_rows db)" "q \<notin> hit" for q
  proof (cases "find (\<lambda>d. inst_id d = r_id q) dirty")
    case (Some e)
    then have e: "e \<in> set dirty" "inst_id e = r_id q" using find_SomeD [OF Some] by simp_all
    then obtain q' where q': "q' \<in> set (d_rows db)" "e = after ?nodes (to_instance q')" using d by blast
    with e have "q' = q" using same_id_same_row [OF dist] q by auto
    with q' e q show ?thesis by (simp add: hit_def)
  qed (simp add: upd_def)
  show thesis
  proof (rule that [of a hit, OF a(1-3)])
    show "a \<in> hit" using a ad by (simp add: hit_def)
    show "hit \<subseteq> {q \<in> set (d_rows db). below (d_rows db) a q \<and> reviving (to_instance q)}"
      using hitD by (auto simp: hit_def revived_at_def)
    show "d_rows db' = map (\<lambda>q. if q \<in> hit
       then write_revived now (revived (wait_after ?nodes (to_instance q)) (to_instance q)) q else q) (d_rows db)"
      unfolding rows using upd_hit upd_miss by (auto intro!: map_cong)
    show "\<exists>p \<in> hit. r_parent q = r_id p \<and> r_spawn_task q = r_task p \<and> r_task p \<noteq> []" if q: "q \<in> hit" "q \<noteq> a" for q
    proof -
      have ne: "to_instance q \<noteq> to_instance a"
        using q a same_id_same_row [OF dist] by (metis (no_types, lifting) hit_def mem_Collect_eq to_instance_simps(1))
      then obtain m' where m': "m' \<in> insert (to_instance a) (set ?nodes)" "after ?nodes m' \<in> set dirty"
          "to_instance q \<in> set (batch_of ?nodes m')" "inst_task m' \<noteq> []"
        using hitD [OF q(1)] unfolding revived_at_def by blast
      then obtain p where p: "p \<in> set (d_rows db)" "m' = to_instance p" using a(1) nodes by auto
      with m'(2) have "p \<in> hit" by (simp add: hit_def)
      moreover have "r_parent q = r_id p \<and> r_spawn_task q = r_task p"
        using kids [OF _ p(1)] hitD [OF \<open>p \<in> hit\<close>] m'(3) p(2) q(1) by (auto simp: hit_def)
      ultimately show ?thesis using m'(4) p(2) by auto
    qed
    show "q \<in> hit" if "p \<in> hit" "q \<in> set (d_rows db)" "r_parent q = r_id p" "r_spawn_task q = r_task p"
      "r_task p \<noteq> []" "reviving (to_instance q)" for p q
    proof -
      have "p \<in> set (d_rows db)" using that(1) by (simp add: hit_def)
      then have "to_instance q \<in> set (batch_of ?nodes (to_instance p))"
        using kids that(2-4) hitD [OF that(1)] by blast
      then have "after ?nodes (to_instance q) \<in> set dirty"
        using hitD [OF that(1)] that(5,6) by (auto simp: revived_at_def)
      with that(2) show ?thesis by (simp add: hit_def)
    qed
    show "wait_after ?nodes (to_instance q) = Waiting \<longleftrightarrow> r_task q \<noteq> [] \<and>
        (\<exists>k \<in> set (d_rows db). r_parent k = r_id q \<and> r_spawn_task k = r_task q \<and> reviving (to_instance k))"
      if q: "q \<in> hit" for q
    proof -
      have q': "q \<in> set (d_rows db)" "below (d_rows db) a q" using q hitD by (auto simp: hit_def)
      have "list_ex reviving (batch_of ?nodes (to_instance q)) \<longleftrightarrow>
          (\<exists>k \<in> set (d_rows db). r_parent k = r_id q \<and> r_spawn_task k = r_task q \<and> reviving (to_instance k))"
        using kids [OF _ q'] kid_row by (fastforce simp: list_ex_iff)
      then show ?thesis by (auto simp: wait_after_def)
    qed
  qed
qed

subsection \<open>The tree after a retry\<close>

lemma revived_simps [simp]:
  "inst_status (revived w m) = Running" "inst_wait (revived w m) = w" "inst_id (revived w m) = inst_id m"
  by (simp_all add: revived_def)

lemma retry_process_ok:
  assumes ok: "tree_ok (d_rows db)" and u: "retry_process now i force db = Inr db'"
  shows "tree_ok (d_rows db')"
proof -
  let ?rows = "d_rows db"
  obtain a hit where a: "a \<in> set ?rows" "r_parent a = []"
    and hit: "hit \<subseteq> {q \<in> set ?rows. below ?rows a q \<and> reviving (to_instance q)}"
    and rows: "d_rows db' = map (\<lambda>q. if q \<in> hit
       then write_revived now (revived (wait_after (tree_nodes db i) (to_instance q)) (to_instance q)) q else q) ?rows"
    and up: "\<And>q. q \<in> hit \<Longrightarrow> q \<noteq> a \<Longrightarrow> \<exists>p \<in> hit. r_parent q = r_id p \<and> r_spawn_task q = r_task p \<and> r_task p \<noteq> []"
    and down: "\<And>p q. p \<in> hit \<Longrightarrow> q \<in> set ?rows \<Longrightarrow> r_parent q = r_id p \<Longrightarrow> r_spawn_task q = r_task p
       \<Longrightarrow> r_task p \<noteq> [] \<Longrightarrow> reviving (to_instance q) \<Longrightarrow> q \<in> hit"
    and wait: "\<And>q. q \<in> hit \<Longrightarrow> wait_after (tree_nodes db i) (to_instance q) = Waiting \<longleftrightarrow>
       r_task q \<noteq> [] \<and> (\<exists>k \<in> set ?rows. r_parent k = r_id q \<and> r_spawn_task k = r_task q \<and> reviving (to_instance k))"
    by (rule retry_hit [OF ok u]) blast
  let ?f = "\<lambda>q. if q \<in> hit
       then write_revived now (revived (wait_after (tree_nodes db i) (to_instance q)) (to_instance q)) q else q"
  have place: "list_all2 same_place ?rows (map ?f ?rows)"
    by (simp add: list_all2_conv_all_nth same_place_def)
  have wf: "wf_rows (map ?f ?rows)"
    using wf_rows_place [OF place] ok by (simp add: tree_ok_def)
  have hit_rows: "q \<in> set ?rows" "reviving (to_instance q)" "terminal (r_status q)" if "q \<in> hit" for q
    using hit that reviving_terminal [of "to_instance q"] by auto
  have aw: "awaited (?f p) (?f q)" if "p \<in> hit" "q \<in> hit" "r_parent q = r_id p" "r_spawn_task q = r_task p" for p q
    using that by (simp add: awaited_def)
  have "child_linked (map ?f ?rows) (?f q)" if q: "q \<in> set ?rows" for q
  proof (cases "q \<in> hit")
    case True
    show ?thesis
    proof (cases "r_parent q = []")
      case False
      then have "q \<noteq> a" using a(2) by auto
      then obtain p where p: "p \<in> hit" "r_parent q = r_id p" "r_spawn_task q = r_task p" "r_task p \<noteq> []"
        using up [OF True] by blast
      then have "wait_after (tree_nodes db i) (to_instance p) = Waiting"
        using wait [OF p(1)] p(2-4) hit_rows [OF True] by blast
      then have "r_wait (?f p) = Waiting" "active (r_status (?f p))" using p(1) by simp_all
      with aw [OF p(1) True p(2,3)] hit_rows(1) [OF p(1)] show ?thesis
        unfolding child_linked_def by (metis (no_types, lifting) image_eqI list.set_map)
    qed (use True in \<open>simp add: child_linked_def\<close>)
  next
    case False
    show ?thesis
    proof (cases "r_parent q \<noteq> [] \<and> active (r_status q)")
      case True
      then obtain p where p: "p \<in> set ?rows" "r_wait p = Waiting" "active (r_status p)" "awaited p q"
        using tree_okD(3) [OF ok q] by (auto simp: child_linked_def)
      then have "p \<notin> hit" using hit_rows(3) by blast
      with p False show ?thesis by (auto simp: child_linked_def intro!: bexI [of _ p])
    qed (use False in \<open>auto simp: child_linked_def\<close>)
  qed
  moreover have "parent_served (map ?f ?rows) (?f q)" if q: "q \<in> set ?rows" for q
  proof (cases "q \<in> hit")
    case True
    show ?thesis
    proof (cases "wait_after (tree_nodes db i) (to_instance q) = Waiting")
      case w: True
      then obtain k where k: "k \<in> set ?rows" "r_parent k = r_id q" "r_spawn_task k = r_task q"
          "reviving (to_instance k)" "r_task q \<noteq> []"
        using wait [OF True] by blast
      then have "k \<in> hit" using down [OF True] by blast
      then have "awaited (?f q) (?f k)" using aw [OF True _ k(2,3)] by blast
      moreover have "?f k \<in> set (map ?f ?rows)" using k(1) by simp
      moreover have "active (r_status (?f q))" using True by simp
      ultimately show ?thesis unfolding parent_served_def by blast
    qed (use True in \<open>simp add: parent_served_def\<close>)
  next
    case False
    show ?thesis
    proof (cases "r_wait q = Waiting")
      case True
      then obtain c where c: "c \<in> set ?rows" "active (r_status q)" "awaited q c"
        using tree_okD(4) [OF ok q] by (auto simp: parent_served_def)
      then have "c \<notin> hit" using hit_rows(3) by (auto simp: awaited_def)
      with c False show ?thesis by (auto simp: parent_served_def intro!: bexI [of _ c])
    qed (use False in \<open>simp add: parent_served_def\<close>)
  qed
  ultimately have "child_linked (map ?f ?rows) r \<and> parent_served (map ?f ?rows) r"
    if "r \<in> set (map ?f ?rows)" for r
    using that unfolding set_map by (elim imageE) blast
  then show ?thesis unfolding rows tree_ok_def using wf by blast
qed

subsection \<open>The fuel is enough\<close>

lemma front_task_error_depth: "front_task_error db force node \<noteq> Some TreeTooDeep"
  by (auto simp: front_task_error_def load_task_def split: if_splits option.splits sum.splits)

lemma revive_enough:
  assumes wf: "wf_rows rows" and nodes: "set nodes \<subseteq> to_instance ` set rows"
  shows "q \<in> set rows \<Longrightarrow> length rows \<le> n + length (r_call_stack q) \<Longrightarrow>
     revive n db force nodes (to_instance q) \<noteq> Inl TreeTooDeep"
proof (induction n arbitrary: q)
  case 0
  then show ?case using stack_shorter [OF wf] by fastforce
next
  case (Suc n)
  have kid: "revive n db force nodes k \<noteq> Inl TreeTooDeep" if k: "k \<in> set (batch_of nodes (to_instance q))" for k
  proof -
    obtain c where c: "c \<in> set rows" "k = to_instance c" "r_parent c = r_id q" "r_parent c \<noteq> []"
      using k nodes by (auto simp: batch_of_def)
    then have "(q, c) \<in> child_rel rows" using Suc.prems(1) by (simp add: child_rel_def)
    then have "length (r_call_stack c) = Suc (length (r_call_stack q))" by (rule stack_length [OF wf])
    with Suc.IH [OF c(1)] Suc.prems(2) c(2) show ?thesis by simp
  qed
  then have "traverse (revive n db force nodes) (batch_of nodes (to_instance q)) \<noteq> Inl TreeTooDeep"
    by (auto dest!: traverse_Inl)
  then show ?case
    using front_task_error_depth [of db force "to_instance q"]
    by (auto simp: and_then_eq_Inl Let_def split: option.splits)
qed

subsection \<open>Properties\<close>

text \<open>
  C24: a retry never runs out of the depth bound of its walk: on any tree it either succeeds or
  gives one of the errors the code returns.
\<close>

theorem retry_reaches_every_level:
  assumes "tree_ok (d_rows db)"
  shows "retry_process now i force db \<noteq> Inl TreeTooDeep"
proof
  assume r: "retry_process now i force db = Inl TreeTooDeep"
  have wf: "wf_rows (d_rows db)" using assms by (simp add: tree_ok_def)
  have nodes: "set (tree_nodes db i) \<subseteq> to_instance ` set (d_rows db)" by (auto simp: tree_nodes_def)
  obtain rt where rt: "find (\<lambda>k. inst_id k = i) (tree_nodes db i) = Some rt"
    and too: "revive (length (d_rows db)) db force (tree_nodes db i) rt = Inl TreeTooDeep"
    using r by (auto simp: retry_process_def require_root_def and_then_eq_Inl Let_def
        split: option.splits if_splits list.splits prod.splits)
  then obtain q where "q \<in> set (d_rows db)" "rt = to_instance q"
    using find_SomeD [OF rt] nodes by blast
  with too revive_enough [OF wf nodes, of q "length (d_rows db)"] show False by simp
qed

lemma stale_columns [simp]:
  "r_input (write_revived now d q) = r_input q" "r_outputs (write_revived now d q) = r_outputs q"
  "r_output (write_revived now d q) = r_output q" "r_error (write_revived now d q) = []"
  "r_external (write_revived now d q) = r_external q"
  by (simp_all add: write_revived_def)

definition resumed :: "row \<Rightarrow> row \<Rightarrow> bool" where
  "resumed q q' \<longleftrightarrow> (r_status q = Failed \<or> r_status q = Cancelled) \<and> r_status q' = Running \<and> r_error q' = []
     \<and> r_id q' = r_id q \<and> r_task q' = r_task q \<and> r_input q' = r_input q \<and> r_outputs q' = r_outputs q
     \<and> r_worker q' = None \<and> r_wait q' \<noteq> External"

text \<open>
  C16: an accepted retry keeps the tree invariant, resumes the root, and touches no row but failed
  or cancelled ones of that root's tree, which become running at the task and with the data they
  had: completed work is never redone and no other tree is touched.
\<close>

theorem retry_resumes_interrupted_path:
  assumes "tree_ok (d_rows db)" and "retry_process now i force db = Inr db'"
  shows "tree_ok (d_rows db')
    \<and> (\<exists>a \<in> set (d_rows db). r_id a = i \<and> r_parent a = []
         \<and> (\<exists>a' \<in> set (d_rows db'). resumed a a')
         \<and> list_all2 (\<lambda>q q'. q' = q \<or> (below (d_rows db) a q \<and> resumed q q')) (d_rows db) (d_rows db'))"
proof -
  let ?rows = "d_rows db"
  obtain a hit where a: "a \<in> set ?rows" "r_id a = i" "r_parent a = []" "a \<in> hit"
    and hit: "hit \<subseteq> {q \<in> set ?rows. below ?rows a q \<and> reviving (to_instance q)}"
    and rows: "d_rows db' = map (\<lambda>q. if q \<in> hit
       then write_revived now (revived (wait_after (tree_nodes db i) (to_instance q)) (to_instance q)) q else q) ?rows"
    by (rule retry_hit [OF assms]) blast
  have res: "resumed q (write_revived now (revived (wait_after (tree_nodes db i) (to_instance q)) (to_instance q)) q)"
    if "q \<in> hit" for q
    using hit that by (auto simp: resumed_def reviving_def wait_after_def)
  have "list_all2 (\<lambda>q q'. q' = q \<or> (below ?rows a q \<and> resumed q q')) ?rows (d_rows db')"
    unfolding rows using res hit by (auto simp: list_all2_map2 intro!: list.rel_refl_strong)
  moreover have "\<exists>a' \<in> set (d_rows db'). resumed a a'"
    unfolding rows set_map using res [OF a(4)] a(4) by (intro bexI [OF _ imageI [OF a(1)]]) simp
  ultimately show ?thesis using retry_process_ok [OF assms] a by blast
qed

definition failed_tree :: "row list" where
  "failed_tree =
     [(blank_row ''a'')\<lparr>r_status := Failed, r_error := ''boom''\<rparr>,
      (blank_row ''b'')\<lparr>r_status := Failed, r_parent := ''a'', r_spawn_task := ''t'', r_call_stack := [''a'']\<rparr>,
      (blank_row ''c'')\<lparr>r_status := Completed, r_parent := ''a'', r_spawn_task := ''t'', r_call_stack := [''a'']\<rparr>]"

lemma failed_tree_ok: "tree_ok failed_tree"
  by (simp add: failed_tree_def tree_ok_def wf_rows_def stack_ok_def child_linked_def parent_served_def blank_row_def)

lemma failed_tree_retried:
  "(case retry_process 9 ''a'' True (db_with failed_tree) of Inl e \<Rightarrow> False | Inr db' \<Rightarrow>
     map r_status (d_rows db') = [Running, Running, Completed]
     \<and> map r_wait (d_rows db') = [Waiting, WaitNone, WaitNone])"
  by code_simp

theorem retry_reaches_every_level_witness:
  "retry_process 9 ''a'' True (db_with failed_tree) \<noteq> Inl TreeTooDeep"
  using retry_reaches_every_level [of "db_with failed_tree"] failed_tree_ok by simp

theorem retry_resumes_interrupted_path_witness:
  "\<exists>db'. retry_process 9 ''a'' True (db_with failed_tree) = Inr db' \<and> tree_ok (d_rows db')
     \<and> map r_status (d_rows db') = [Running, Running, Completed]
     \<and> map r_wait (d_rows db') = [Waiting, WaitNone, WaitNone]"
proof -
  obtain db' where "retry_process 9 ''a'' True (db_with failed_tree) = Inr db'"
     "map r_status (d_rows db') = [Running, Running, Completed]"
     "map r_wait (d_rows db') = [Waiting, WaitNone, WaitNone]"
    using failed_tree_retried by (auto split: sum.splits)
  with retry_resumes_interrupted_path [of "db_with failed_tree"] failed_tree_ok show ?thesis by auto
qed

end
