(* ===== verification/Leases.thy ===== *)
theory Leases
  imports Retry
begin

section \<open>Rows in a worker's hands\<close>

text \<open>
  While a worker advances an instance, other transactions run. None of them may change what the
  worker relies on: the row stays where it is in the tree, active and not waiting for children,
  and keeps the worker and a lease that ends no earlier. \<open>spares i\<close> says this of a change of the
  table for every such row but those of the instances \<open>i\<close>, whose own transaction it is.
\<close>

definition keeps_claim :: "row \<Rightarrow> row \<Rightarrow> bool" where
  "keeps_claim r q \<longleftrightarrow> same_place r q \<and> r_wait q \<noteq> Waiting \<and> active (r_status q) \<and> r_worker q = r_worker r
     \<and> (\<forall>l. r_lease r = Some l \<longrightarrow> (\<exists>l'. r_lease q = Some l' \<and> l \<le> l'))"

definition in_hand :: "row \<Rightarrow> bool" where
  "in_hand r \<longleftrightarrow> r_wait r \<noteq> Waiting \<and> active (r_status r)"

definition spares :: "string set \<Rightarrow> row list \<Rightarrow> row list \<Rightarrow> bool" where
  "spares i rows rows' \<longleftrightarrow> (\<forall>r \<in> set rows. r_id r \<notin> i \<longrightarrow> in_hand r \<longrightarrow> (\<exists>q \<in> set rows'. keeps_claim r q))"

lemma keeps_claim_refl: "in_hand r \<Longrightarrow> keeps_claim r r"
  by (simp add: keeps_claim_def in_hand_def same_place_def)

lemma keeps_claim_in_hand: "keeps_claim r q \<Longrightarrow> in_hand q \<and> r_id q = r_id r"
  by (simp add: keeps_claim_def in_hand_def same_place_def)

lemma keeps_claim_trans: "keeps_claim r q \<Longrightarrow> keeps_claim q p \<Longrightarrow> keeps_claim r p"
  unfolding keeps_claim_def same_place_def by (metis order_trans)

lemma spares_refl [simp]: "spares i rows rows"
  using keeps_claim_refl by (auto simp: spares_def)

lemma spares_trans [trans]:
  assumes "spares i rows rows'" and "spares i rows' rows''"
  shows "spares i rows rows''"
  unfolding spares_def
proof (intro ballI impI)
  fix r assume "r \<in> set rows" "r_id r \<notin> i" "in_hand r"
  then obtain q where "q \<in> set rows'" "keeps_claim r q" using assms(1) by (auto simp: spares_def)
  moreover from this obtain p where "p \<in> set rows''" "keeps_claim q p"
    using assms(2) keeps_claim_in_hand \<open>r_id r \<notin> i\<close> by (fastforce simp: spares_def)
  ultimately show "\<exists>q \<in> set rows''. keeps_claim r q" using keeps_claim_trans by blast
qed

lemma spares_weaken: "spares i rows rows' \<Longrightarrow> i \<subseteq> j \<Longrightarrow> spares j rows rows'"
  by (auto simp: spares_def)

lemma spares_update:
  assumes "\<And>r. r \<in> set rows \<Longrightarrow> P r \<Longrightarrow> r_id r \<notin> i \<Longrightarrow> in_hand r \<Longrightarrow> keeps_claim r (f r)"
  shows "spares i rows (update_where P f rows)"
  unfolding spares_def
proof (intro ballI impI)
  fix r assume r: "r \<in> set rows" "r_id r \<notin> i" "in_hand r"
  then have "keeps_claim r (if P r then f r else r)" using assms keeps_claim_refl by simp
  moreover have "(if P r then f r else r) \<in> set (update_where P f rows)"
    using r(1) by (auto simp: table_simps)
  ultimately show "\<exists>q \<in> set (update_where P f rows). keeps_claim r q" by blast
qed

lemma spares_append: "spares i rows (rows @ new)"
  using keeps_claim_refl by (auto simp: spares_def)

text \<open>A change of status only.\<close>

lemma keeps_claim_status:
  "in_hand r \<Longrightarrow> active st \<Longrightarrow> keeps_claim r (r\<lparr>r_status := st, r_updated_at := now\<rparr>)"
  by (simp add: keeps_claim_def in_hand_def same_place_def)

subsection \<open>The transactions\<close>

lemma update_instance_spares:
  assumes "update_instance hash now inst db = Inr db'"
  shows "spares {inst_id inst} (d_rows db) (d_rows db')"
proof -
  obtain cols where "d_rows db' = update_where (has_id (inst_id inst)) (write_row inst cols now) (d_rows db)"
    using update_instance_rows(1) [OF assms] by blast
  then show ?thesis by (simp only:) (rule spares_update, simp add: has_id_def)
qed

lemma update_instance_progress_spares:
  assumes "update_instance_progress hash now inst db = Inr db'"
  shows "spares {inst_id inst} (d_rows db) (d_rows db')"
proof -
  obtain cols where "d_rows db' = update_where (has_id (inst_id inst)) (write_row_progress inst cols now) (d_rows db)"
    using update_instance_progress_rows(1) [OF assms] by blast
  then show ?thesis by (simp only:) (rule spares_update, simp add: has_id_def)
qed

lemma fail_ancestors_spares: "spares i (d_rows db) (d_rows (fail_ancestors err now ids db))"
  unfolding fail_ancestors_def modify_rows_simps
  by (rule spares_update) (auto simp: keeps_claim_def in_hand_def same_place_def doomed_def)

text \<open>Waking a parent changes a row that waits, which nobody holds.\<close>

lemma wake_spares:
  assumes "\<And>r. r \<in> set (d_rows db) \<Longrightarrow> r_id r = p \<Longrightarrow> r_wait r = Waiting"
  shows "spares i (d_rows db) (d_rows (wake_parent now p db))"
  unfolding wake_parent_def modify_rows_simps
  by (rule spares_update) (use assms in \<open>auto simp: has_id_def in_hand_def\<close>)

lemma settle_batch_spares:
  assumes "w \<Longrightarrow> (\<And>r. r \<in> set (d_rows db) \<Longrightarrow> r_id r = p \<Longrightarrow> r_wait r = Waiting)"
  shows "spares i (d_rows db) (d_rows (settle_batch now w p t db))"
  using wake_spares assms by (simp add: settle_batch_def)

lemma is_waiting_all:
  assumes "distinct (map r_id (d_rows db))" and "is_waiting db p" and "r \<in> set (d_rows db)" and "r_id r = p"
  shows "r_wait r = Waiting"
  using is_waiting_row [OF assms(1,3)] assms(2,4) by simp

lemma update_instance_ids:
  assumes "update_instance hash now inst db = Inr db'"
  shows "map r_id (d_rows db') = map r_id (d_rows db)"
proof -
  obtain cols where "d_rows db' = update_where (has_id (inst_id inst)) (write_row inst cols now) (d_rows db)"
    using update_instance_rows(1) [OF assms] by blast
  then show ?thesis by (simp add: map_update_where)
qed

lemma update_instance_others:
  assumes "update_instance hash now inst db = Inr db'" and "r \<in> set (d_rows db')" and "r_id r \<noteq> inst_id inst"
  shows "r \<in> set (d_rows db)"
proof -
  obtain cols where "d_rows db' = update_where (has_id (inst_id inst)) (write_row inst cols now) (d_rows db)"
    using update_instance_rows(1) [OF assms(1)] by blast
  with assms(2,3) show ?thesis by (auto simp: table_simps has_id_def split: if_splits)
qed

lemma finish_child_spares:
  assumes d: "distinct (map r_id (d_rows db))" and p: "inst_parent child \<noteq> inst_id child"
      and u: "finish_child hash now child db = Inr db'"
  shows "spares {inst_id child} (d_rows db) (d_rows db')"
proof (cases "inst_parent child = []")
  case True
  with u update_instance_spares show ?thesis by (simp add: finish_child_def)
next
  case False
  with u obtain db1 where db1: "update_instance hash now child db = Inr db1"
    "db' = settle_batch now (is_waiting db (inst_parent child)) (inst_parent child) (inst_spawn_task child) db1"
    by (auto simp: finish_child_def Let_def and_then_eq_Inr)
  have "spares {inst_id child} (d_rows db1) (d_rows db')" unfolding db1(2)
    by (rule settle_batch_spares) (use update_instance_others [OF db1(1)] is_waiting_all [OF d] p in auto)
  with update_instance_spares [OF db1(1)] show ?thesis by (rule spares_trans)
qed

lemma fail_instance_and_ancestors_spares:
  assumes d: "distinct (map r_id (d_rows db))" and u: "fail_instance_and_ancestors hash now child db = Inr db'"
  shows "spares {inst_id child} (d_rows db) (d_rows db')"
proof -
  obtain db1 where db1: "update_instance hash now child db = Inr db1"
    using u by (auto simp: fail_instance_and_ancestors_def and_then_eq_Inr)
  define db2 where "db2 = (if inst_call_stack child = [] then db1
     else fail_ancestors (inst_error child) now (inst_call_stack child) db1)"
  have db': "db' = (if inst_parent child = [] then db2 else settle_batch now (is_waiting db2 (inst_parent child))
      (inst_parent child) (inst_spawn_task child) db2)"
    using u db1 by (auto simp: fail_instance_and_ancestors_def db2_def Let_def)
  have "map r_id (d_rows db2) = map r_id (d_rows db1)"
    by (simp add: db2_def fail_ancestors_def map_update_where doomed_def)
  then have d2: "distinct (map r_id (d_rows db2))" using d update_instance_ids [OF db1] by simp
  have "spares {inst_id child} (d_rows db) (d_rows db1)" by (rule update_instance_spares [OF db1])
  also have "spares {inst_id child} (d_rows db1) (d_rows db2)"
    by (simp add: db2_def fail_ancestors_spares)
  also have "spares {inst_id child} (d_rows db2) (d_rows db')"
    unfolding db' using settle_batch_spares [of "is_waiting db2 (inst_parent child)" db2 "inst_parent child"]
      is_waiting_all [OF d2] by auto
  finally show ?thesis .
qed

lemma set_external_result_spares: "spares i (d_rows db) (d_rows (set_external_result ext now k db))"
  unfolding set_external_result_def modify_rows_simps
  by (rule spares_update) (auto simp: keeps_claim_def in_hand_def same_place_def unparked_def)

lemma arm_external_spares:
  assumes "arm_external_or_consume_signal hash now t token input wake inst db = Inr (res, inst', db')"
  shows "spares {inst_id inst} (d_rows db) (d_rows db')"
    and "res \<noteq> None \<Longrightarrow> spares {} (d_rows db) (d_rows db')"
proof -
  have spare: "spares i (d_rows db) (d_rows (set_external_result ext now k (db\<lparr>d_signals := rest\<rparr>)))" for i ext k rest
    using set_external_result_spares [of i "db\<lparr>d_signals := rest\<rparr>" ext now k] by simp
  have "(res = None \<and> update_instance hash now (parked t token input wake inst) db = Inr db')
     \<or> (\<forall>i. spares i (d_rows db) (d_rows db'))"
  proof (cases "pop_oldest (inst_id inst) t (d_signals db)")
    case None
    with assms show ?thesis by (auto simp: arm_external_or_consume_signal_def and_then_eq_Inr split: if_splits)
  next
    case (Some a)
    then obtain p rest where "pop_oldest (inst_id inst) t (d_signals db) = Some (p, rest)" by (cases a) auto
    with assms spare show ?thesis by (auto simp: arm_external_or_consume_signal_def and_then_eq_Inr split: if_splits)
  qed
  then show "spares {inst_id inst} (d_rows db) (d_rows db')" and "res \<noteq> None \<Longrightarrow> spares {} (d_rows db) (d_rows db')"
    using update_instance_spares [of hash now "parked t token input wake inst" db db'] by (auto simp: parked_def)
qed

lemma insert_children_append:
  "insert_children hash ts st cs db = Inr db' \<Longrightarrow> \<exists>new. d_rows db' = d_rows db @ new"
proof (induction cs arbitrary: ts db)
  case (Cons c cs)
  then obtain cols db1 db2 where *: "persist_context hash ts c db = Inr (cols, db1)"
    "insert_row (insert_params c cols st ts ts) db1 = Inr db2" "insert_children hash (ts + 1) st cs db2 = Inr db'"
    by (auto simp: and_then_eq_Inr)
  with Cons.IH [OF *(3)] insert_row_rows(1) [OF *(2)] persist_context_rows(1) [OF *(1)] show ?case by auto
qed simp

lemma spawn_children_and_wait_spares:
  assumes "spawn_children_and_wait hash now parent cs db = Inr db'"
  shows "spares {inst_id parent} (d_rows db) (d_rows db')"
proof (cases "cs = []")
  case False
  with assms obtain r :: row and db1 where "insert_children hash now (r_status r) cs db = Inr db1"
    "update_instance hash now (suspended (r_status r) parent) db1 = Inr db'"
    by (auto simp: spawn_children_and_wait_def and_then_eq_Inr split: option.splits if_splits)
  moreover from this(1) have "spares {inst_id parent} (d_rows db) (d_rows db1)"
    using insert_children_append spares_append by metis
  ultimately show ?thesis
    using spares_trans [of "{inst_id parent}" "d_rows db" "d_rows db1" "d_rows db'"]
      update_instance_spares [of hash now "suspended (r_status r) parent" db1 db'] by (simp add: suspended_def)
qed (use assms in \<open>simp add: spawn_children_and_wait_def\<close>)

lemma deliver_signal_spares:
  assumes "deliver_signal now k t sid result db = Inr (b, db')"
  shows "spares i (d_rows db) (d_rows db')"
  using assms set_external_result_spares
  by (auto simp: deliver_signal_def and_then_eq_Inr insert_signal_def split: if_splits option.splits)

lemma resolve_external_task_spares:
  assumes "resolve_external_task now k token result db = Inr db'"
  shows "spares i (d_rows db) (d_rows db')"
  using assms set_external_result_spares
  by (auto simp: resolve_external_task_def and_then_eq_Inr split: if_splits option.splits)

lemma cancel_process_spares:
  assumes "cancel_process now k db = Inr db'"
  shows "spares i (d_rows db) (d_rows db')"
proof -
  have "d_rows db' = update_where (\<lambda>q. r_id q \<in> set (subtree db k) \<and> r_status q = Running) (cancelled_row now) (d_rows db)"
    using assms by (auto simp: cancel_process_def split: option.splits)
  then show ?thesis
    by (simp only:) (rule spares_update, simp add: cancelled_row_def keeps_claim_status)
qed

lemma retry_process_spares:
  assumes ok: "tree_ok (d_rows db)" and u: "retry_process now k force db = Inr db'"
  shows "spares i (d_rows db) (d_rows db')"
proof -
  obtain hit where hit: "hit \<subseteq> {q \<in> set (d_rows db). reviving (to_instance q)}"
    and rows: "d_rows db' = map (\<lambda>q. if q \<in> hit
       then write_revived now (revived (wait_after (tree_nodes db k) (to_instance q)) (to_instance q)) q else q) (d_rows db)"
    by (rule retry_hit [OF ok u]) blast
  have "q \<notin> hit" if "in_hand q" for q
    using hit that reviving_terminal [of "to_instance q"] by (auto simp: in_hand_def)
  then have "q \<in> set (d_rows db')" if "q \<in> set (d_rows db)" "in_hand q" for q
    using that unfolding rows by (intro list.set_map [THEN equalityD2, THEN subsetD] image_eqI [where x = q]) simp_all
  then show ?thesis
    using keeps_claim_refl by (auto simp: spares_def)
qed

lemma renew_worker_leases_spares:
  assumes "distinct (map r_id (d_rows db))"
  shows "spares i (d_rows db) (d_rows (renew_worker_leases worker now dur db))"
proof -
  have "d_rows (renew_worker_leases worker now dur db)
      = update_where (renewable worker (now + dur)) (renewed (now + dur)) (d_rows db)"
    using renew_loop_all [OF assms] by (simp add: renew_worker_leases_def)
  then show ?thesis
    by (simp only:) (rule spares_update,
      auto simp: keeps_claim_def in_hand_def same_place_def renewed_def renewable_def split: option.splits)
qed

text \<open>A claim takes only rows without a live lease.\<close>

lemma claim_instances_live:
  assumes c: "claim_instances worker now dur limit db = (claimed, db')"
      and d: "distinct (map r_id (d_rows db))" and r: "r \<in> set (d_rows db)" "live_lease now r"
  shows "r \<in> set (d_rows db')" and "r_id r \<notin> inst_id ` set claimed"
proof -
  have no: "r_id r \<notin> r_id ` set (candidates now limit db)"
  proof
    assume "r_id r \<in> r_id ` set (candidates now limit db)"
    then obtain q where q: "q \<in> set (candidates now limit db)" "r_id q = r_id r" by auto
    with candidates_claimable have "claimable now q \<and> q \<in> set (d_rows db)" by blast
    with q(2) same_id_same_row [OF d _ r(1)] have "claimable now r" by auto
    with r(2) show False by (auto simp: claimable_def live_lease_def due_def split: option.splits)
  qed
  then show "r_id r \<notin> inst_id ` set claimed"
    using c by (auto simp: claim_instances_def Let_def claimed_instance_def)
  show "r \<in> set (d_rows db')"
    using c r(1) no by (auto simp: claim_instances_def Let_def table_simps intro!: bexI [of _ r])
qed

end
