(* ===== verification/Settled.thy ===== *)
theory Settled
  imports Leases
begin

section \<open>What a transaction leaves alone\<close>

text \<open>
  Beside the rows in a worker's hands, two more things no transaction but a retry disturbs: a
  row that reached a terminal status keeps its result, and a row that names a worker has a lease.
  \<open>leaves i\<close> collects all three for every row but those of the instances \<open>i\<close>.
\<close>

definition same_result :: "row \<Rightarrow> row \<Rightarrow> bool" where
  "same_result r q \<longleftrightarrow> r_id q = r_id r \<and> r_status q = r_status r \<and> r_task q = r_task r
     \<and> r_outputs q = r_outputs r \<and> r_output q = r_output r \<and> r_error_data q = r_error_data r \<and> r_error q = r_error r"

definition freezes :: "string set \<Rightarrow> row list \<Rightarrow> row list \<Rightarrow> bool" where
  "freezes i rows rows' \<longleftrightarrow>
     (\<forall>r \<in> set rows. r_id r \<notin> i \<longrightarrow> terminal (r_status r) \<longrightarrow> (\<exists>q \<in> set rows'. same_result r q))"

definition leased_rows :: "row list \<Rightarrow> bool" where
  "leased_rows rows \<longleftrightarrow> (\<forall>r \<in> set rows. r_worker r \<noteq> None \<longrightarrow> r_lease r \<noteq> None)"

definition leaves :: "string set \<Rightarrow> row list \<Rightarrow> row list \<Rightarrow> bool" where
  "leaves i rows rows' \<longleftrightarrow>
     spares i rows rows' \<and> freezes i rows rows' \<and> (leased_rows rows \<longrightarrow> leased_rows rows')"

lemma same_result_refl [simp]: "same_result r r"
  by (simp add: same_result_def)

lemma same_result_trans: "same_result r q \<Longrightarrow> same_result q p \<Longrightarrow> same_result r p"
  by (simp add: same_result_def)

lemma freezes_refl [simp]: "freezes i rows rows"
  unfolding freezes_def using same_result_refl by blast

lemma freezes_trans [trans]:
  assumes "freezes i rows rows'" and "freezes i rows' rows''"
  shows "freezes i rows rows''"
  unfolding freezes_def
proof (intro ballI impI)
  fix r assume "r \<in> set rows" "r_id r \<notin> i" "terminal (r_status r)"
  then obtain q where "q \<in> set rows'" "same_result r q" using assms(1) by (auto simp: freezes_def)
  moreover from this obtain p where "p \<in> set rows''" "same_result q p"
    using assms(2) \<open>r_id r \<notin> i\<close> \<open>terminal (r_status r)\<close> by (fastforce simp: freezes_def same_result_def)
  ultimately show "\<exists>q \<in> set rows''. same_result r q" using same_result_trans by blast
qed

lemma freezes_weaken: "freezes i rows rows' \<Longrightarrow> i \<subseteq> j \<Longrightarrow> freezes j rows rows'"
  by (auto simp: freezes_def)

lemma leaves_refl [simp]: "leaves i rows rows"
  by (simp add: leaves_def)

lemma leaves_trans [trans]: "leaves i rows rows' \<Longrightarrow> leaves i rows' rows'' \<Longrightarrow> leaves i rows rows''"
  using spares_trans freezes_trans by (auto simp: leaves_def)

lemma leaves_weaken: "leaves i rows rows' \<Longrightarrow> i \<subseteq> j \<Longrightarrow> leaves j rows rows'"
  using spares_weaken freezes_weaken by (auto simp: leaves_def)

lemma leaves_spares: "leaves i rows rows' \<Longrightarrow> spares i rows rows'"
  by (simp add: leaves_def)

lemma freezes_update:
  assumes "\<And>r. r \<in> set rows \<Longrightarrow> P r \<Longrightarrow> r_id r \<notin> i \<Longrightarrow> terminal (r_status r) \<Longrightarrow> same_result r (f r)"
  shows "freezes i rows (update_where P f rows)"
  unfolding freezes_def
proof (intro ballI impI)
  fix r assume r: "r \<in> set rows" "r_id r \<notin> i" "terminal (r_status r)"
  then have "same_result r (if P r then f r else r)" using assms by simp
  moreover have "(if P r then f r else r) \<in> set (update_where P f rows)"
    using r(1) by (auto simp: table_simps)
  ultimately show "\<exists>q \<in> set (update_where P f rows). same_result r q" by blast
qed

lemma leased_update:
  assumes "leased_rows rows" and "\<And>r. r \<in> set rows \<Longrightarrow> P r \<Longrightarrow> r_worker (f r) \<noteq> None \<Longrightarrow> r_lease (f r) \<noteq> None"
  shows "leased_rows (update_where P f rows)"
  using assms by (auto simp: leased_rows_def table_simps split: if_splits)

text \<open>A table change that is an update or an addition leaves the rest if it spares it.\<close>

lemma leaves_update:
  assumes "spares i rows (update_where P f rows)"
      and "\<And>r. r \<in> set rows \<Longrightarrow> P r \<Longrightarrow> r_id r \<notin> i \<Longrightarrow> terminal (r_status r) \<Longrightarrow> same_result r (f r)"
      and "\<And>r. r \<in> set rows \<Longrightarrow> P r \<Longrightarrow> (r_worker r \<noteq> None \<longrightarrow> r_lease r \<noteq> None) \<Longrightarrow> r_worker (f r) \<noteq> None \<Longrightarrow> r_lease (f r) \<noteq> None"
  shows "leaves i rows (update_where P f rows)"
  unfolding leaves_def
proof (intro conjI impI)
  show "leased_rows (update_where P f rows)" if "leased_rows rows"
    by (rule leased_update [OF that]) (use that assms(3) in \<open>auto simp: leased_rows_def\<close>)
qed (use assms freezes_update in auto)

lemma leaves_append: "\<forall>r \<in> set new. r_worker r = None \<Longrightarrow> leaves i rows (rows @ new)"
  using spares_append by (auto simp: leaves_def freezes_def leased_rows_def intro: same_result_refl)

subsection \<open>The transactions\<close>

lemma update_instance_leaves:
  assumes "update_instance hash now inst db = Inr db'"
  shows "leaves {inst_id inst} (d_rows db) (d_rows db')"
proof -
  obtain cols where *: "d_rows db' = update_where (has_id (inst_id inst)) (write_row inst cols now) (d_rows db)"
    using update_instance_rows(1) [OF assms] by blast
  show ?thesis
    unfolding * by (rule leaves_update) (use update_instance_spares [OF assms] * in \<open>simp_all add: has_id_def\<close>)
qed

lemma update_instance_progress_leaves:
  assumes "update_instance_progress hash now inst db = Inr db'"
  shows "leaves {inst_id inst} (d_rows db) (d_rows db')"
proof -
  obtain cols where *: "d_rows db' = update_where (has_id (inst_id inst)) (write_row_progress inst cols now) (d_rows db)"
    using update_instance_progress_rows(1) [OF assms] by blast
  show ?thesis
    unfolding * by (rule leaves_update) (use update_instance_progress_spares [OF assms] * in \<open>simp_all add: has_id_def\<close>)
qed

lemma fail_ancestors_leaves: "leaves i (d_rows db) (d_rows (fail_ancestors err now ids db))"
  using fail_ancestors_spares [where i = i and db = db and err = err and now = now and ids = ids] unfolding fail_ancestors_def modify_rows_simps
  by (intro leaves_update) (auto simp: terminal_def doomed_def)

lemma settle_batch_leaves:
  assumes "w \<Longrightarrow> (\<And>r. r \<in> set (d_rows db) \<Longrightarrow> r_id r = p \<Longrightarrow> r_wait r = Waiting)"
  shows "leaves i (d_rows db) (d_rows (settle_batch now w p t db))"
proof (cases "w \<and> count_active_siblings db p t = 0")
  case True
  then have eq: "d_rows (settle_batch now w p t db) = update_where (has_id p) (woken now) (d_rows db)"
    by (simp add: settle_batch_def wake_parent_def)
  have "spares i (d_rows db) (d_rows (settle_batch now w p t db))"
    using assms by (rule settle_batch_spares)
  then show ?thesis
    unfolding eq by (rule leaves_update) (simp_all add: same_result_def woken_def)
next
  case False
  then have "settle_batch now w p t db = db" by (auto simp: settle_batch_def)
  then show ?thesis by simp
qed

lemma finish_child_leaves:
  assumes d: "distinct (map r_id (d_rows db))" and p: "inst_parent child \<noteq> inst_id child"
      and u: "finish_child hash now child db = Inr db'"
  shows "leaves {inst_id child} (d_rows db) (d_rows db')"
proof (cases "inst_parent child = []")
  case True
  with u update_instance_leaves show ?thesis by (simp add: finish_child_def)
next
  case False
  with u obtain db1 where db1: "update_instance hash now child db = Inr db1"
    "db' = settle_batch now (is_waiting db (inst_parent child)) (inst_parent child) (inst_spawn_task child) db1"
    by (auto simp: finish_child_def Let_def and_then_eq_Inr)
  have "leaves {inst_id child} (d_rows db1) (d_rows db')" unfolding db1(2)
    by (rule settle_batch_leaves) (use update_instance_others [OF db1(1)] is_waiting_all [OF d] p in auto)
  with update_instance_leaves [OF db1(1)] show ?thesis by (rule leaves_trans)
qed

lemma fail_instance_and_ancestors_leaves:
  assumes d: "distinct (map r_id (d_rows db))" and u: "fail_instance_and_ancestors hash now child db = Inr db'"
  shows "leaves {inst_id child} (d_rows db) (d_rows db')"
proof -
  obtain db1 where db1: "update_instance hash now child db = Inr db1"
    using u by (auto simp: fail_instance_and_ancestors_def and_then_eq_Inr)
  define db2 where "db2 = (if inst_call_stack child = [] then db1
     else fail_ancestors (inst_error child) now (inst_call_stack child) db1)"
  have db': "db' = (if inst_parent child = [] then db2 else settle_batch now (is_waiting db2 (inst_parent child))
      (inst_parent child) (inst_spawn_task child) db2)"
    using u db1 by (auto simp: fail_instance_and_ancestors_def db2_def Let_def)
  have "map r_id (d_rows db2) = map r_id (d_rows db1)"
    by (simp add: db2_def fail_ancestors_def map_update_where doomed_def)
  then have d2: "distinct (map r_id (d_rows db2))" using d update_instance_ids [OF db1] by simp
  have "leaves {inst_id child} (d_rows db) (d_rows db1)" by (rule update_instance_leaves [OF db1])
  also have "leaves {inst_id child} (d_rows db1) (d_rows db2)"
    by (simp add: db2_def fail_ancestors_leaves)
  also have "leaves {inst_id child} (d_rows db2) (d_rows db')"
    unfolding db' using settle_batch_leaves [of "is_waiting db2 (inst_parent child)" db2 "inst_parent child"]
      is_waiting_all [OF d2] by auto
  finally show ?thesis .
qed

lemma set_external_result_leaves: "leaves i (d_rows db) (d_rows (set_external_result ext now k db))"
  using set_external_result_spares [of i db ext now k] unfolding set_external_result_def modify_rows_simps
  by (rule leaves_update) (auto simp: same_result_def unparked_def)

lemma arm_external_leaves:
  assumes "arm_external_or_consume_signal hash now t token input wake inst db = Inr (res, inst', db')"
  shows "leaves {inst_id inst} (d_rows db) (d_rows db')"
    and "res \<noteq> None \<Longrightarrow> leaves {} (d_rows db) (d_rows db')"
proof -
  have leave: "leaves i (d_rows db) (d_rows (set_external_result ext now k (db\<lparr>d_signals := rest\<rparr>)))" for i ext k rest
    using set_external_result_leaves [of i "db\<lparr>d_signals := rest\<rparr>" ext now k] by simp
  have "(res = None \<and> update_instance hash now (parked t token input wake inst) db = Inr db')
     \<or> (\<forall>i. leaves i (d_rows db) (d_rows db'))"
  proof (cases "pop_oldest (inst_id inst) t (d_signals db)")
    case None
    with assms show ?thesis by (auto simp: arm_external_or_consume_signal_def and_then_eq_Inr split: if_splits)
  next
    case (Some a)
    then obtain p rest where "pop_oldest (inst_id inst) t (d_signals db) = Some (p, rest)" by (cases a) auto
    with assms leave show ?thesis by (auto simp: arm_external_or_consume_signal_def and_then_eq_Inr split: if_splits)
  qed
  then show "leaves {inst_id inst} (d_rows db) (d_rows db')" and "res \<noteq> None \<Longrightarrow> leaves {} (d_rows db) (d_rows db')"
    using update_instance_leaves [of hash now "parked t token input wake inst" db db'] by (auto simp: parked_def)
qed

lemma insert_children_new:
  "insert_children hash ts st cs db = Inr db' \<Longrightarrow> \<exists>new. d_rows db' = d_rows db @ new \<and> (\<forall>r \<in> set new. r_worker r = None)"
proof (induction cs arbitrary: ts db)
  case (Cons c cs)
  then obtain cols db1 db2 where *: "persist_context hash ts c db = Inr (cols, db1)"
    "insert_row (insert_params c cols st ts ts) db1 = Inr db2" "insert_children hash (ts + 1) st cs db2 = Inr db'"
    by (auto simp: and_then_eq_Inr)
  with Cons.IH [OF *(3)] insert_row_rows(1) [OF *(2)] persist_context_rows(1) [OF *(1)] show ?case
    by (auto simp: insert_params_def)
qed simp

lemma spawn_children_and_wait_leaves:
  assumes "spawn_children_and_wait hash now parent cs db = Inr db'"
  shows "leaves {inst_id parent} (d_rows db) (d_rows db')"
proof (cases "cs = []")
  case False
  with assms obtain r :: row and db1 where "insert_children hash now (r_status r) cs db = Inr db1"
    "update_instance hash now (suspended (r_status r) parent) db1 = Inr db'"
    by (auto simp: spawn_children_and_wait_def and_then_eq_Inr split: option.splits if_splits)
  moreover from this(1) have "leaves {inst_id parent} (d_rows db) (d_rows db1)"
    using insert_children_new leaves_append by metis
  ultimately show ?thesis
    using leaves_trans [of "{inst_id parent}" "d_rows db" "d_rows db1" "d_rows db'"]
      update_instance_leaves [of hash now "suspended (r_status r) parent" db1 db'] by (simp add: suspended_def)
qed (use assms in \<open>simp add: spawn_children_and_wait_def\<close>)

lemma deliver_signal_leaves:
  assumes "deliver_signal now k t sid result db = Inr (b, db')"
  shows "leaves i (d_rows db) (d_rows db')"
  using assms set_external_result_leaves
  by (auto simp: deliver_signal_def and_then_eq_Inr insert_signal_def split: if_splits option.splits)

lemma resolve_external_task_leaves:
  assumes "resolve_external_task now k token result db = Inr db'"
  shows "leaves i (d_rows db) (d_rows db')"
  using assms set_external_result_leaves
  by (auto simp: resolve_external_task_def and_then_eq_Inr split: if_splits option.splits)

lemma cancel_process_leaves:
  assumes "cancel_process now k db = Inr db'"
  shows "leaves i (d_rows db) (d_rows db')"
proof -
  have *: "d_rows db' = update_where (\<lambda>q. r_id q \<in> set (subtree db k) \<and> r_status q = Running) (cancelled_row now) (d_rows db)"
    using assms by (auto simp: cancel_process_def split: option.splits)
  show ?thesis
    using cancel_process_spares [OF assms, of i] unfolding *
    by (rule leaves_update) (auto simp: terminal_def cancelled_row_def)
qed

lemma renew_worker_leases_leaves:
  assumes "distinct (map r_id (d_rows db))"
  shows "leaves i (d_rows db) (d_rows (renew_worker_leases worker now dur db))"
proof -
  have *: "d_rows (renew_worker_leases worker now dur db)
      = update_where (renewable worker (now + dur)) (renewed (now + dur)) (d_rows db)"
    using renew_loop_all [OF assms] by (simp add: renew_worker_leases_def)
  show ?thesis
    using renew_worker_leases_spares [OF assms, of i worker now dur] unfolding *
    by (rule leaves_update) (auto simp: same_result_def renewed_def)
qed

text \<open>A claim and a retry touch rows in their own way; a retry leaves completed rows alone.\<close>

lemma claim_instances_settled:
  assumes "claim_instances worker now dur limit db = (claimed, db')"
  shows "freezes i (d_rows db) (d_rows db')" and "leased_rows (d_rows db) \<Longrightarrow> leased_rows (d_rows db')"
proof -
  have *: "d_rows db' = update_where (\<lambda>r. r_id r \<in> set (map r_id (candidates now limit db))) (leased worker (now + dur)) (d_rows db)"
    using assms by (auto simp: claim_instances_def Let_def)
  show "freezes i (d_rows db) (d_rows db')"
    unfolding * by (rule freezes_update) (simp add: same_result_def leased_def)
  show "leased_rows (d_rows db')" if "leased_rows (d_rows db)"
    unfolding * by (rule leased_update [OF that]) (simp add: leased_def)
qed

lemma retry_process_settled:
  assumes ok: "tree_ok (d_rows db)" and u: "retry_process now k force db = Inr db'"
  shows "leased_rows (d_rows db) \<Longrightarrow> leased_rows (d_rows db')"
    and "r \<in> set (d_rows db) \<Longrightarrow> r_status r = Completed \<Longrightarrow> r \<in> set (d_rows db')"
proof -
  obtain hit where hit: "hit \<subseteq> {q \<in> set (d_rows db). reviving (to_instance q)}"
    and rows: "d_rows db' = map (\<lambda>q. if q \<in> hit
       then write_revived now (revived (wait_after (tree_nodes db k) (to_instance q)) (to_instance q)) q else q) (d_rows db)"
    by (rule retry_hit [OF ok u]) blast
  show "leased_rows (d_rows db')" if "leased_rows (d_rows db)"
    using that unfolding rows by (auto simp: leased_rows_def write_revived_def)
  show "r \<in> set (d_rows db')" if "r \<in> set (d_rows db)" "r_status r = Completed"
  proof -
    from that(2) hit have "r \<notin> hit" by (auto simp: reviving_def to_instance_def)
    with that(1) show ?thesis unfolding rows by force
  qed
qed

end
