(* ===== verification/EngineTree.thy ===== *)
theory EngineTree
  imports Engine Settled
begin

section \<open>Every advance keeps the tree\<close>

text \<open>
  The contract of a handler, as a locale: from a state it may work on, it either goes on in such a
  state or stops in one that may be persisted. Handlers are sequenced with \<open>and_then\<close>, and the
  contract is closed under that. It is interpreted on the engine's states: the database keeps the
  tree invariant and still holds the row of the advanced instance.
\<close>

locale handler_contract =
  fixes going :: "'s \<Rightarrow> 's \<Rightarrow> bool" and halted :: "'s \<Rightarrow> 'e \<Rightarrow> bool"
  assumes going_refl: "going s s"
      and going_trans: "going s t \<Longrightarrow> going t u \<Longrightarrow> going s u"
      and halted_trans: "going s t \<Longrightarrow> halted t e \<Longrightarrow> halted s e"
begin

definition keeps :: "'s \<Rightarrow> 'e + ('a \<times> 's) \<Rightarrow> bool" where
  "keeps s h \<longleftrightarrow> (case h of Inl e \<Rightarrow> halted s e | Inr (v, t) \<Rightarrow> going s t)"

lemma keeps_Inl [simp]: "keeps s (Inl e) \<longleftrightarrow> halted s e"
  by (simp add: keeps_def)

lemma keeps_Inr [simp]: "keeps s (Inr (v, t)) \<longleftrightarrow> going s t"
  by (simp add: keeps_def)

lemma keeps_bind:
  assumes "keeps s h" and "\<And>v t. h = Inr (v, t) \<Longrightarrow> going s t \<Longrightarrow> keeps t (f (v, t))"
  shows "keeps s (and_then h f)"
proof (cases h)
  case (Inl e)
  with assms(1) show ?thesis by simp
next
  case (Inr vt)
  obtain v t where vt: "vt = (v, t)" by (cases vt)
  from assms Inr vt have st: "going s t" and k: "keeps t (f (v, t))" by simp_all
  have "keeps s (f (v, t))"
  proof (cases "f (v, t)")
    case (Inl e)
    with k halted_trans [OF st] show ?thesis by simp
  next
    case (Inr wu)
    with k going_trans [OF st] show ?thesis by (cases wu) simp
  qed
  with Inr vt show ?thesis by simp
qed

lemma keeps_from: "going s t \<Longrightarrow> keeps t h \<Longrightarrow> keeps s h"
  using going_trans halted_trans by (auto simp: keeps_def split: sum.splits)

end

subsection \<open>The engine's states\<close>

definition same_place_inst :: "proc_instance \<Rightarrow> proc_instance \<Rightarrow> bool" where
  "same_place_inst i j \<longleftrightarrow> inst_id j = inst_id i \<and> inst_parent j = inst_parent i
     \<and> inst_spawn_task j = inst_spawn_task i \<and> inst_call_stack j = inst_call_stack i"

text \<open>The row of an instance a worker may be advancing.\<close>

definition held :: "database \<Rightarrow> proc_instance \<Rightarrow> bool" where
  "held db i \<longleftrightarrow> (\<exists>r \<in> set (d_rows db). agrees i r \<and> r_wait r \<noteq> Waiting \<and> active (r_status r))"

definition workable :: "proc_instance \<times> database \<Rightarrow> bool" where
  "workable s = (case s of (i, db) \<Rightarrow>
     tree_ok (d_rows db) \<and> held db i \<and> inst_wait i \<noteq> Waiting \<and> active (inst_status i))"

definition persistable :: "stopped \<Rightarrow> bool" where
  "persistable st = (case st of (out, i, db) \<Rightarrow>
     tree_ok (d_rows db) \<and>
     (case out of
        Terminal \<Rightarrow> held db i \<and> terminal (inst_status i) \<and> inst_wait i \<noteq> Waiting
      | Progress \<Rightarrow> held db i \<and> inst_wait i \<noteq> Waiting
      | Update \<Rightarrow> held db i \<and> active (inst_status i) \<and> inst_wait i \<noteq> Waiting
      | _ \<Rightarrow> True))"

text \<open>Identifiers of spawned children are fresh and not empty.\<close>

definition advances :: "proc_instance \<times> database \<Rightarrow> proc_instance \<times> database \<Rightarrow> bool" where
  "advances s t \<longleftrightarrow> same_place_inst (fst s) (fst t) \<and> inst_task (fst t) = inst_task (fst s)
     \<and> leaves {} (d_rows (snd s)) (d_rows (snd t)) \<and> (workable s \<longrightarrow> workable t)"

text \<open>What a stop leaves to others: everything, once the handler has persisted the instance itself.\<close>

definition own_ids :: "stopped \<Rightarrow> string set" where
  "own_ids st = (if fst st = Noop then {inst_id (fst (snd st))} else {})"

definition halts :: "proc_instance \<times> database \<Rightarrow> stopped \<Rightarrow> bool" where
  "halts s st \<longleftrightarrow> same_place_inst (fst s) (fst (snd st))
     \<and> leaves (own_ids st) (d_rows (snd s)) (d_rows (snd (snd st))) \<and> (workable s \<longrightarrow> persistable st)"

lemma same_place_inst_refl [simp]: "same_place_inst i i"
  by (simp add: same_place_inst_def)

lemma same_place_inst_trans: "same_place_inst i j \<Longrightarrow> same_place_inst j k \<Longrightarrow> same_place_inst i k"
  by (simp add: same_place_inst_def)

interpretation eng: handler_contract advances halts
  by unfold_locales (auto simp: advances_def halts_def intro: same_place_inst_trans leaves_trans leaves_weaken)

abbreviation keeps :: "proc_instance \<times> database \<Rightarrow> 'a handler \<Rightarrow> bool" where
  "keeps \<equiv> eng.keeps"

lemma held_same: "same_place_inst i j \<Longrightarrow> held db j \<longleftrightarrow> held db i"
  by (simp add: held_def agrees_def same_place_inst_def)

lemma workableD:
  "workable (i, db) \<Longrightarrow> tree_ok (d_rows db)" "workable (i, db) \<Longrightarrow> held db i"
  "workable (i, db) \<Longrightarrow> inst_wait i \<noteq> Waiting" "workable (i, db) \<Longrightarrow> active (inst_status i)"
  by (simp_all add: workable_def)

text \<open>The copy changes in context, counters, timer or wait state only.\<close>

definition touched :: "proc_instance \<Rightarrow> proc_instance \<Rightarrow> bool" where
  "touched i j \<longleftrightarrow> same_place_inst i j \<and> inst_task j = inst_task i \<and> inst_status j = inst_status i
     \<and> (inst_wait i \<noteq> Waiting \<longrightarrow> inst_wait j \<noteq> Waiting)"

lemma touched_refl [simp]: "touched i i"
  by (simp add: touched_def)

lemma touched_trans: "touched i j \<Longrightarrow> touched j k \<Longrightarrow> touched i k"
  by (auto simp: touched_def intro: same_place_inst_trans)

lemma touched_advances: "touched i j \<Longrightarrow> advances (i, db) (j, db)"
  using held_same [of i j db] by (auto simp: touched_def advances_def workable_def)

lemma touched_wait: "touched i j \<Longrightarrow> inst_wait i \<noteq> Waiting \<Longrightarrow> inst_wait j \<noteq> Waiting"
  by (simp add: touched_def)

lemma halts_terminal:
  assumes "same_place_inst i j" and "terminal (inst_status j)" and "inst_wait i \<noteq> Waiting \<Longrightarrow> inst_wait j \<noteq> Waiting"
  shows "halts (i, db) (Terminal, j, db)"
  using assms held_same [OF assms(1), of db] by (auto simp: halts_def persistable_def workable_def)

lemma halts_progress:
  assumes "touched i j" shows "halts (i, db) (Progress, j, db)"
  using assms held_same [of i j db] by (auto simp: halts_def persistable_def workable_def touched_def)

lemma halts_update:
  assumes "same_place_inst i j" and "inst_status j = inst_status i" and "inst_wait i \<noteq> Waiting \<Longrightarrow> inst_wait j \<noteq> Waiting"
  shows "halts (i, db) (Update, j, db)"
  using assms held_same [OF assms(1), of db] by (auto simp: halts_def persistable_def workable_def)

lemma halts_crash: "same_place_inst i j \<Longrightarrow> halts (i, db) (Crashed, j, db)"
  by (simp add: halts_def persistable_def workable_def)

subsection \<open>Stopping\<close>

lemma failed_instance_simps [simp]:
  "inst_status (failed_instance reason i) = Failed" "inst_wait (failed_instance reason i) = WaitNone"
  "same_place_inst i (failed_instance reason j) = same_place_inst i j"
  by (simp_all add: failed_instance_def same_place_inst_def)

lemma halts_fail: "same_place_inst i j \<Longrightarrow> halts (i, db) (Terminal, failed_instance reason j, db)"
  by (rule halts_terminal) simp_all

lemma keeps_stop_fail: "same_place_inst i j \<Longrightarrow> keeps (i, db) (stop_fail reason j db)"
  by (simp add: stop_fail_def stop_with_def fail_instance_def halts_fail)

lemma keeps_evaluated:
  assumes "\<And>v j. res = Inr (v, j) \<Longrightarrow> touched i j"
  shows "keeps (i, db) (evaluated reason i db res)"
  using assms touched_advances by (auto simp: evaluated_def keeps_stop_fail halts_crash split: sum.splits)

text \<open>Evaluation touches nothing but the memo.\<close>

lemma touched_memo [simp]: "touched i (i\<lparr>inst_resolved := m\<rparr>)"
  by (simp add: touched_def same_place_inst_def)

lemma eval_shape_ctx_touched: "eval_shape_ctx parse load i shape self = Inr (v, j) \<Longrightarrow> touched i j"
  by (auto simp: eval_shape_ctx_def and_then_eq_Inr)

lemma eval_any_ctx_touched: "eval_any_ctx parse load i s = Inr (v, j) \<Longrightarrow> touched i j"
  by (auto simp: eval_any_ctx_def and_then_eq_Inr)

lemma eval_bool_ctx_touched: "eval_bool_ctx parse load i s self = Inr (v, j) \<Longrightarrow> touched i j"
  by (auto simp: eval_bool_ctx_def and_then_eq_Inr)

lemma eval_input_touched: "eval_input sv db i shape = Inr (v, j) \<Longrightarrow> touched i j"
  by (auto simp: eval_input_def eval_shape_ctx_touched split: if_splits)

lemma resolve_endpoint_touched: "resolve_endpoint sv db i a = Inr (v, j) \<Longrightarrow> touched i j"
  by (auto simp: resolve_endpoint_def and_then_eq_Inr eval_any_ctx_touched split: if_splits)

lemma resolve_header_list_touched: "resolve_header_list sv db i hs = Inr (v, j) \<Longrightarrow> touched i j"
proof (induction hs arbitrary: i v)
  case (Cons h hs)
  then show ?case
    by (cases h) (auto simp: and_then_eq_Inr dest!: eval_any_ctx_touched intro: touched_trans)
qed simp

lemma eval_switch_touched: "eval_switch sv db i cs self = Inr (v, j) \<Longrightarrow> touched i j"
proof (induction cs arbitrary: i)
  case (Cons c cs)
  then show ?case
    by (auto simp: and_then_eq_Inr dest!: eval_bool_ctx_touched intro: touched_trans split: if_splits)
qed simp

lemmas touched_intros =
  eval_shape_ctx_touched eval_any_ctx_touched eval_bool_ctx_touched eval_input_touched
  resolve_endpoint_touched eval_switch_touched

lemma resolve_headers_touched: "resolve_headers sv db i a = Inr (v, j) \<Longrightarrow> touched i j"
  by (simp add: resolve_headers_def resolve_header_list_touched)

lemma evaluated_db: "evaluated reason i db res = Inr (v, t) \<Longrightarrow> snd t = db"
  by (auto simp: evaluated_def stop_fail_def stop_with_def split: sum.splits if_splits)

text \<open>An evaluation followed by a step that keeps the contract.\<close>

lemma keeps_then:
  assumes "\<And>v j. res = Inr (v, j) \<Longrightarrow> touched i j"
      and "\<And>v j. res = Inr (v, j) \<Longrightarrow> keeps (j, db) (f (v, j, db))"
  shows "keeps (i, db) (and_then (evaluated reason i db res) f)"
proof (rule eng.keeps_bind [OF keeps_evaluated [OF assms(1)]])
  fix v t assume e: "evaluated reason i db res = Inr (v, t)"
  then obtain j where "t = (j, db)" "res = Inr (v, j)"
    by (auto simp: evaluated_def stop_fail_def stop_with_def split: sum.splits if_splits)
  with assms(2) show "keeps t (f (v, t))" by simp
qed

subsection \<open>The handlers\<close>

lemma keeps_stop_with:
  "halts (i, db) (out, j, db) \<Longrightarrow> keeps (i, db) (stop_with db (out, j))"
  by (simp add: stop_with_def)

lemma handle_call_error_halts:
  assumes "handle_call_error sv db now i t msg code = (out, j)"
  shows "halts (i, db) (out, j, db)"
proof -
  let ?i1 = "i\<lparr>inst_context := put ''error'' (error_value t msg code) (inst_context i)\<rparr>"
  have i1: "same_place_inst i ?i1" "inst_status ?i1 = inst_status i" "inst_wait ?i1 = inst_wait i"
    by (simp_all add: same_place_inst_def)
  have retry: "halts (i, db) (Update, scheduled_retry sv now i, db)"
    by (rule halts_update) (simp_all add: scheduled_retry_def same_place_inst_def)
  have cancel: "halts (i, db) (Terminal, i\<lparr>inst_status := Cancelled, inst_wait := WaitNone,
       inst_wake_at := (if 0 < inst_retry_count i then None else inst_wake_at i)\<rparr>, db)"
    by (rule halts_terminal) (simp_all add: same_place_inst_def)
  have fin: "halts (i, db) (Terminal, ?i1\<lparr>inst_status := Completed, inst_wake_at := None\<rparr>, db)"
    by (rule halts_terminal) (simp_all add: same_place_inst_def)
  have route: "halts (i, db) (Update, ?i1\<lparr>inst_task := g, inst_retry_count := 0, inst_wake_at := None\<rparr>, db)" for g
    by (rule halts_update) (simp_all add: same_place_inst_def)
  have fail: "halts (i, db) (Terminal, failed_instance r k, db)" if "k = i \<or> k = ?i1" for r k
    using that i1(1) by (intro halts_fail) auto
  from assms show ?thesis
    using retry cancel fin route fail
    by (auto simp: handle_call_error_def cancel_instance_def fail_instance_def Let_def split: if_splits option.splits)
qed

lemma keeps_call_error: "same_place_inst i j \<Longrightarrow> touched i j \<Longrightarrow>
    keeps (i, db) (stop_with db (handle_call_error sv db now j t msg code))"
  using handle_call_error_halts [of sv db now j t msg code] eng.halted_trans [OF touched_advances]
  by (cases "handle_call_error sv db now j t msg code") (auto intro: keeps_stop_with)

lemma after_response_keeps: "keeps (i, db) (after_response sv db now i t a res)"
proof -
  have "advances (i, db) (i\<lparr>inst_retry_count := 0\<rparr>, db)"
    by (rule touched_advances) (simp add: touched_def same_place_inst_def)
  then show ?thesis
    by (auto simp: after_response_def Let_def keeps_call_error split: sum.splits)
qed

lemma execute_action_keeps: "keeps (i, db) (execute_action sv now i t a db)"
  unfolding execute_action_def
  by (auto intro!: keeps_then after_response_keeps
      intro: eval_input_touched resolve_endpoint_touched resolve_headers_touched simp: build_task_data_def)

lemma run_delay_keeps: "keeps (i, db) (run_delay sv now i t a db)"
proof (cases "inst_wake_at i")
  case None
  then show ?thesis
    unfolding run_delay_def
    by (auto intro!: keeps_then keeps_stop_fail keeps_stop_with halts_progress eng.going_refl intro: eval_any_ctx_touched
        simp: touched_def same_place_inst_def split: option.splits)
qed (simp add: run_delay_def eng.going_refl)

lemma arm_external_cases:
  assumes u: "arm_external_or_consume_signal hash now t token input wake i db = Inr (res, j, db')"
      and w: "workable (i, db)"
  shows "tree_ok (d_rows db')" and "same_place_inst i j" and "res \<noteq> None \<Longrightarrow> j = i \<and> held db' i"
proof -
  obtain r where r: "r \<in> set (d_rows db)" "agrees i r" "r_wait r \<noteq> Waiting" "active (r_status r)"
    using workableD(2) [OF w] by (auto simp: held_def)
  show "tree_ok (d_rows db')"
    by (rule arm_external_ok [OF workableD(1) [OF w] r workableD(4) [OF w] u])
  show "same_place_inst i j"
    using u by (auto simp: arm_external_or_consume_signal_def and_then_eq_Inr parked_def same_place_inst_def
        split: if_splits option.splits)
  show "j = i \<and> held db' i" if "res \<noteq> None"
  proof -
    from u that obtain ext db1 where *: "j = i" "db' = set_external_result ext now (inst_id i) db1" "d_rows db1 = d_rows db"
      by (auto simp: arm_external_or_consume_signal_def and_then_eq_Inr split: if_splits option.splits)
    have "has_id (inst_id i) r" using r(2) by (simp add: agrees_def has_id_def)
    with * r(1) have "unparked ext now r \<in> set (d_rows db')"
      by (auto simp: set_external_result_def table_simps)
    moreover have "agrees i (unparked ext now r)" "r_wait (unparked ext now r) \<noteq> Waiting" "active (r_status (unparked ext now r))"
      using r by (simp_all add: agrees_def unparked_def)
    ultimately show ?thesis using *(1) unfolding held_def by blast
  qed
qed

lemma arm_keeps:
  "keeps (i, db) (case arm_external_or_consume_signal hash now t token input wake i db of
     Inl _ \<Rightarrow> stop_fail reason i db
   | Inr (Some res, i2, db') \<Rightarrow> Inr (res, i2, db')
   | Inr (None, i2, db') \<Rightarrow> Inl (Noop, i2, db'))"
proof (cases "arm_external_or_consume_signal hash now t token input wake i db")
  case (Inr x)
  obtain res j db' where x: "x = (res, j, db')" by (cases x)
  note u = Inr [unfolded x]
  have place: "same_place_inst i j"
    using u by (auto simp: arm_external_or_consume_signal_def and_then_eq_Inr parked_def same_place_inst_def
        split: if_splits option.splits)
  show ?thesis
  proof (cases res)
    case None
    then have "halts (i, db) (Noop, j, db')"
      using arm_external_cases(1) [OF u] arm_external_leaves(1) [OF u] place
      by (simp add: halts_def persistable_def own_ids_def same_place_inst_def)
    with u None show ?thesis by simp
  next
    case (Some v)
    have ji: "j = i"
      using u Some by (auto simp: arm_external_or_consume_signal_def and_then_eq_Inr split: if_splits option.splits)
    have "workable (i, db')" if "workable (i, db)"
      using arm_external_cases [OF u that] workableD [OF that] Some by (simp add: workable_def)
    with ji have "advances (i, db) (j, db')"
      using arm_external_leaves(2) [OF u] Some by (simp add: advances_def)
    with u Some show ?thesis by simp
  qed
qed (simp add: keeps_stop_fail)

lemma run_external_keeps: "keeps (i, db) (run_external sv now i t a db)"
proof (cases "map_of (inst_context i) ctx_external_result")
  case (Some res)
  have "touched i (i\<lparr>inst_context := c\<rparr>)" for c by (simp add: touched_def same_place_inst_def)
  with Some show ?thesis by (simp add: run_external_def touched_advances)
next
  case None
  have "touched i (i\<lparr>inst_wait := WaitNone, inst_context := c\<rparr>)" for c
    by (simp add: touched_def same_place_inst_def)
  then have "keeps (i, db) (stop_with db (handle_call_error sv db now (i\<lparr>inst_wait := WaitNone, inst_context := c\<rparr>) t msg code) :: gval handler)"
    for c msg code by (intro keeps_call_error) (simp_all add: touched_def)
  moreover have "keeps (i, db) (and_then (evaluated reason i db (build_task_data sv db i a)) (\<lambda>(input, i1, _).
      (case arm_external_or_consume_signal (sv_hash sv) now (task_id t) token input wake i1 db of
         Inl _ \<Rightarrow> stop_fail reason' i1 db
       | Inr (Some res, i2, db') \<Rightarrow> Inr (res, i2, db')
       | Inr (None, i2, db') \<Rightarrow> Inl (Noop, i2, db'))))" for reason reason' token wake
    by (rule keeps_then) (auto simp: build_task_data_def arm_keeps intro: eval_input_touched)
  ultimately show ?thesis using None by (simp add: run_external_def)
qed

subsection \<open>Children\<close>

definition ids_ok :: "services \<Rightarrow> bool" where
  "ids_ok sv \<longleftrightarrow> (\<forall>p k. sv_child_id sv p k \<noteq> [])"

lemma build_child_keeps: "keeps (i, db) (build_child sv kind key k e i t db)"
  by (auto simp: build_child_def keeps_stop_fail halts_crash eng.going_refl Let_def
      intro!: keeps_then intro: eval_input_touched split: option.splits sum.splits list.splits)

text \<open>Building reads the database only, and a built child belongs under the instance.\<close>

definition builds :: "services \<Rightarrow> proc_instance \<Rightarrow> task \<Rightarrow> database \<Rightarrow> proc_instance \<times> database \<Rightarrow> proc_instance list \<Rightarrow> bool" where
  "builds sv i t db s cs \<longleftrightarrow> touched i (fst s) \<and> snd s = db \<and>
     (\<forall>c \<in> set cs. inst_parent c = inst_id i \<and> inst_spawn_task c = task_id t
        \<and> inst_call_stack c = inst_call_stack i @ [inst_id i] \<and> inst_wait c = WaitNone
        \<and> (\<exists>k. inst_id c = sv_child_id sv (inst_id i) k))"

lemma evaluated_Inr: "evaluated reason i db res = Inr (v, t) \<longleftrightarrow> (\<exists>j. res = Inr (v, j) \<and> t = (j, db))"
  by (auto simp: evaluated_def stop_fail_def stop_with_def split: sum.splits)

lemma build_child_Inr:
  assumes "build_child sv kind key k e i t db = Inr (c, s)"
  shows "builds sv i t db s [c]"
proof -
  obtain version where v: "child_version sv db i t (case key of None \<Rightarrow> [] | Some x \<Rightarrow> x) (ce_name e) (ce_version e) = Some version"
    using assms by (cases "child_version sv db i t (case key of None \<Rightarrow> [] | Some x \<Rightarrow> x) (ce_name e) (ce_version e)")
      (simp_all add: build_child_def stop_fail_def stop_with_def)
  obtain d where d: "get_definition db (ce_name e) version = Some d"
    using assms v by (cases "get_definition db (ce_name e) version") (simp_all add: build_child_def stop_fail_def stop_with_def)
  obtain raw j where j: "eval_input sv db i (ce_input e) = Inr (raw, j)"
    using assms v d by (cases "eval_input sv db i (ce_input e)")
      (auto simp: build_child_def evaluated_def stop_fail_def stop_with_def split: if_splits)
  obtain input where input: "validate_opt (def_input_schema d) raw = Inr input"
    using assms v d j by (cases "validate_opt (def_input_schema d) raw")
      (simp_all add: build_child_def evaluated_def stop_fail_def stop_with_def)
  obtain first rest where first: "def_tasks d = first # rest"
    using assms v d j input by (cases "def_tasks d") (simp_all add: build_child_def evaluated_def)
  have "s = (j, db)" "c = new_child sv j t k d version first (child_context sv kind key (ce_result_schema e) input)"
    using assms v d j input first by (simp_all add: build_child_def evaluated_def)
  moreover from j have "touched i j" by (rule eval_input_touched)
  ultimately show ?thesis by (auto simp: builds_def new_child_def touched_def same_place_inst_def)
qed

lemma builds_trans:
  "builds sv i t db s [c] \<Longrightarrow> builds sv (fst s) t (snd s) u cs \<Longrightarrow> builds sv i t db u (c # cs)"
  by (auto simp: builds_def touched_def same_place_inst_def)

lemma build_entries_Inr:
  "build_entries sv k es i t db = Inr (cs, s) \<Longrightarrow> builds sv i t db s (map snd cs)"
proof (induction es arbitrary: k i db cs s)
  case (Cons e es)
  obtain key entry where e: "e = (key, entry)" by (cases e)
  with Cons.prems obtain c i1 db1 cs' where
    1: "build_child sv ''child_parallel'' (Some key) k entry i t db = Inr (c, i1, db1)"
       "build_entries sv (Suc k) es i1 t db1 = Inr (cs', s)" "cs = (key, c) # cs'"
    by (auto simp: and_then_eq_Inr)
  from builds_trans [OF build_child_Inr [OF 1(1)]] Cons.IH [OF 1(2)] 1(3) show ?case by simp
qed (simp add: builds_def)

lemma build_entries_keeps: "keeps (i, db) (build_entries sv k es i t db)"
proof (induction es arbitrary: k i db)
  case (Cons e es)
  obtain key entry where e: "e = (key, entry)" by (cases e)
  show ?case unfolding e build_entries.simps
    by (rule eng.keeps_bind [OF build_child_keeps]) (auto intro!: eng.keeps_bind [OF Cons] eng.going_refl)
qed (simp add: eng.going_refl)

lemma build_children_keeps: "keeps (i, db) (build_children sv i t a db)"
  unfolding build_children_def build_single_child_def build_parallel_children_def
  by (auto intro!: eng.keeps_bind [OF build_child_keeps] eng.keeps_bind [OF build_entries_keeps] eng.going_refl)

lemma build_children_Inr:
  "build_children sv i t a db = Inr ((ids, cs), s) \<Longrightarrow> builds sv i t db s cs"
  by (auto simp: build_children_def build_single_child_def build_parallel_children_def and_then_eq_Inr
      dest!: build_child_Inr build_entries_Inr split: if_splits)

lemma note_children_touched: "touched i (note_children t ids i)"
  by (simp add: touched_def same_place_inst_def note_children_def)

lemma ensure_children_touched: "touched i (ensure_children i)"
  by (simp add: touched_def same_place_inst_def ensure_children_def)

lemma spawn_keeps:
  assumes sv: "ids_ok sv" and b: "builds sv i t db (j, db) cs" and task: "inst_task i = task_id t"
  shows "keeps (i, db) (case spawn_children_and_wait (sv_hash sv) now (note_children t ids j) cs db of
           Inl _ \<Rightarrow> stop_fail reason (note_children t ids j) db
         | Inr db2 \<Rightarrow> Inl (Noop, note_children t ids j, db2))"
proof -
  let ?p = "note_children t ids j"
  have ip: "touched i ?p" using touched_trans note_children_touched b by (auto simp: builds_def)
  have "halts (i, db) (Noop, ?p, db2)" if u: "spawn_children_and_wait (sv_hash sv) now ?p cs db = Inr db2" for db2
  proof -
    have "tree_ok (d_rows db2)" if w: "workable (i, db)"
    proof -
      obtain r where r: "r \<in> set (d_rows db)" "agrees i r" "active (r_status r)"
        using workableD(2) [OF w] by (auto simp: held_def)
      moreover have "agrees ?p r" using r(2) ip by (simp add: agrees_def touched_def same_place_inst_def)
      moreover have "\<forall>c \<in> set cs. kid_of ?p c"
      proof
        fix c assume "c \<in> set cs"
        with b obtain k where "inst_parent c = inst_id i" "inst_spawn_task c = task_id t"
            "inst_call_stack c = inst_call_stack i @ [inst_id i]" "inst_wait c = WaitNone"
            "inst_id c = sv_child_id sv (inst_id i) k"
          by (auto simp: builds_def)
        moreover have "inst_id ?p = inst_id i" "inst_call_stack ?p = inst_call_stack i" "inst_task ?p = task_id t"
          using ip task by (simp_all add: touched_def same_place_inst_def)
        ultimately show "kid_of ?p c" using sv by (simp add: kid_of_def ids_ok_def)
      qed
      ultimately show ?thesis
        using spawn_children_and_wait_ok(1) [OF workableD(1) [OF w] _ _ _ _ u] by blast
    qed
    with ip show ?thesis
      using spawn_children_and_wait_leaves [OF u] by (simp add: halts_def persistable_def touched_def own_ids_def)
  qed
  then show ?thesis using ip by (auto simp: keeps_stop_fail touched_def split: sum.splits)
qed

lemma run_child_processes_keeps:
  assumes "ids_ok sv" and "inst_task i = task_id t"
  shows "keeps (i, db) (run_child_processes sv now i t a db)"
proof (cases "inst_wait i = Collecting")
  case True
  have "touched i (i\<lparr>inst_wait := WaitNone\<rparr>)" by (simp add: touched_def same_place_inst_def)
  with True show ?thesis
    by (auto simp: run_child_processes_def touched_advances keeps_stop_fail touched_def split: option.splits)
next
  case False
  have e: "touched i (ensure_children i)" by (rule ensure_children_touched)
  have "keeps (ensure_children i, db) (and_then (build_children sv (ensure_children i) t a db) (\<lambda>((ids, children), i1, db1).
          let i2 = note_children t ids i1 in
          (case spawn_children_and_wait (sv_hash sv) now i2 children db1 of
             Inl _ \<Rightarrow> stop_fail (task_reason t ''spawn'') i2 db1
           | Inr db2 \<Rightarrow> Inl (Noop, i2, db2))))"
  proof (rule eng.keeps_bind [OF build_children_keeps])
    fix v s assume b: "build_children sv (ensure_children i) t a db = Inr (v, s)"
    obtain ids cs j db1 where v: "v = (ids, cs)" "s = (j, db1)" by (cases v; cases s)
    from build_children_Inr [OF b [unfolded v]] have bu: "builds sv (ensure_children i) t db (j, db1) cs" .
    then have db1: "db1 = db" and j: "touched (ensure_children i) j" by (simp_all add: builds_def)
    then have task: "inst_task j = task_id t" using e assms(2) by (simp add: touched_def)
    have "builds sv j t db (j, db) cs" using bu db1 j by (simp add: builds_def touched_def same_place_inst_def)
    from spawn_keeps [OF assms(1) this task] show
      "keeps s ((\<lambda>((ids, children), i1, db1).
          let i2 = note_children t ids i1 in
          (case spawn_children_and_wait (sv_hash sv) now i2 children db1 of
             Inl _ \<Rightarrow> stop_fail (task_reason t ''spawn'') i2 db1
           | Inr db2 \<Rightarrow> Inl (Noop, i2, db2))) (v, s))"
      by (simp add: v db1 Let_def)
  qed
  from eng.keeps_from [OF touched_advances [OF e] this] False show ?thesis
    by (simp add: run_child_processes_def)
qed

subsection \<open>A task, the loop, the whole advance\<close>

lemma run_action_keeps:
  assumes "ids_ok sv" and "inst_task i = task_id t"
  shows "keeps (i, db) (run_action sv now i t db)"
  using run_child_processes_keeps [OF assms]
  by (auto simp: run_action_def execute_action_keeps run_delay_keeps run_external_keeps eng.going_refl
      split: option.splits action_type.splits)

lemma set_task_output_touched: "touched i (set_task_output k v i)"
  by (simp add: touched_def same_place_inst_def set_task_output_def Let_def)

lemma task_output_step_keeps: "keeps (i, db) (task_output_step sv t result previous i db)"
  unfolding task_output_step_def
  by (auto intro!: keeps_then touched_advances [OF set_task_output_touched] eng.going_refl intro: eval_shape_ctx_touched)

lemma run_task_keeps:
  assumes "ids_ok sv" and "inst_task i = task_id t"
  shows "keeps (i, db) (run_task sv now i t db)"
  unfolding run_task_def
  by (rule eng.keeps_bind [OF run_action_keeps [OF assms]], clarsimp,
      rule eng.keeps_bind [OF task_output_step_keeps], clarsimp,
      rule keeps_then)
    (auto intro: eval_switch_touched keeps_stop_fail eng.going_refl)

lemma compute_output_keeps: "keeps (i, db) (compute_output sv i db)"
proof -
  have "touched i (i\<lparr>inst_context := c\<rparr>)" for i c by (simp add: touched_def same_place_inst_def)
  then show ?thesis
    unfolding compute_output_def
    by (auto simp: keeps_stop_fail eng.going_refl intro!: keeps_then touched_advances
        intro: eval_shape_ctx_touched split: option.splits)
qed

text \<open>Completion starts from a terminal copy.\<close>

lemma compute_output_Inr:
  "compute_output sv i db = Inr (u, j, db') \<Longrightarrow> db' = db \<and> same_place_inst i j \<and> inst_status j = inst_status i \<and> inst_wait j = inst_wait i"
  by (auto simp: compute_output_def and_then_eq_Inr evaluated_Inr eval_shape_ctx_def stop_fail_def stop_with_def
      same_place_inst_def split: option.splits if_splits)

lemma compute_output_Inl:
  "compute_output sv i db = Inl (out, j, db') \<Longrightarrow> db' = db \<and>
     (out = Crashed \<and> j = i \<or> out = Terminal \<and> (\<exists>reason. j = failed_instance reason i))"
  by (auto simp: compute_output_def and_then_eq_Inl evaluated_def stop_fail_def stop_with_def fail_instance_def
      split: option.splits if_splits sum.splits)

lemma complete_instance_halts:
  assumes "same_place_inst i j" and "terminal (inst_status j)" and "inst_wait j = inst_wait i"
  shows "halts (i, db) (complete_instance sv j db)"
proof (cases "compute_output sv j db")
  case (Inl st)
  obtain out k db' where st: "st = (out, k, db')" by (cases st)
  from compute_output_Inl [OF Inl [unfolded st]] assms(1) halts_crash halts_fail show ?thesis
    by (auto simp: complete_instance_def Inl st)
next
  case (Inr x)
  obtain u k db' where x: "x = (u, k, db')" by (cases x)
  note c = compute_output_Inr [OF Inr [unfolded x]]
  have "halts (i, db) (Terminal, k, db)"
    by (rule halts_terminal) (use c assms same_place_inst_trans in auto)
  with c show ?thesis by (simp add: complete_instance_def Inr x)
qed

definition goes :: "proc_instance \<times> database \<Rightarrow> proc_instance \<times> database \<Rightarrow> bool" where
  "goes s t \<longleftrightarrow> same_place_inst (fst s) (fst t) \<and> leaves {} (d_rows (snd s)) (d_rows (snd t))
     \<and> (workable s \<longrightarrow> workable t)"

lemma halts_goes: "goes s t \<Longrightarrow> halts t st \<Longrightarrow> halts s st"
  by (auto simp: goes_def halts_def intro: same_place_inst_trans leaves_trans leaves_weaken)

lemma goes_copy:
  "same_place_inst i j \<Longrightarrow> inst_status j = inst_status i \<Longrightarrow> (inst_wait i \<noteq> Waiting \<longrightarrow> inst_wait j \<noteq> Waiting) \<Longrightarrow> goes (i, db) (j, db)"
  using held_same [of i j db] by (simp add: goes_def workable_def)

lemma run_tasks_halts:
  assumes "ids_ok sv"
  shows "halts (i, db) (run_tasks sv now d left pos i db)"
proof (induction left arbitrary: pos i db)
  have ran_off: "halts (i, db) (complete_instance sv (ran_off i) db)" for i db
    by (rule complete_instance_halts) (simp_all add: ran_off_def same_place_inst_def)
  have ended: "halts (i, db) (complete_instance sv (ended i) db)" for i db
    by (rule complete_instance_halts) (simp_all add: ended_def same_place_inst_def)
  have moved: "halts (i, db) (Progress, moved d k i, db)" for i db k
    using held_same [of i "moved d k i" db]
    by (simp add: halts_def persistable_def workable_def moved_def same_place_inst_def)
  have at: "goes (i, db) (i\<lparr>inst_task := x\<rparr>, db)" for i db x
    by (rule goes_copy) (simp_all add: same_place_inst_def)
  have go: "goes (i, db) (moved d k i, db)" for i db k
    by (rule goes_copy) (simp_all add: moved_def same_place_inst_def)
  have adv: "halts s st" if "advances s t" "halts t st" for s t st
    using that by (auto simp: advances_def halts_def intro: same_place_inst_trans leaves_trans leaves_weaken)
  {
    case 0
    show ?case
    proof (cases "case pos of None \<Rightarrow> None | Some k \<Rightarrow> if k < length (def_tasks d) then Some (k, def_tasks d ! k) else None")
      case None
      then show ?thesis using ran_off by (subst run_tasks.simps) simp
    next
      case (Some kt)
      obtain k t where kt: "kt = (k, t)" by (cases kt)
      have "keeps (i\<lparr>inst_task := task_id t\<rparr>, db) (run_task sv now (i\<lparr>inst_task := task_id t\<rparr>) t db)"
        by (rule run_task_keeps [OF assms]) simp
      with Some kt ended moved halts_fail show ?thesis
        by (subst run_tasks.simps)
          (auto simp: eng.keeps_def split: sum.splits option.splits if_splits
            intro!: halts_goes [OF at [of i db "task_id t"]] intro: adv)
    qed
  next
    case (Suc left)
    show ?case
    proof (cases "case pos of None \<Rightarrow> None | Some k \<Rightarrow> if k < length (def_tasks d) then Some (k, def_tasks d ! k) else None")
      case None
      then show ?thesis using ran_off by (subst run_tasks.simps) simp
    next
      case (Some kt)
      obtain k t where kt: "kt = (k, t)" by (cases kt)
      have "keeps (i\<lparr>inst_task := task_id t\<rparr>, db) (run_task sv now (i\<lparr>inst_task := task_id t\<rparr>) t db)"
        by (rule run_task_keeps [OF assms]) simp
      with Some kt ended moved halts_fail show ?thesis
        by (subst run_tasks.simps)
          (auto simp: eng.keeps_def split: sum.splits option.splits if_splits
            intro!: halts_goes [OF at [of i db "task_id t"]] intro: adv halts_goes [OF go Suc])
    qed
  }
qed

lemma advance_halts:
  assumes "ids_ok sv"
  shows "halts (i, db) (advance sv now i db)"
proof -
  have cfg: "goes (i, db) (i\<lparr>inst_config := c\<rparr>, db)" for c
    by (rule goes_copy) (simp_all add: same_place_inst_def)
  have "halts (i, db) (Terminal, i\<lparr>inst_status := Failed, inst_wait := WaitNone, inst_wake_at := None\<rparr>, db)"
    by (rule halts_terminal) (simp_all add: same_place_inst_def)
  moreover have "halts (i, db) (Terminal, i\<lparr>inst_status := Cancelled, inst_wait := WaitNone, inst_wake_at := w\<rparr>, db)" for w
    by (rule halts_terminal) (simp_all add: same_place_inst_def)
  moreover have "same_place_inst i (i\<lparr>inst_config := c\<rparr>)" for c by (simp add: same_place_inst_def)
  moreover have "halts (i, db) (run_tasks sv now d left pos (i\<lparr>inst_config := c\<rparr>) db)" for d left pos c
    by (rule halts_goes [OF cfg run_tasks_halts [OF assms]])
  ultimately show ?thesis
    using run_tasks_halts [OF assms] halts_fail
    by (auto simp: advance_def settle_failing_def cancel_instance_def Let_def split: option.splits sum.splits)
qed

lemma persist_ok:
  assumes ok: "persistable (out, i, db)" and p: "persist sv now i out db = Inr db'"
  shows "tree_ok (d_rows db')"
proof (cases out)
  case Progress
  with ok obtain r where r: "r \<in> set (d_rows db)" "agrees i r" "r_wait r \<noteq> Waiting"
    and i: "tree_ok (d_rows db)" "inst_wait i \<noteq> Waiting"
    by (auto simp: persistable_def held_def)
  from update_instance_progress_ok [OF i(1) r i(2)] p Progress show ?thesis by (simp add: persist_def)
next
  case Update
  with ok obtain r where r: "r \<in> set (d_rows db)" "agrees i r" "r_wait r \<noteq> Waiting" "active (r_status r)"
    and i: "tree_ok (d_rows db)" "active (inst_status i)" "inst_wait i \<noteq> Waiting"
    by (auto simp: persistable_def held_def)
  from update_instance_active_ok [OF i(1) r i(2,3)] p Update show ?thesis by (simp add: persist_def)
next
  case Terminal
  with ok obtain r where r: "r \<in> set (d_rows db)" "agrees i r" "r_wait r \<noteq> Waiting" "active (r_status r)"
    and i: "tree_ok (d_rows db)" "terminal (inst_status i)" "inst_wait i \<noteq> Waiting"
    by (auto simp: persistable_def held_def)
  have "finish_child (sv_hash sv) now i db = Inr db' \<or> fail_instance_and_ancestors (sv_hash sv) now i db = Inr db'"
    using p Terminal by (auto simp: persist_def save_and_notify_def finish_child_def split: if_splits)
  with finish_child_ok [OF i(1) r i(2,3)] fail_instance_and_ancestors_ok [OF i(1) r i(2,3)] show ?thesis by blast
qed (use ok p in \<open>auto simp: persistable_def persist_def\<close>)

end
