(* ===== verification/EngineSteps.thy ===== *)
theory EngineSteps
  imports EngineTree
begin

section \<open>The running system\<close>

text \<open>
  The workers (\<open>internal/engine/engine.go\<close>: \<open>Run\<close>, \<open>runPump\<close>, \<open>dispatch\<close>, \<open>leaseRenewer\<close>,
  \<open>runAdvance\<close>) and the API share one database; every transaction is one step. A flight is an
  instance claimed by a worker: first as it was read, then with the outcome \<open>advance\<close> computed
  for it, until that outcome is persisted or the flight is lost with its process.

  Time passes here only as far as the workers renew the leases of what they are working on: these
  are the runs in which no advance outlives its lease. The code does not enforce this (a worker that
  stalls is overtaken, \<open>OverwhelmError\<close>); \<open>SystemProps\<close> has the same system with a free clock
  (\<open>free_step\<close>), in which a run either stays timely or has a state that \<open>overran\<close>.
\<close>

record flight =
  fl_worker :: string
  fl_inst :: proc_instance
  fl_out :: "outcome option"

record system =
  s_db :: database
  s_now :: int
  s_flights :: "flight list"

datatype event =
    Claim string
  | Run string
  | Persist string
  | Lose string
  | Renew string
  | Tick
  | Create string
  | Cancel string
  | Retry string
  | Resolve string
  | Signal string
  | Collect
  | Deploy

definition fl_id :: "flight \<Rightarrow> string" where
  "fl_id f = inst_id (fl_inst f)"

text \<open>The flight of an instance after \<open>advance\<close>: over, if \<open>advance\<close> persisted or panicked.\<close>

definition landed :: "flight \<Rightarrow> outcome \<Rightarrow> proc_instance \<Rightarrow> flight list" where
  "landed f out i = (if out = Noop \<or> out = Crashed then [] else [f\<lparr>fl_inst := i, fl_out := Some out\<rparr>])"

definition lease_held :: "int \<Rightarrow> row list \<Rightarrow> flight \<Rightarrow> bool" where
  "lease_held now rows f \<longleftrightarrow> (\<exists>r \<in> set rows. r_id r = fl_id f \<and> live_lease now r)"

inductive step :: "event \<Rightarrow> system \<Rightarrow> system \<Rightarrow> bool" where
  claim: "claim_instances w (s_now s) dur limit (s_db s) = (claimed, db) \<Longrightarrow> 0 < dur \<Longrightarrow>
    step (Claim w) s (s\<lparr>s_db := db,
      s_flights := s_flights s @ map (\<lambda>i. \<lparr>fl_worker = w, fl_inst = i, fl_out = None\<rparr>) claimed\<rparr>)"
| run: "s_flights s = fs @ f # gs \<Longrightarrow> fl_out f = None \<Longrightarrow> ids_ok sv \<Longrightarrow>
    advance sv (s_now s) (fl_inst f) (s_db s) = (out, i, db) \<Longrightarrow>
    step (Run (fl_id f)) s (s\<lparr>s_db := db, s_flights := fs @ landed f out i @ gs\<rparr>)"
| persist: "s_flights s = fs @ f # gs \<Longrightarrow> fl_out f = Some out \<Longrightarrow>
    persist sv (s_now s) (fl_inst f) out (s_db s) = Inr db \<Longrightarrow>
    step (Persist (fl_id f)) s (s\<lparr>s_db := db, s_flights := fs @ gs\<rparr>)"
| lose: "s_flights s = fs @ f # gs \<Longrightarrow>
    step (Lose (fl_id f)) s (s\<lparr>s_flights := fs @ gs\<rparr>)"
| renew: "step (Renew w) s (s\<lparr>s_db := renew_worker_leases w (s_now s) dur (s_db s)\<rparr>)"
| tick: "s_now s \<le> t \<Longrightarrow> (\<forall>f \<in> set (s_flights s). lease_held t (d_rows (s_db s)) f) \<Longrightarrow>
    step Tick s (s\<lparr>s_now := t\<rparr>)"
| create: "inst_parent i = [] \<Longrightarrow> inst_call_stack i = [] \<Longrightarrow> inst_id i \<noteq> [] \<Longrightarrow> inst_wait i = WaitNone \<Longrightarrow>
    inst_status i = Running \<Longrightarrow> save_instance hash (s_now s) i (s_db s) = Inr db \<Longrightarrow>
    step (Create (inst_id i)) s (s\<lparr>s_db := db\<rparr>)"
| cancel: "cancel_process (s_now s) k (s_db s) = Inr db \<Longrightarrow> step (Cancel k) s (s\<lparr>s_db := db\<rparr>)"
| retry: "retry_process (s_now s) k force (s_db s) = Inr db \<Longrightarrow> step (Retry k) s (s\<lparr>s_db := db\<rparr>)"
| resolve: "resolve_external_task (s_now s) k token v (s_db s) = Inr db \<Longrightarrow>
    step (Resolve k) s (s\<lparr>s_db := db\<rparr>)"
| signal: "deliver_signal (s_now s) k t sid v (s_db s) = Inr (b, db) \<Longrightarrow>
    step (Signal k) s (s\<lparr>s_db := db\<rparr>)"
| collect: "step Collect s (s\<lparr>s_db := delete_expired_objects (s_now s) (s_db s)\<rparr>)"
| deploy: "step Deploy s (s\<lparr>s_db := (s_db s)\<lparr>d_definitions := defs\<rparr>\<rparr>)"

inductive_cases stepE: "step e s s'"
inductive_simps step_tick: "step Tick s s'"

text \<open>A new database has no rows; workers start without flights.\<close>

definition initial :: "system \<Rightarrow> bool" where
  "initial s \<longleftrightarrow> d_rows (s_db s) = [] \<and> s_flights s = []"

inductive reachable :: "system \<Rightarrow> bool" where
  start: "initial s \<Longrightarrow> reachable s"
| step: "reachable s \<Longrightarrow> step e s s' \<Longrightarrow> reachable s'"

subsection \<open>The invariant\<close>

text \<open>What a flight relies on: its row is where it was, active, and leased to its worker.\<close>

definition claims :: "int \<Rightarrow> row list \<Rightarrow> flight \<Rightarrow> bool" where
  "claims now rows f \<longleftrightarrow> (\<exists>r \<in> set rows. agrees (fl_inst f) r \<and> in_hand r
     \<and> r_worker r = Some (fl_worker f) \<and> live_lease now r)"

text \<open>What the flight's own copy has to satisfy.\<close>

definition copy_ok :: "flight \<Rightarrow> bool" where
  "copy_ok f \<longleftrightarrow> inst_wait (fl_inst f) \<noteq> Waiting \<and>
     (case fl_out f of
        None \<Rightarrow> active (inst_status (fl_inst f))
      | Some Terminal \<Rightarrow> terminal (inst_status (fl_inst f))
      | Some Update \<Rightarrow> active (inst_status (fl_inst f))
      | Some Progress \<Rightarrow> True
      | Some _ \<Rightarrow> False)"

definition flights_ok :: "int \<Rightarrow> row list \<Rightarrow> flight list \<Rightarrow> bool" where
  "flights_ok now rows fs \<longleftrightarrow> distinct (map fl_id fs) \<and> (\<forall>f \<in> set fs. claims now rows f \<and> copy_ok f)"

definition sys_ok :: "system \<Rightarrow> bool" where
  "sys_ok s \<longleftrightarrow> tree_ok (d_rows (s_db s)) \<and> leased_rows (d_rows (s_db s))
     \<and> flights_ok (s_now s) (d_rows (s_db s)) (s_flights s)"

lemma claims_spares:
  assumes "claims now rows f" and "spares ids rows rows'" and "fl_id f \<notin> ids"
  shows "claims now rows' f"
proof -
  from assms(1) obtain r where r: "r \<in> set rows" "agrees (fl_inst f) r" "in_hand r"
    "r_worker r = Some (fl_worker f)" "live_lease now r"
    by (auto simp: claims_def)
  moreover from r(2) assms(3) have "r_id r \<notin> ids" by (simp add: agrees_def fl_id_def)
  ultimately obtain q where q: "q \<in> set rows'" "keeps_claim r q"
    using assms(2) by (auto simp: spares_def)
  from q(2) r have "agrees (fl_inst f) q" "in_hand q" "r_worker q = Some (fl_worker f)" "live_lease now q"
    by (auto simp: keeps_claim_def same_place_def agrees_def in_hand_def live_lease_def split: option.splits)
  with q(1) show ?thesis by (auto simp: claims_def)
qed

lemma flights_ok_spares:
  assumes "flights_ok now rows fs" and "spares ids rows rows'" and "fl_id ` set fs \<inter> ids = {}"
  shows "flights_ok now rows' fs"
  using assms claims_spares by (fastforce simp: flights_ok_def)

lemma flights_ok_remove:
  "flights_ok now rows (fs @ f # gs) \<Longrightarrow> flights_ok now rows (fs @ gs)"
  by (auto simp: flights_ok_def)

lemma flights_ok_other:
  "flights_ok now rows (fs @ f # gs) \<Longrightarrow> fl_id ` set (fs @ gs) \<inter> {fl_id f} = {}"
  by (auto simp: flights_ok_def)

lemma claims_held:
  "claims now (d_rows db) f \<Longrightarrow> held db (fl_inst f)"
  by (auto simp: claims_def held_def in_hand_def)

lemma claims_same:
  "same_place_inst (fl_inst f) i \<Longrightarrow> claims now rows (f\<lparr>fl_inst := i, fl_out := out\<rparr>) = claims now rows f"
  by (simp add: claims_def agrees_def same_place_inst_def)

lemma flight_workable:
  assumes "sys_ok s" and "f \<in> set (s_flights s)" and "fl_out f = None"
  shows "workable (fl_inst f, s_db s)"
  using assms claims_held by (auto simp: sys_ok_def flights_ok_def copy_ok_def workable_def)

lemma flight_persistable:
  assumes "sys_ok s" and "f \<in> set (s_flights s)" and "fl_out f = Some out"
  shows "persistable (out, fl_inst f, s_db s)"
  using assms claims_held [of "s_now s" "s_db s" f]
  by (cases out) (auto simp: sys_ok_def flights_ok_def copy_ok_def persistable_def)

lemma persistable_copy:
  assumes "persistable (out, i, db)" and "out \<noteq> Noop" and "out \<noteq> Crashed"
  shows "copy_ok (f\<lparr>fl_inst := i, fl_out := Some out\<rparr>)"
  using assms by (cases out) (auto simp: persistable_def copy_ok_def)

subsection \<open>Every step keeps it\<close>

text \<open>A transaction on rows nobody holds, or that leaves what is held as it is.\<close>

lemma sys_ok_spared:
  assumes "sys_ok s" and "tree_ok (d_rows db)" and "spares {} (d_rows (s_db s)) (d_rows db)"
      and "leased_rows (d_rows (s_db s)) \<Longrightarrow> leased_rows (d_rows db)"
  shows "sys_ok (s\<lparr>s_db := db\<rparr>)"
  using assms flights_ok_spares by (auto simp: sys_ok_def)

lemma sys_ok_left:
  assumes "sys_ok s" and "tree_ok (d_rows db)" and "leaves {} (d_rows (s_db s)) (d_rows db)"
  shows "sys_ok (s\<lparr>s_db := db\<rparr>)"
  using assms sys_ok_spared by (simp add: leaves_def)

lemma run_ok:
  assumes ok: "sys_ok s" and fs: "s_flights s = fs @ f # gs" and out: "fl_out f = None" and ids: "ids_ok sv"
      and adv: "advance sv (s_now s) (fl_inst f) (s_db s) = (out, i, db)"
  shows "sys_ok (s\<lparr>s_db := db, s_flights := fs @ landed f out i @ gs\<rparr>)"
proof -
  have w: "workable (fl_inst f, s_db s)" using flight_workable [OF ok _ out] fs by simp
  from advance_halts [OF ids, of "fl_inst f" "s_db s" "s_now s"] adv
  have h: "halts (fl_inst f, s_db s) (out, i, db)" by simp
  with w have p: "persistable (out, i, db)" and place: "same_place_inst (fl_inst f) i"
    and lv: "leaves (own_ids (out, i, db)) (d_rows (s_db s)) (d_rows db)"
    by (simp_all add: halts_def)
  note sp = leaves_spares [OF lv]
  have "leased_rows (d_rows db)" using ok lv by (simp add: sys_ok_def leaves_def)
  from p have tree: "tree_ok (d_rows db)" by (simp add: persistable_def)
  from ok fs have f0: "flights_ok (s_now s) (d_rows (s_db s)) (fs @ f # gs)" by (simp add: sys_ok_def)
  have "flights_ok (s_now s) (d_rows db) (fs @ landed f out i @ gs)"
  proof (cases "out = Noop \<or> out = Crashed")
    case True
    have "fl_id ` set (fs @ gs) \<inter> own_ids (out, i, db) = {}"
      using flights_ok_other [OF f0] place by (auto simp: own_ids_def fl_id_def same_place_inst_def)
    with True flights_ok_spares [OF flights_ok_remove [OF f0] sp] show ?thesis by (simp add: landed_def)
  next
    case False
    let ?f = "f\<lparr>fl_inst := i, fl_out := Some out\<rparr>"
    from False sp have "spares {} (d_rows (s_db s)) (d_rows db)" by (simp add: own_ids_def)
    from flights_ok_spares [OF f0 this] have f1: "flights_ok (s_now s) (d_rows db) (fs @ f # gs)" by simp
    have "fl_id ?f = fl_id f" using place by (simp add: fl_id_def same_place_inst_def)
    moreover have "claims (s_now s) (d_rows db) ?f" using f1 claims_same [OF place] by (simp add: flights_ok_def)
    moreover have "copy_ok ?f" using persistable_copy [OF p] False by simp
    ultimately show ?thesis using f1 False by (auto simp: landed_def flights_ok_def)
  qed
  with tree \<open>leased_rows (d_rows db)\<close> show ?thesis by (simp add: sys_ok_def)
qed

lemma parent_differs:
  assumes "tree_ok rows" and "r \<in> set rows"
  shows "r_parent r \<noteq> r_id r"
proof
  assume p: "r_parent r = r_id r"
  have wf: "wf_rows rows" using assms(1) by (simp add: tree_ok_def)
  with assms(2) p wf_id have "(r, r) \<in> child_rel rows" by (auto simp: child_rel_def)
  with stack_length [OF wf] show False by fastforce
qed

lemma persist_leaves:
  assumes "tree_ok (d_rows db)" and "held db i" and "persist sv now i out db = Inr db'"
  shows "leaves {inst_id i} (d_rows db) (d_rows db')"
proof -
  from assms(2) obtain r where r: "r \<in> set (d_rows db)" "agrees i r" by (auto simp: held_def)
  with parent_differs [OF assms(1)] have "inst_parent i \<noteq> inst_id i" by (auto simp: agrees_def)
  with assms(3) tree_okD(1) [OF assms(1)] show ?thesis
    using update_instance_leaves update_instance_progress_leaves finish_child_leaves fail_instance_and_ancestors_leaves
    by (cases out) (auto simp: persist_def save_and_notify_def split: if_splits)
qed

lemma persist_step_ok:
  assumes ok: "sys_ok s" and fs: "s_flights s = fs @ f # gs" and out: "fl_out f = Some out"
      and p: "persist sv (s_now s) (fl_inst f) out (s_db s) = Inr db"
  shows "sys_ok (s\<lparr>s_db := db, s_flights := fs @ gs\<rparr>)"
proof -
  have tree: "tree_ok (d_rows (s_db s))" using ok by (simp add: sys_ok_def)
  from ok fs have f0: "flights_ok (s_now s) (d_rows (s_db s)) (fs @ f # gs)" by (simp add: sys_ok_def)
  then have "held (s_db s) (fl_inst f)" using claims_held by (auto simp: flights_ok_def)
  from persist_leaves [OF tree this p] have lv: "leaves {fl_id f} (d_rows (s_db s)) (d_rows db)" by (simp add: fl_id_def)
  from flights_ok_spares [OF flights_ok_remove [OF f0] leaves_spares [OF lv] flights_ok_other [OF f0]]
  have "flights_ok (s_now s) (d_rows db) (fs @ gs)" .
  moreover have "tree_ok (d_rows db)" using persist_ok [OF flight_persistable [OF ok _ out] p] fs by simp
  moreover have "leased_rows (d_rows db)" using ok lv by (simp add: sys_ok_def leaves_def)
  ultimately show ?thesis by (simp add: sys_ok_def)
qed

lemma claimed_flight:
  assumes "r \<in> set (candidates now limit db)" and "claim_instances w now dur limit db = (claimed, db')" and "0 < dur"
  shows "claims now (d_rows db') \<lparr>fl_worker = w, fl_inst = claimed_instance w (now + dur) r, fl_out = None\<rparr>"
    and "copy_ok \<lparr>fl_worker = w, fl_inst = claimed_instance w (now + dur) r, fl_out = None\<rparr>"
proof -
  have r: "r \<in> set (d_rows db)" "claimable now r" using candidates_claimable [OF assms(1)] by simp_all
  have "leased w (now + dur) r \<in> set (d_rows db')"
    using assms(1,2) r(1) by (auto simp: claim_instances_def Let_def table_simps intro!: bexI [of _ r])
  then show "claims now (d_rows db') \<lparr>fl_worker = w, fl_inst = claimed_instance w (now + dur) r, fl_out = None\<rparr>"
    unfolding claims_def
    by (rule bexI [rotated])
      (use r(2) assms(3) in \<open>auto simp: agrees_def claimed_instance_def to_instance_def leased_def in_hand_def live_lease_def claimable_def terminal_def\<close>)
  show "copy_ok \<lparr>fl_worker = w, fl_inst = claimed_instance w (now + dur) r, fl_out = None\<rparr>"
    using r(2) by (auto simp: copy_ok_def claimed_instance_def to_instance_def claimable_def terminal_def)
qed

lemma claim_ok:
  assumes ok: "sys_ok s" and c: "claim_instances w (s_now s) dur limit (s_db s) = (claimed, db)" and dur: "0 < dur"
  shows "sys_ok (s\<lparr>s_db := db, s_flights := s_flights s @ map (\<lambda>i. \<lparr>fl_worker = w, fl_inst = i, fl_out = None\<rparr>) claimed\<rparr>)"
proof -
  let ?new = "map (\<lambda>i. \<lparr>fl_worker = w, fl_inst = i, fl_out = None\<rparr>) claimed"
  have tree: "tree_ok (d_rows (s_db s))" using ok by (simp add: sys_ok_def)
  note d = tree_okD(1) [OF tree]
  have cl: "claimed = map (claimed_instance w (s_now s + dur)) (candidates (s_now s) limit (s_db s))"
    using c by (simp add: claim_instances_def Let_def)
  have ids: "map fl_id ?new = map r_id (candidates (s_now s) limit (s_db s))"
    by (simp add: cl fl_id_def claimed_instance_def to_instance_def)
  have dist: "distinct (map r_id (candidates (s_now s) limit (s_db s)))"
    using d by (simp add: candidates_def distinct_map inj_on_def)
      (metis (no_types, lifting) in_set_takeD mem_Collect_eq set_filter set_sort)
  have old: "claims (s_now s) (d_rows db) f \<and> fl_id f \<notin> fl_id ` set ?new" if f: "f \<in> set (s_flights s)" for f
  proof -
    from ok f have "claims (s_now s) (d_rows (s_db s)) f" by (simp add: sys_ok_def flights_ok_def)
    then obtain r where r: "r \<in> set (d_rows (s_db s))" "agrees (fl_inst f) r" "in_hand r"
      "r_worker r = Some (fl_worker f)" "live_lease (s_now s) r" by (auto simp: claims_def)
    from claim_instances_live [OF c d r(1,5)] have "r \<in> set (d_rows db)" "r_id r \<notin> inst_id ` set claimed" by simp_all
    with r show ?thesis by (auto simp: claims_def fl_id_def agrees_def)
  qed
  have new: "claims (s_now s) (d_rows db) f \<and> copy_ok f" if "f \<in> set ?new" for f
    using that claimed_flight [OF _ c dur] by (auto simp: cl)
  have "flights_ok (s_now s) (d_rows db) (s_flights s @ ?new)"
    unfolding flights_ok_def
  proof
    have "distinct (map fl_id (s_flights s))" using ok by (simp add: sys_ok_def flights_ok_def)
    moreover have "distinct (map fl_id ?new)" using ids dist by simp
    moreover have "set (map fl_id (s_flights s)) \<inter> set (map fl_id ?new) = {}" using old by auto
    ultimately show "distinct (map fl_id (s_flights s @ ?new))" unfolding map_append distinct_append by simp
    show "\<forall>f \<in> set (s_flights s @ ?new). claims (s_now s) (d_rows db) f \<and> copy_ok f"
      using old new ok by (auto simp: sys_ok_def flights_ok_def)
  qed
  moreover have "leased_rows (d_rows db)" using ok claim_instances_settled(2) [OF c] by (simp add: sys_ok_def)
  ultimately show ?thesis using claim_instances_ok [OF tree c] by (simp add: sys_ok_def)
qed

lemma tick_ok:
  assumes ok: "sys_ok s" and "\<forall>f \<in> set (s_flights s). lease_held t (d_rows (s_db s)) f"
  shows "sys_ok (s\<lparr>s_now := t\<rparr>)"
proof -
  have "claims t (d_rows (s_db s)) f" if f: "f \<in> set (s_flights s)" for f
  proof -
    from ok f obtain r where r: "r \<in> set (d_rows (s_db s))" "agrees (fl_inst f) r" "in_hand r"
      "r_worker r = Some (fl_worker f)" by (auto simp: sys_ok_def flights_ok_def claims_def)
    from assms(2) f obtain q where q: "q \<in> set (d_rows (s_db s))" "r_id q = fl_id f" "live_lease t q"
      by (auto simp: lease_held_def)
    from ok have "distinct (map r_id (d_rows (s_db s)))" by (simp add: sys_ok_def tree_okD)
    from same_id_same_row [OF this r(1) q(1)] r(2) q(2) have "r = q" by (simp add: agrees_def fl_id_def)
    with r q(3) show ?thesis by (auto simp: claims_def)
  qed
  with ok show ?thesis by (simp add: sys_ok_def flights_ok_def)
qed

lemma create_ok:
  assumes "sys_ok s" and "inst_parent i = []" and "inst_call_stack i = []" and "inst_id i \<noteq> []" and "inst_wait i = WaitNone"
      and "save_instance hash (s_now s) i (s_db s) = Inr db"
  shows "sys_ok (s\<lparr>s_db := db\<rparr>)"
proof (rule sys_ok_left [OF assms(1)])
  have tree: "tree_ok (d_rows (s_db s))" using assms(1) by (simp add: sys_ok_def)
  from save_root_ok [OF tree assms(2-4) _ assms(6)] assms(5) show "tree_ok (d_rows db)" by simp
  from save_instance_rows(1) [OF assms(6)] obtain cols where
    "d_rows db = d_rows (s_db s) @ [insert_params i cols (inst_status i) (s_now s) (s_now s)]" by blast
  then show "leaves {} (d_rows (s_db s)) (d_rows db)" using leaves_append by (simp add: insert_params_def)
qed

lemma step_keeps_sys_ok:
  assumes "step e s s'" and ok: "sys_ok s"
  shows "sys_ok s'"
  using assms(1)
proof (cases rule: step.cases)
  have tree: "tree_ok (d_rows (s_db s))" using ok by (simp add: sys_ok_def)
  note left = sys_ok_left [OF ok]
  {
    case claim
    then show ?thesis using claim_ok [OF ok] by simp
  next
    case run
    then show ?thesis using run_ok [OF ok] by simp
  next
    case persist
    then show ?thesis using persist_step_ok [OF ok] by simp
  next
    case (lose fs f gs)
    with ok flights_ok_remove show ?thesis by (auto simp: sys_ok_def)
  next
    case (renew w dur)
    show ?thesis unfolding renew(2)
      by (rule left [OF renew_worker_leases_ok [OF tree] renew_worker_leases_leaves [OF tree_okD(1) [OF tree]]])
  next
    case tick
    then show ?thesis using tick_ok [OF ok] by simp
  next
    case create
    then show ?thesis using create_ok [OF ok] by simp
  next
    case (cancel k db)
    then show ?thesis using left [OF cancel_process_ok [OF tree] cancel_process_leaves] by simp
  next
    case (retry k force db)
    then show ?thesis using sys_ok_spared [OF ok retry_process_ok [OF tree] retry_process_spares [OF tree] retry_process_settled(1) [OF tree]] by simp
  next
    case (resolve k token v db)
    then show ?thesis using left [OF resolve_external_task_ok [OF tree] resolve_external_task_leaves] by simp
  next
    case (signal k t sid v b db)
    then show ?thesis using left [OF deliver_signal_ok [OF tree] deliver_signal_leaves] by simp
  next
    case collect
    show ?thesis unfolding collect by (rule left) (simp_all add: delete_expired_objects_def tree)
  next
    case (deploy defs)
    show ?thesis unfolding deploy by (rule left) (simp_all add: tree)
  }
qed

lemma reachable_sys_ok: "reachable s \<Longrightarrow> sys_ok s"
proof (induction rule: reachable.induct)
  case (start s)
  then show ?case by (simp add: initial_def sys_ok_def flights_ok_def tree_ok_def wf_rows_def leased_rows_def)
next
  case (step s e s')
  then show ?case using step_keeps_sys_ok by blast
qed

end
