(* ===== verification/SystemProps.thy ===== *)
theory SystemProps
  imports EngineSteps
begin

section \<open>What holds of the running system\<close>

text \<open>
  The properties of every reachable state and every step: the status of a tree, the exclusiveness
  of claims, the finality of finished work and the absence of stuck instances. Reachable states are
  those of runs in which no advance outlives its lease; what claims keep when one does is stated
  under a free clock. A small run with one instance, created, claimed and cancelled, shows each at
  work.
\<close>

subsection \<open>Finished work\<close>

lemma freezes_active:
  assumes "freezes {i} rows rows'" and "\<forall>r \<in> set rows. r_id r = i \<longrightarrow> active (r_status r)"
  shows "freezes {} rows rows'"
  using assms by (fastforce simp: freezes_def)

lemma flight_row_active:
  assumes "sys_ok s" and "f \<in> set (s_flights s)"
  shows "\<forall>r \<in> set (d_rows (s_db s)). r_id r = fl_id f \<longrightarrow> active (r_status r)"
proof (intro ballI impI)
  fix r assume r: "r \<in> set (d_rows (s_db s))" "r_id r = fl_id f"
  from assms obtain q where q: "q \<in> set (d_rows (s_db s))" "agrees (fl_inst f) q" "in_hand q"
    by (auto simp: sys_ok_def flights_ok_def claims_def)
  have "distinct (map r_id (d_rows (s_db s)))" using assms(1) by (simp add: sys_ok_def tree_okD)
  from same_id_same_row [OF this r(1) q(1)] r(2) q(2) have "r = q" by (simp add: agrees_def fl_id_def)
  with q(3) show "active (r_status r)" by (simp add: in_hand_def)
qed

lemma run_freezes:
  assumes ok: "sys_ok s" and f: "f \<in> set (s_flights s)" and ids: "ids_ok sv"
      and adv: "advance sv now (fl_inst f) (s_db s) = (out, i, db)"
  shows "freezes {} (d_rows (s_db s)) (d_rows db)"
proof -
  have "halts (fl_inst f, s_db s) (out, i, db)" using advance_halts [OF ids, of "fl_inst f" "s_db s" now] adv by simp
  then have "leaves (own_ids (out, i, db)) (d_rows (s_db s)) (d_rows db)" and "inst_id i = fl_id f"
    by (simp_all add: halts_def fl_id_def same_place_inst_def)
  then have "freezes {fl_id f} (d_rows (s_db s)) (d_rows db)"
    by (auto simp: leaves_def own_ids_def intro: freezes_weaken split: if_splits)
  then show ?thesis using flight_row_active [OF ok f] by (rule freezes_active)
qed

lemma persist_freezes:
  assumes ok: "sys_ok s" and f: "f \<in> set (s_flights s)"
      and p: "persist sv now (fl_inst f) out (s_db s) = Inr db"
  shows "freezes {} (d_rows (s_db s)) (d_rows db)"
proof -
  have "held (s_db s) (fl_inst f)" using ok f claims_held by (auto simp: sys_ok_def flights_ok_def)
  from persist_leaves [OF _ this p] ok have "freezes {fl_id f} (d_rows (s_db s)) (d_rows db)"
    by (simp add: sys_ok_def leaves_def fl_id_def)
  then show ?thesis using flight_row_active [OF ok f] by (rule freezes_active)
qed

lemma leaves_freezes: "leaves i rows rows' \<Longrightarrow> freezes i rows rows'"
  by (simp add: leaves_def)

lemma step_freezes:
  assumes "step e s s'" and ok: "sys_ok s" and no: "\<And>k. e \<noteq> Retry k"
  shows "freezes {} (d_rows (s_db s)) (d_rows (s_db s'))"
proof -
  have tree: "tree_ok (d_rows (s_db s))" using ok by (simp add: sys_ok_def)
  from assms(1) show ?thesis
  proof (cases rule: step.cases)
    case claim
    then show ?thesis using claim_instances_settled(1) by simp
  next
    case (run fs f gs sv out i db)
    from run_freezes [OF ok _ run(5) run(6)] run(2,3) show ?thesis by simp
  next
    case (persist fs f gs out sv db)
    then show ?thesis using persist_freezes [OF ok, of f sv "s_now s" out db] by simp
  next
    case renew
    then show ?thesis using leaves_freezes [OF renew_worker_leases_leaves [OF tree_okD(1) [OF tree]]] by simp
  next
    case (create i hash db)
    from save_instance_rows(1) [OF create(8)] create(2) show ?thesis
      using leaves_freezes [OF leaves_append] by (auto simp: insert_params_def)
  next
    case cancel
    then show ?thesis using leaves_freezes [OF cancel_process_leaves] by simp
  next
    case resolve
    then show ?thesis using leaves_freezes [OF resolve_external_task_leaves] by simp
  next
    case signal
    then show ?thesis using leaves_freezes [OF deliver_signal_leaves] by simp
  qed (use no in \<open>auto simp: delete_expired_objects_def\<close>)
qed

text \<open>A retry keeps what is completed.\<close>

lemma step_keeps_completed:
  assumes "step e s s'" and ok: "sys_ok s" and r: "r \<in> set (d_rows (s_db s))" "r_status r = Completed"
  shows "\<exists>q \<in> set (d_rows (s_db s')). same_result r q"
proof (cases "\<exists>k. e = Retry k")
  case True
  with assms(1) obtain k force db where "retry_process (s_now s) k force (s_db s) = Inr db" "s_db s' = db"
    by (auto elim: step.cases)
  moreover from ok have "tree_ok (d_rows (s_db s))" by (simp add: sys_ok_def)
  ultimately have "r \<in> set (d_rows (s_db s'))" using retry_process_settled(2) r by blast
  then show ?thesis using same_result_refl by blast
next
  case False
  with step_freezes [OF assms(1,2)] r show ?thesis by (auto simp: freezes_def terminal_def)
qed


fun steps :: "event list \<Rightarrow> system \<Rightarrow> system \<Rightarrow> bool" where
  "steps [] s s' \<longleftrightarrow> s' = s"
| "steps (e # es) s s' \<longleftrightarrow> (\<exists>m. step e s m \<and> steps es m s')"

lemma steps_reachable: "reachable s \<Longrightarrow> steps es s s' \<Longrightarrow> reachable s'"
  by (induction es arbitrary: s) (auto intro: reachable.step)

lemma steps_keep_result:
  "reachable s \<Longrightarrow> steps es s s' \<Longrightarrow> r \<in> set (d_rows (s_db s)) \<Longrightarrow>
   terminal (r_status r) \<Longrightarrow> r_status r = Completed \<or> (\<forall>k. Retry k \<notin> set es) \<Longrightarrow>
   \<exists>q \<in> set (d_rows (s_db s')). same_result r q"
proof (induction es arbitrary: s r)
  case Nil
  then have "r \<in> set (d_rows (s_db s'))" by simp
  then show ?case using same_result_refl by blast
next
  case (Cons e es)
  then obtain m where m: "step e s m" "steps es m s'" by auto
  have ok: "sys_ok s" using Cons.prems(1) by (rule reachable_sys_ok)
  have "\<exists>q \<in> set (d_rows (s_db m)). same_result r q"
  proof (cases "r_status r = Completed")
    case True
    with step_keeps_completed [OF m(1) ok Cons.prems(3)] show ?thesis .
  next
    case False
    with Cons.prems(5) have "\<And>k. e \<noteq> Retry k" by auto
    from step_freezes [OF m(1) ok this] Cons.prems(3,4) show ?thesis by (auto simp: freezes_def)
  qed
  then obtain q where q: "q \<in> set (d_rows (s_db m))" "same_result r q" by blast
  have "reachable m" using Cons.prems(1) m(1) by (rule reachable.step)
  from Cons.IH [OF this m(2) q(1)] q(2) Cons.prems(4,5) show ?case
    by (auto simp: same_result_def)
qed

subsection \<open>Stuck instances\<close>

text \<open>Below an active instance there is an active one that does not wait for children.\<close>

lemma working_descendant:
  assumes ok: "tree_ok rows"
  shows "a \<in> set rows \<Longrightarrow> active (r_status a) \<Longrightarrow>
     \<exists>c \<in> set rows. below rows a c \<and> active (r_status c) \<and> r_wait c \<noteq> Waiting"
proof (induction "length rows - length (r_call_stack a)" arbitrary: a rule: less_induct)
  case (less a)
  have wf: "wf_rows rows" using ok by (simp add: tree_ok_def)
  show ?case
  proof (cases "r_wait a = Waiting")
    case False
    with less.prems show ?thesis by blast
  next
    case True
    with tree_okD(4) [OF ok less.prems(1)] obtain c where c: "c \<in> set rows" "awaited a c"
      by (auto simp: parent_served_def)
    with less.prems(1) wf_id [OF wf less.prems(1)] have rel: "(a, c) \<in> child_rel rows"
      by (auto simp: child_rel_def awaited_def)
    with stack_length [OF wf this] stack_shorter [OF wf c(1)]
    have "length rows - length (r_call_stack c) < length rows - length (r_call_stack a)" by simp
    from less.hyps [OF this c(1)] c(2) obtain d where
      "d \<in> set rows" "below rows c d" "active (r_status d)" "r_wait d \<noteq> Waiting" by (auto simp: awaited_def)
    moreover from rel this(2) have "below rows a d" by (rule converse_rtrancl_into_rtrancl)
    ultimately show ?thesis by blast
  qed
qed

text \<open>Parked on an external task without a deadline.\<close>

definition awaits_result :: "row \<Rightarrow> bool" where
  "awaits_result r \<longleftrightarrow> r_status r = Running \<and> r_wait r = External \<and> r_wake_at r = None"

lemma claimable_in_time:
  assumes "active (r_status r)" and "r_wait r \<noteq> Waiting" and "r_worker r \<noteq> None \<longrightarrow> r_lease r \<noteq> None"
      and "\<not> awaits_result r"
  shows "\<exists>t. \<forall>now \<ge> t. claimable now r"
proof -
  let ?t = "max (case r_wake_at r of None \<Rightarrow> 0 | Some w \<Rightarrow> w) (case r_lease r of None \<Rightarrow> 0 | Some l \<Rightarrow> l)"
  have "claimable now r" if "?t \<le> now" for now
    using assms that by (cases "r_status r"; cases "r_worker r")
      (auto simp: claimable_def due_def awaits_result_def terminal_def split: option.splits)
  then show ?thesis by blast
qed

subsection \<open>A free clock\<close>

text \<open>
  The steps above let time pass only while every lease of a flight is live. Here the clock is
  free: a worker may stall past its lease (\<open>engine.go\<close>, \<open>OverwhelmError\<close>), which is a state that
  \<open>overran\<close>, and its flight goes on all the same. A path is a list of events with the states after
  them.
\<close>

definition free_step :: "event \<Rightarrow> system \<Rightarrow> system \<Rightarrow> bool" where
  "free_step e s s' \<longleftrightarrow> step e s s' \<or> (e = Tick \<and> (\<exists>t \<ge> s_now s. s' = s\<lparr>s_now := t\<rparr>))"

fun path :: "(event \<times> system) list \<Rightarrow> system \<Rightarrow> bool" where
  "path [] s \<longleftrightarrow> True"
| "path ((e, m) # p) s \<longleftrightarrow> free_step e s m \<and> path p m"

definition overran :: "system \<Rightarrow> bool" where
  "overran s \<longleftrightarrow> (\<exists>f \<in> set (s_flights s). \<not> lease_held (s_now s) (d_rows (s_db s)) f)"

lemma timely_free_step: "free_step e s m \<Longrightarrow> \<not> overran m \<Longrightarrow> step e s m"
  by (auto simp: free_step_def overran_def step_tick)

lemma timely_path_reachable:
  "reachable s \<Longrightarrow> path p s \<Longrightarrow> \<forall>m \<in> set (map snd p). \<not> overran m \<Longrightarrow> reachable (last (s # map snd p))"
proof (induction p arbitrary: s)
  case (Cons a p)
  obtain e m where a: "a = (e, m)" by (cases a)
  with Cons.prems timely_free_step have "reachable m" by (auto intro: reachable.step)
  with Cons.IH [of m] Cons.prems a show ?case by (cases p) auto
qed simp

lemma reachable_exclusive:
  assumes "reachable s"
  shows "distinct (map fl_id (s_flights s)) \<and> (\<forall>f \<in> set (s_flights s). \<exists>r \<in> set (d_rows (s_db s)).
     r_id r = fl_id f \<and> active (r_status r) \<and> r_wait r \<noteq> Waiting
     \<and> r_worker r = Some (fl_worker f) \<and> live_lease (s_now s) r)"
  using reachable_sys_ok [OF assms]
  by (fastforce simp: sys_ok_def flights_ok_def claims_def agrees_def in_hand_def fl_id_def)

lemma claimable_not_live: "claimable now r \<Longrightarrow> \<not> live_lease now r"
  by (auto simp: claimable_def live_lease_def due_def split: option.splits)

lemma claim_takes_free_rows:
  assumes "step (Claim w) s s'"
  shows "\<exists>new. s_flights s' = s_flights s @ new \<and> (\<forall>f \<in> set new. fl_worker f = w \<and>
     (\<exists>r \<in> set (d_rows (s_db s)). r_id r = fl_id f \<and> claimable (s_now s) r \<and> \<not> live_lease (s_now s) r))"
  using assms
proof (cases rule: step.cases)
  case (claim dur limit claimed db)
  let ?new = "map (\<lambda>i. \<lparr>fl_worker = w, fl_inst = i, fl_out = None\<rparr>) claimed"
  have "\<exists>r \<in> set (d_rows (s_db s)). r_id r = inst_id i \<and> claimable (s_now s) r \<and> \<not> live_lease (s_now s) r"
    if "i \<in> set claimed" for i
  proof -
    from that claim(2) obtain r where "r \<in> set (candidates (s_now s) limit (s_db s))" "inst_id i = r_id r"
      by (auto simp: claim_instances_def Let_def claimed_instance_def to_instance_def leased_def)
    with candidates_claimable claimable_not_live show ?thesis by metis
  qed
  then have "\<forall>f \<in> set ?new. fl_worker f = w \<and> (\<exists>r \<in> set (d_rows (s_db s)).
      r_id r = fl_id f \<and> claimable (s_now s) r \<and> \<not> live_lease (s_now s) r)" by (simp add: fl_id_def)
  with claim(1) show ?thesis by auto
qed

text \<open>
  The check of \<open>dispatch\<close>: the worker claimed an instance that it is advancing. It is exact: when no
  lease was overrun, no claim makes it fail.
\<close>

definition overwhelmed :: "flight list \<Rightarrow> string \<Rightarrow> proc_instance list \<Rightarrow> bool" where
  "overwhelmed inflight w claimed \<longleftrightarrow>
     list_ex (\<lambda>i. list_ex (\<lambda>f. fl_worker f = w \<and> fl_id f = inst_id i) inflight) claimed"

lemma overwhelm_is_exact:
  assumes "reachable s" and "claim_instances w (s_now s) dur limit (s_db s) = (claimed, db)" and "0 < dur"
  shows "\<not> overwhelmed (s_flights s) w claimed"
proof -
  from reachable.step [OF assms(1) step.claim [OF assms(2,3)]] have
    "distinct (map fl_id (s_flights s @ map (\<lambda>i. \<lparr>fl_worker = w, fl_inst = i, fl_out = None\<rparr>) claimed))"
    using reachable_exclusive by fastforce
  then show ?thesis by (auto simp: overwhelmed_def list_ex_iff fl_id_def)
qed

subsection \<open>A run\<close>

definition demo_task :: task where
  "demo_task = \<lparr>task_id = ''t'',
     task_action = Some \<lparr>act_type = Rest, act_endpoint = ''http://shop/pay'', act_headers = [], act_accepted_status = [],
       act_result_schema = None, act_name = [], act_version = 0, act_input = None, act_children = [], act_ms = []\<rparr>,
     task_timeout_ms = 0, task_only_once = None,
     task_on_error = [\<lparr>err_codes = [], err_retries = 3, err_goto = [], err_not_reached = None\<rparr>],
     task_output = None, task_switch = [\<lparr>case_when = [], case_goto = goto_end\<rparr>]\<rparr>"

definition demo_definition :: process_definition where
  "demo_definition = \<lparr>def_name = ''pay'', def_tasks = [demo_task], def_input_schema = None,
     def_config_schema = None, def_output = None\<rparr>"

text \<open>Services where every call answers with the status given.\<close>

definition demo_services :: "int \<Rightarrow> services" where
  "demo_services st = \<lparr>sv_parse = \<lambda>_. None, sv_env = \<lambda>_. None,
     sv_http = \<lambda>_ _ _. HttpResponse st [] (Some GNil), sv_unmarshal = \<lambda>_. None, sv_hash = \<lambda>t. t,
     sv_fresh = ''n'', sv_child_id = \<lambda>p k. p @ ''-'', sv_dependency = \<lambda>_ _ _ _. None,
     sv_schema_text = \<lambda>_. [], sv_schema_parse = \<lambda>_. None, sv_immediate = False\<rparr>"

definition demo_start :: system where
  "demo_start = \<lparr>s_db = (db_with [])\<lparr>d_definitions := [((''pay'', 1), demo_definition)]\<rparr>, s_now = 0, s_flights = []\<rparr>"

definition demo_root :: proc_instance where
  "demo_root = (to_instance (blank_row ''a''))\<lparr>inst_process := ''pay'', inst_version := 1\<rparr>"

definition demo_created :: system where
  "demo_created = demo_start\<lparr>s_db := projr (save_instance (\<lambda>t. t) 0 demo_root (s_db demo_start))\<rparr>"

definition demo_claim :: "proc_instance list \<times> database" where
  "demo_claim = claim_instances ''w'' 0 30000 1 (s_db demo_created)"

definition demo_flight :: flight where
  "demo_flight = \<lparr>fl_worker = ''w'', fl_inst = hd (fst demo_claim), fl_out = None\<rparr>"

definition demo_claimed :: system where
  "demo_claimed = demo_created\<lparr>s_db := snd demo_claim, s_flights := [demo_flight]\<rparr>"

definition demo_cancelled :: system where
  "demo_cancelled = demo_claimed\<lparr>s_db := projr (cancel_process 0 ''a'' (s_db demo_claimed))\<rparr>"

definition demo_advanced :: "int \<Rightarrow> system \<Rightarrow> system" where
  "demo_advanced st s = (case advance (demo_services st) 0 (fl_inst demo_flight) (s_db s) of (out, i, db) \<Rightarrow>
     s\<lparr>s_db := db, s_flights := landed demo_flight out i\<rparr>)"

definition demo_persisted :: "system \<Rightarrow> system" where
  "demo_persisted s = s\<lparr>s_db := projr (persist (demo_services 0) 0 (fl_inst (hd (s_flights s)))
     (the (fl_out (hd (s_flights s)))) (s_db s)), s_flights := []\<rparr>"

lemma demo_ids: "ids_ok (demo_services st)"
  by (simp add: ids_ok_def demo_services_def)

lemma projr_Inr: "\<not> isl x \<Longrightarrow> x = Inr (projr x)"
  by (cases x) simp_all

lemma demo_initial: "initial demo_start"
  by (simp add: initial_def demo_start_def)

lemma demo_create_step: "step (Create ''a'') demo_start demo_created"
proof -
  have "\<not> isl (save_instance (\<lambda>t. t) 0 demo_root (s_db demo_start))" by code_simp
  from projr_Inr [OF this]
  have "save_instance (\<lambda>t. t) (s_now demo_start) demo_root (s_db demo_start) = Inr (s_db demo_created)"
    by (simp add: demo_created_def demo_start_def)
  from step.create [OF _ _ _ _ _ this] show ?thesis
    by (simp add: demo_created_def demo_root_def to_instance_def blank_row_def)
qed

lemma demo_created_reachable: "reachable demo_created"
  using reachable.step [OF reachable.start [OF demo_initial] demo_create_step] .

lemma demo_claim_step: "step (Claim ''w'') demo_created demo_claimed"
proof -
  have "length (fst demo_claim) = 1" by code_simp
  then have "fst demo_claim = [hd (fst demo_claim)]" by (cases "fst demo_claim") auto
  then have "claim_instances ''w'' (s_now demo_created) 30000 1 (s_db demo_created) = ([hd (fst demo_claim)], snd demo_claim)"
    by (simp add: demo_claim_def demo_created_def demo_start_def prod_eq_iff)
  from step.claim [OF this] show ?thesis
    by (simp add: demo_claimed_def demo_flight_def demo_created_def demo_start_def)
qed

lemma demo_claimed_reachable: "reachable demo_claimed"
  using reachable.step [OF demo_created_reachable demo_claim_step] .

lemma demo_path: "path [(Create ''a'', demo_created), (Claim ''w'', demo_claimed)] demo_start"
  by (simp add: free_step_def demo_create_step demo_claim_step)

lemma demo_timely: "\<not> overran demo_start" "\<not> overran demo_created" "\<not> overran demo_claimed"
proof -
  show "\<not> overran demo_start" "\<not> overran demo_created"
    by (simp_all add: overran_def demo_created_def demo_start_def)
  have "list_all (\<lambda>f. lease_held 0 (d_rows (s_db demo_claimed)) f) [demo_flight]" by code_simp
  then show "\<not> overran demo_claimed"
    by (simp add: overran_def demo_claimed_def demo_created_def demo_start_def)
qed

lemma demo_flights: "s_flights demo_claimed = [demo_flight]" "s_now demo_claimed = 0" "fl_id demo_flight = ''a''" "fl_out demo_flight = None"
  subgoal by (simp add: demo_claimed_def)
  subgoal by (simp add: demo_claimed_def demo_created_def demo_start_def)
  subgoal by code_simp
  subgoal by (simp add: demo_flight_def)
  done

text \<open>
  The worker \<open>w\<close> stalls for longer than its lease: a second worker claims the instance, and both
  advance it.
\<close>

definition stolen_claim :: "proc_instance list \<times> database" where
  "stolen_claim = claim_instances ''w2'' 30001 30000 1 (s_db demo_claimed)"

lemma overrun_lease_is_stolen:
  "\<exists>p t. path p demo_start \<and> last (demo_start # map snd p) = t \<and>
     map (\<lambda>f. (fl_id f, fl_worker f)) (s_flights t) = [(''a'', ''w''), (''a'', ''w2'')]"
proof -
  let ?late = "demo_claimed\<lparr>s_now := 30001\<rparr>"
  let ?t = "?late\<lparr>s_db := snd stolen_claim,
      s_flights := [demo_flight] @ map (\<lambda>i. \<lparr>fl_worker = ''w2'', fl_inst = i, fl_out = None\<rparr>) (fst stolen_claim)\<rparr>"
  have ids: "map inst_id (fst stolen_claim) = [''a'']" by code_simp
  have "claim_instances ''w2'' (s_now ?late) 30000 1 (s_db ?late) = (fst stolen_claim, snd stolen_claim)"
    by (simp add: stolen_claim_def)
  from step.claim [OF this] have "step (Claim ''w2'') ?late ?t" by (simp add: demo_flights)
  moreover have "free_step Tick demo_claimed ?late"
    unfolding free_step_def by (intro disjI2 conjI exI [of _ 30001]) (simp_all add: demo_flights)
  ultimately have "path [(Create ''a'', demo_created), (Claim ''w'', demo_claimed), (Tick, ?late), (Claim ''w2'', ?t)] demo_start"
    using demo_path by (simp add: free_step_def)
  moreover have "map (\<lambda>f. (fl_id f, fl_worker f)) (s_flights ?t) = [(''a'', ''w''), (''a'', ''w2'')]"
    using ids demo_flights(3) by (auto simp: fl_id_def demo_flight_def)
  ultimately show ?thesis by (intro exI [of _ "[(Create ''a'', demo_created), (Claim ''w'', demo_claimed), (Tick, ?late), (Claim ''w2'', ?t)]"] exI [of _ ?t]) simp
qed

lemma demo_cancel_step: "step (Cancel ''a'') demo_claimed demo_cancelled"
proof -
  have "\<not> isl (cancel_process 0 ''a'' (s_db demo_claimed))" by code_simp
  from projr_Inr [OF this] have "cancel_process (s_now demo_claimed) ''a'' (s_db demo_claimed) = Inr (s_db demo_cancelled)"
    by (simp add: demo_cancelled_def demo_flights)
  from step.cancel [OF this] show ?thesis by (simp add: demo_cancelled_def)
qed

lemma demo_cancelled_flights: "s_flights demo_cancelled = [demo_flight]" "s_now demo_cancelled = 0"
  by (simp_all add: demo_cancelled_def demo_flights)

lemma demo_run_step:
  assumes "s_flights s = [demo_flight]" and "s_now s = 0"
  shows "step (Run ''a'') s (demo_advanced st s)"
proof -
  obtain out i db where adv: "advance (demo_services st) 0 (fl_inst demo_flight) (s_db s) = (out, i, db)"
    by (cases "advance (demo_services st) 0 (fl_inst demo_flight) (s_db s)") auto
  from step.run [of s "[]" demo_flight "[]" "demo_services st"] assms adv demo_ids demo_flights
  show ?thesis by (simp add: demo_advanced_def)
qed

lemma demo_persist_step:
  assumes "s_flights s = [f]" and "s_now s = 0" and "fl_out f = Some out" and "fl_id f = ''a''"
      and "\<not> isl (persist (demo_services 0) 0 (fl_inst f) out (s_db s))"
  shows "step (Persist ''a'') s (demo_persisted s)"
proof -
  from projr_Inr [OF assms(5)] assms have "persist (demo_services 0) (s_now s) (fl_inst f) out (s_db s) = Inr (s_db (demo_persisted s))"
    by (simp add: demo_persisted_def)
  from step.persist [of s "[]" f "[]", OF _ assms(3) this] assms show ?thesis by (simp add: demo_persisted_def)
qed

subsection \<open>Properties\<close>

text \<open>
  C2: when an instance is completed, failed or cancelled, so is every instance below it, and none
  of them waits for anything: a settled root means a settled tree, in every state the workers and
  the API can reach together, as long as no advance outlives its lease.
\<close>

theorem settled_root_settled_tree:
  assumes "reachable s" and "below (d_rows (s_db s)) a c" and "a \<in> set (d_rows (s_db s))" and "terminal (r_status a)"
  shows "terminal (r_status c) \<and> r_wait c \<noteq> Waiting"
proof -
  have ok: "tree_ok (d_rows (s_db s))" using reachable_sys_ok [OF assms(1)] by (simp add: sys_ok_def)
  have "terminal (r_status c)" using terminal_below [OF ok assms(2,4)] .
  with tree_okD(4) [OF ok below_rows [OF assms(2,3)]] show ?thesis by (auto simp: parent_served_def)
qed

text \<open>
  C3: as long as no advance outlived its lease, no two workers advance the same instance, and while
  a worker advances one its row stays active and leased to that worker, whatever cancellations,
  signals, failures of relatives and claims of others come in between. The clock of these runs is
  free: a worker may stall for as long as it likes, and then the run contains a state where a
  lease was overrun. Also in such runs a claim takes only instances that are runnable and whose
  lease has ended (or that nobody holds), so an instance is taken from a worker only after the
  worker's lease has ended; \<open>overrun_lease_is_stolen\<close> shows it being taken, while the old worker
  still advances it.
\<close>

theorem claims_are_exclusive:
  assumes "initial s" and "path p s" and "last (s # map snd p) = t"
  shows "(distinct (map fl_id (s_flights t)) \<and> (\<forall>f \<in> set (s_flights t). \<exists>r \<in> set (d_rows (s_db t)).
       r_id r = fl_id f \<and> active (r_status r) \<and> r_wait r \<noteq> Waiting
       \<and> r_worker r = Some (fl_worker f) \<and> live_lease (s_now t) r)
     \<or> (\<exists>m \<in> set (s # map snd p). overran m))
   \<and> (\<forall>w t'. free_step (Claim w) t t' \<longrightarrow> (\<exists>new. s_flights t' = s_flights t @ new \<and>
       (\<forall>f \<in> set new. fl_worker f = w \<and> (\<exists>r \<in> set (d_rows (s_db t)). r_id r = fl_id f
         \<and> claimable (s_now t) r \<and> \<not> live_lease (s_now t) r))))"
proof (rule conjI, rule disjCI)
  assume "\<not> (\<exists>m \<in> set (s # map snd p). overran m)"
  then have "reachable t"
    using timely_path_reachable [OF reachable.start [OF assms(1)] assms(2)] assms(3) by auto
  then show "distinct (map fl_id (s_flights t)) \<and> (\<forall>f \<in> set (s_flights t). \<exists>r \<in> set (d_rows (s_db t)).
       r_id r = fl_id f \<and> active (r_status r) \<and> r_wait r \<noteq> Waiting
       \<and> r_worker r = Some (fl_worker f) \<and> live_lease (s_now t) r)" by (rule reachable_exclusive)
qed (use claim_takes_free_rows in \<open>auto simp: free_step_def\<close>)

text \<open>
  C1: no instance is ever stuck, as long as no advance outlives its lease. Below every active instance
  (or at it) there is an active one that some worker will be able to claim once enough time has
  passed, or that waits for the result of an external task without a deadline. No wake-up of a parent
  is lost, whatever the order in which its children finish, fail and are cancelled.
\<close>

theorem no_instance_is_stuck:
  assumes "reachable s" and "a \<in> set (d_rows (s_db s))" and "active (r_status a)"
  shows "\<exists>c \<in> set (d_rows (s_db s)). below (d_rows (s_db s)) a c \<and> active (r_status c)
     \<and> (awaits_result c \<or> (\<exists>t. \<forall>now \<ge> t. claimable now c))"
proof -
  have ok: "tree_ok (d_rows (s_db s))" "leased_rows (d_rows (s_db s))"
    using reachable_sys_ok [OF assms(1)] by (simp_all add: sys_ok_def)
  from working_descendant [OF ok(1) assms(2,3)] obtain c where
    c: "c \<in> set (d_rows (s_db s))" "below (d_rows (s_db s)) a c" "active (r_status c)" "r_wait c \<noteq> Waiting" by blast
  from ok(2) c(1) have "r_worker c \<noteq> None \<longrightarrow> r_lease c \<noteq> None" by (simp add: leased_rows_def)
  with claimable_in_time [OF c(3,4)] c show ?thesis by blast
qed

text \<open>
  C4: what is finished stays finished, as long as no advance outlives its lease. Through any further
  events a completed instance keeps its status, its task, its outputs and its error; a failed or
  cancelled one does as long as nobody retries a process.
\<close>

theorem finished_work_is_final:
  assumes "reachable s" and "steps es s s'" and "r \<in> set (d_rows (s_db s))"
      and "r_status r = Completed \<or> terminal (r_status r) \<and> (\<forall>k. Retry k \<notin> set es)"
  shows "\<exists>q \<in> set (d_rows (s_db s')). same_result r q"
  using steps_keep_result [OF assms(1-3)] assms(4) by (auto simp: terminal_def)

text \<open>
  C6: a cancellation can be lost. When a worker persists the outcome \<open>Update\<close> (a scheduled retry or
  an error route), \<open>UpdateInstance\<close> writes the status of the copy it claimed, so an instance that
  was being cancelled in the meantime is running again, although the request was accepted.
\<close>

theorem update_overwrites_cancellation:
  assumes "reachable s" and "s_flights s = fs @ f # gs" and "fl_out f = Some Update"
      and "inst_status (fl_inst f) = Running" and "persist sv now (fl_inst f) Update (s_db s) = Inr db"
  shows "\<exists>r \<in> set (d_rows db). r_id r = fl_id f \<and> r_status r = Running"
proof -
  have "sys_ok s" using assms(1) by (rule reachable_sys_ok)
  with assms(2) obtain r where r: "r \<in> set (d_rows (s_db s))" "agrees (fl_inst f) r"
    by (auto simp: sys_ok_def flights_ok_def claims_def)
  from assms(5) obtain cols where "d_rows db = update_where (has_id (inst_id (fl_inst f))) (write_row (fl_inst f) cols now) (d_rows (s_db s))"
    using update_instance_rows(1) by (fastforce simp: persist_def)
  with r have "write_row (fl_inst f) cols now r \<in> set (d_rows db)"
    by (auto simp: table_simps has_id_def agrees_def intro!: bexI [of _ r])
  then show ?thesis
    by (rule bexI [rotated]) (use r assms(4) in \<open>simp add: agrees_def fl_id_def\<close>)
qed

subsection \<open>Witnesses\<close>

definition demo_finished :: system where
  "demo_finished = demo_persisted (demo_advanced 200 demo_claimed)"

lemma demo_outcomes:
  "map (\<lambda>f. (fl_id f, fl_out f)) (s_flights (demo_advanced 200 demo_claimed)) = [(''a'', Some Terminal)]"
  "map (\<lambda>f. (fl_id f, fl_out f, inst_status (fl_inst f))) (s_flights (demo_advanced 500 demo_cancelled)) = [(''a'', Some Update, Running)]"
  "map (\<lambda>r. (r_id r, r_status r)) (d_rows (s_db (demo_advanced 500 demo_cancelled))) = [(''a'', Cancelling)]"
  "map (\<lambda>r. (r_id r, r_status r)) (d_rows (s_db demo_finished)) = [(''a'', Completed)]"
  "map (\<lambda>r. (r_id r, r_status r)) (d_rows (s_db demo_claimed)) = [(''a'', Running)]"
  by code_simp+

lemma demo_persistable:
  "list_all (\<lambda>f. \<not> isl (persist (demo_services 0) 0 (fl_inst f) Terminal (s_db (demo_advanced 200 demo_claimed)))) (s_flights (demo_advanced 200 demo_claimed))"
  "list_all (\<lambda>f. \<not> isl (persist (demo_services 0) 0 (fl_inst f) Update (s_db (demo_advanced 500 demo_cancelled)))) (s_flights (demo_advanced 500 demo_cancelled))"
  by code_simp+

lemma demo_advanced_now: "s_now (demo_advanced st s) = s_now s"
  by (simp add: demo_advanced_def split: prod.splits)

lemma demo_finished_steps: "steps [Run ''a'', Persist ''a''] demo_claimed demo_finished"
proof -
  from demo_outcomes(1) obtain f where f: "s_flights (demo_advanced 200 demo_claimed) = [f]"
    "fl_id f = ''a''" "fl_out f = Some Terminal" by auto
  with demo_persistable(1) demo_flights demo_persist_step [OF f(1) _ f(3,2)]
  have "step (Persist ''a'') (demo_advanced 200 demo_claimed) demo_finished"
    by (simp add: demo_advanced_now demo_finished_def)
  with demo_run_step [OF demo_flights(1,2), of 200] show ?thesis by auto
qed

lemma demo_finished_reachable: "reachable demo_finished"
  using steps_reachable [OF demo_claimed_reachable demo_finished_steps] .

lemma demo_cancelled_advanced: "reachable (demo_advanced 500 demo_cancelled)"
  using reachable.step [OF reachable.step [OF demo_claimed_reachable demo_cancel_step]
    demo_run_step [OF demo_cancelled_flights]] .

lemma map_Pair_elem: "map g xs = [y] \<Longrightarrow> \<exists>x \<in> set xs. g x = y"
  by auto

theorem settled_root_settled_tree_witness:
  "\<exists>a \<in> set (d_rows (s_db demo_finished)). r_status a = Completed \<and> r_wait a \<noteq> Waiting"
proof -
  from demo_outcomes(4) obtain a where a: "a \<in> set (d_rows (s_db demo_finished))" "r_status a = Completed" by auto
  with settled_root_settled_tree [OF demo_finished_reachable rtrancl_refl a(1)] show ?thesis by (auto simp: terminal_def)
qed

theorem claims_are_exclusive_witness:
  "distinct (map fl_id (s_flights demo_claimed)) \<and> (\<exists>r \<in> set (d_rows (s_db demo_claimed)).
     r_id r = ''a'' \<and> r_worker r = Some ''w'' \<and> live_lease 0 r)"
proof -
  have "\<not> (\<exists>m \<in> set [demo_start, demo_created, demo_claimed]. overran m)"
    using demo_timely by simp
  with claims_are_exclusive [OF demo_initial demo_path] have
    "distinct (map fl_id (s_flights demo_claimed)) \<and> (\<forall>f \<in> set (s_flights demo_claimed).
       \<exists>r \<in> set (d_rows (s_db demo_claimed)). r_id r = fl_id f \<and> active (r_status r) \<and> r_wait r \<noteq> Waiting
       \<and> r_worker r = Some (fl_worker f) \<and> live_lease (s_now demo_claimed) r)" by simp
  then show ?thesis by (auto simp: demo_flights) (auto simp: demo_flight_def)
qed

theorem no_instance_is_stuck_witness:
  "\<exists>c \<in> set (d_rows (s_db demo_claimed)). active (r_status c)"
proof -
  from demo_outcomes(5) obtain a where a: "a \<in> set (d_rows (s_db demo_claimed))" "r_status a = Running" by auto
  then have "active (r_status a)" by (simp add: terminal_def)
  with no_instance_is_stuck [OF demo_claimed_reachable a(1)] show ?thesis by blast
qed

theorem finished_work_is_final_witness:
  "\<exists>q \<in> set (d_rows (s_db (demo_finished\<lparr>s_now := 5\<rparr>))). r_status q = Completed"
proof -
  from demo_outcomes(4) obtain a where a: "a \<in> set (d_rows (s_db demo_finished))" "r_status a = Completed" by auto
  have "steps [Tick] demo_finished (demo_finished\<lparr>s_now := 5\<rparr>)"
    using step.tick [of demo_finished 5]
    by (simp add: demo_finished_def demo_persisted_def demo_advanced_now demo_flights)
  from finished_work_is_final [OF demo_finished_reachable this a(1)] a(2) show ?thesis
    by (auto simp: same_result_def)
qed

theorem update_overwrites_cancellation_witness:
  "map (\<lambda>r. r_status r) (d_rows (s_db (demo_advanced 500 demo_cancelled))) = [Cancelling] \<and>
   (\<exists>f db r. s_flights (demo_advanced 500 demo_cancelled) = [f] \<and>
     persist (demo_services 0) 0 (fl_inst f) Update (s_db (demo_advanced 500 demo_cancelled)) = Inr db \<and>
     r \<in> set (d_rows db) \<and> r_status r = Running)"
proof -
  from demo_outcomes(2) obtain f where f: "s_flights (demo_advanced 500 demo_cancelled) = [] @ f # []"
    "fl_out f = Some Update" "inst_status (fl_inst f) = Running" by auto
  from demo_persistable(2) f(1) obtain db where
    db: "persist (demo_services 0) 0 (fl_inst f) Update (s_db (demo_advanced 500 demo_cancelled)) = Inr db"
    using projr_Inr by fastforce
  from update_overwrites_cancellation [OF demo_cancelled_advanced f db] f db demo_outcomes(3) show ?thesis
    by auto
qed

end
