(* ===== verification/Pump.thy ===== *)
theory Pump
  imports SystemProps
begin

section \<open>One tick of a worker (\<open>engine.go\<close>: \<open>Tick\<close>, \<open>runAdvance\<close>, \<open>pruneLogs\<close>)\<close>

text \<open>
  A tick sweeps the expired objects (when a log retention is set), claims up to \<open>limit\<close> instances
  and starts a goroutine for each. A goroutine takes two turns: \<open>advance\<close>, then \<open>persist\<close> of the
  outcome; a failed write is logged and the instance is left to its lease. The turns come in any
  order: a schedule says which goroutine goes next and what the clock then shows. A panic in one
  goroutine ends the process with all of them.
\<close>

datatype goroutine =
    Claimed proc_instance
  | Advanced outcome proc_instance
  | Ended outcome bool

fun goroutine_step :: "services \<Rightarrow> int \<Rightarrow> goroutine \<Rightarrow> database \<Rightarrow> goroutine \<times> database" where
  "goroutine_step sv now (Claimed i) db =
     (case advance sv now i db of (out, j, db') \<Rightarrow> (Advanced out j, db'))"
| "goroutine_step sv now (Advanced out j) db =
     (case persist sv now j out db of
        Inl _ \<Rightarrow> (Ended out False, db)
      | Inr db' \<Rightarrow> (Ended out True, db'))"
| "goroutine_step sv now (Ended out written) db = (Ended out written, db)"

fun crashed :: "goroutine \<Rightarrow> bool" where
  "crashed (Advanced out j) = (out = Crashed)"
| "crashed _ = False"

fun ended :: "goroutine \<Rightarrow> bool" where
  "ended (Ended _ _) = True"
| "ended _ = False"

fun run_goroutines ::
  "services \<Rightarrow> (nat \<times> int) list \<Rightarrow> goroutine list \<Rightarrow> database \<Rightarrow> goroutine list \<times> database" where
  "run_goroutines sv [] gs db = (gs, db)"
| "run_goroutines sv ((k, now) # sched) gs db =
     (if list_ex crashed gs then (gs, db)
      else if k < length gs
        then (case goroutine_step sv now (gs ! k) db of (g, db') \<Rightarrow> run_goroutines sv sched (gs[k := g]) db')
      else run_goroutines sv sched gs db)"

definition prune_objects :: "bool \<Rightarrow> int \<Rightarrow> database \<Rightarrow> database" where
  "prune_objects retention now db = (if retention then delete_expired_objects now db else db)"

definition engine_tick ::
  "services \<Rightarrow> string \<Rightarrow> int \<Rightarrow> nat \<Rightarrow> bool \<Rightarrow> (nat \<times> int) list \<Rightarrow> int \<Rightarrow> database \<Rightarrow>
   nat \<times> goroutine list \<times> database" where
  "engine_tick sv w dur limit retention sched now db =
     (let (claimed, db') = claim_instances w now dur limit (prune_objects retention now db)
      in (length claimed, run_goroutines sv sched (map Claimed claimed) db'))"

subsection \<open>The goroutines as flights of the system\<close>

definition fresh_flight :: "string \<Rightarrow> proc_instance \<Rightarrow> flight" where
  "fresh_flight w i = \<lparr>fl_worker = w, fl_inst = i, fl_out = None\<rparr>"

fun flight_of :: "string \<Rightarrow> goroutine \<Rightarrow> flight list" where
  "flight_of w (Claimed i) = [fresh_flight w i]"
| "flight_of w (Advanced out j) = landed (fresh_flight w j) out j"
| "flight_of w (Ended _ _) = []"

fun handles :: "string \<Rightarrow> goroutine \<Rightarrow> bool" where
  "handles k (Claimed i) \<longleftrightarrow> inst_id i = k"
| "handles k (Advanced out j) \<longleftrightarrow> inst_id j = k"
| "handles k (Ended out written) \<longleftrightarrow> True"

text \<open>What the system sees of a goroutine: the advance, then the write or the loss of the outcome.\<close>

fun turns :: "string \<Rightarrow> goroutine \<Rightarrow> event list" where
  "turns k (Claimed i) = []"
| "turns k (Advanced out j) = [Run k]"
| "turns k (Ended out written) =
     Run k # (if out = Noop \<or> out = Crashed then [] else [if written then Persist k else Lose k])"

definition concerns :: "string \<Rightarrow> event \<Rightarrow> bool" where
  "concerns k e \<longleftrightarrow> e \<in> {Run k, Persist k, Lose k}"

text \<open>A flight is given up only where the database refuses the outcome.\<close>

definition refused :: "services \<Rightarrow> string \<Rightarrow> system \<Rightarrow> bool" where
  "refused sv k s \<longleftrightarrow> (\<exists>f \<in> set (s_flights s). fl_id f = k \<and>
     (\<exists>out. fl_out f = Some out \<and> isl (persist sv (s_now s) (fl_inst f) out (s_db s))))"

fun loses_refused :: "services \<Rightarrow> (event \<times> system) list \<Rightarrow> system \<Rightarrow> bool" where
  "loses_refused sv [] s \<longleftrightarrow> True"
| "loses_refused sv ((e, m) # p) s \<longleftrightarrow> (\<forall>k. e = Lose k \<longrightarrow> refused sv k s) \<and> loses_refused sv p m"

definition final_state :: "system \<Rightarrow> (event \<times> system) list \<Rightarrow> system" where
  "final_state s p = last (s # map snd p)"

lemma final_state_simps [simp]:
  "final_state s [] = s"
  "final_state s ((e, m) # p) = final_state m p"
  by (simp_all add: final_state_def)

lemma path_append: "path (p @ q) s \<longleftrightarrow> path p s \<and> path q (final_state s p)"
  by (induction p s rule: path.induct) auto

lemma final_state_append: "final_state s (p @ q) = final_state (final_state s p) q"
  by (induction p arbitrary: s) auto

lemma loses_refused_append:
  "loses_refused sv (p @ q) s \<longleftrightarrow> loses_refused sv p s \<and> loses_refused sv q (final_state s p)"
  by (induction sv p s rule: loses_refused.induct) auto

text \<open>One turn of one goroutine.\<close>

lemma goroutine_turn:
  assumes ids: "ids_ok sv" and g: "handles k g" "\<not> crashed g"
      and at: "s_flights s = fs @ flight_of w g @ hs" "goroutine_step sv (s_now s) g (s_db s) = (g', db')"
  shows "\<exists>p. path p s \<and> final_state s p = s\<lparr>s_db := db', s_flights := fs @ flight_of w g' @ hs\<rparr>
     \<and> loses_refused sv p s \<and> handles k g' \<and> turns k g' = turns k g @ map fst p \<and> (\<forall>e \<in> fst ` set p. concerns k e)"
proof (cases g)
  case (Claimed i)
  obtain out j db2 where adv: "advance sv (s_now s) i (s_db s) = (out, j, db2)"
    by (cases "advance sv (s_now s) i (s_db s)")
  with at(2) Claimed have g': "g' = Advanced out j" "db' = db2" by auto
  from advance_halts [OF ids, of i "s_db s" "s_now s"] adv have j: "inst_id j = inst_id i"
    by (simp add: halts_def same_place_inst_def)
  let ?m = "s\<lparr>s_db := db2, s_flights := fs @ landed (fresh_flight w i) out j @ hs\<rparr>"
  from step.run [of s fs "fresh_flight w i" hs sv out j db2] at(1) Claimed adv ids g(1)
  have "step (Run k) s ?m" by (simp add: fresh_flight_def fl_id_def)
  moreover have "landed (fresh_flight w j) out j = landed (fresh_flight w i) out j"
    by (simp add: landed_def fresh_flight_def)
  ultimately show ?thesis using Claimed g' g(1) j
    by (intro exI [of _ "[(Run k, ?m)]"]) (simp add: free_step_def concerns_def)
next
  case (Advanced out j)
  let ?f = "(fresh_flight w j)\<lparr>fl_inst := j, fl_out := Some out\<rparr>"
  have id: "fl_id ?f = k" using g(1) Advanced by (simp add: fl_id_def)
  show ?thesis
  proof (cases "out = Noop")
    case True
    with at Advanced have "db' = s_db s" "g' = Ended Noop True" by (simp_all add: persist_def)
    then show ?thesis using True Advanced at(1)
      by (intro exI [of _ "[]"]) (simp add: landed_def)
  next
    case False
    with g(2) Advanced have out: "out \<noteq> Noop" "out \<noteq> Crashed" by auto
    with at(1) Advanced have fl: "s_flights s = fs @ ?f # hs" by (simp add: landed_def)
    show ?thesis
    proof (cases "persist sv (s_now s) j out (s_db s)")
      case (Inl e)
      with at(2) Advanced have g': "g' = Ended out False" "db' = s_db s" by auto
      let ?m = "s\<lparr>s_flights := fs @ hs\<rparr>"
      from step.lose [OF fl] id have "step (Lose k) s ?m" by simp
      moreover have "refused sv k s" using fl id Inl by (auto simp: refused_def)
      ultimately show ?thesis using Advanced g' out
        by (intro exI [of _ "[(Lose k, ?m)]"]) (simp add: free_step_def concerns_def)
    next
      case (Inr db2)
      with at(2) Advanced have g': "g' = Ended out True" "db' = db2" by auto
      let ?m = "s\<lparr>s_db := db2, s_flights := fs @ hs\<rparr>"
      from step.persist [OF fl, of out sv db2] id Inr have "step (Persist k) s ?m" by simp
      then show ?thesis using Advanced g' out
        by (intro exI [of _ "[(Persist k, ?m)]"]) (simp add: free_step_def concerns_def)
    qed
  qed
next
  case (Ended out written)
  with at have "g' = g" "db' = s_db s" "s_flights s = fs @ hs" by auto
  moreover from this have "s = s\<lparr>s_db := db', s_flights := fs @ hs\<rparr>" by (cases s) simp
  ultimately show ?thesis using Ended by (intro exI [of _ "[]"]) simp
qed

lemma concat_map_update:
  "k < length gs \<Longrightarrow> concat (map f gs) = concat (map f (take k gs)) @ f (gs ! k) @ concat (map f (drop (Suc k) gs))
   \<and> concat (map f (gs[k := g])) = concat (map f (take k gs)) @ f g @ concat (map f (drop (Suc k) gs))"
  by (metis append_take_drop_id concat.simps(2) concat_append Cons_nth_drop_Suc list.simps(9) map_append upd_conv_take_nth_drop)

lemma tick_step: "s_now s \<le> now \<Longrightarrow> free_step Tick s (s\<lparr>s_now := now\<rparr>)"
  by (auto simp: free_step_def)

lemma filter_none: "\<forall>x \<in> set xs. \<not> P x \<Longrightarrow> filter P xs = []"
  by simp

lemma concerns_Tick [simp]: "\<not> concerns k Tick"
  by (simp add: concerns_def)

lemma concerns_other: "k \<noteq> j \<Longrightarrow> concerns k e \<Longrightarrow> \<not> concerns j e"
  by (auto simp: concerns_def)

text \<open>Any number of turns of all goroutines.\<close>

lemma goroutines_run:
  assumes "ids_ok sv" and "distinct ids"
  shows "run_goroutines sv sched gs (s_db s) = (gs', db') \<Longrightarrow> list_all2 handles ids gs \<Longrightarrow>
     sorted (s_now s # map snd sched) \<Longrightarrow> s_flights s = fs @ concat (map (flight_of w) gs) \<Longrightarrow>
     \<exists>p. path p s \<and> s_db (final_state s p) = db' \<and> s_flights (final_state s p) = fs @ concat (map (flight_of w) gs')
       \<and> loses_refused sv p s \<and> length gs' = length gs
       \<and> (\<forall>k < length gs. turns (ids ! k) (gs' ! k) = turns (ids ! k) (gs ! k) @ filter (concerns (ids ! k)) (map fst p))
       \<and> (\<forall>e \<in> fst ` set p. e = Tick \<or> (\<exists>k \<in> set ids. concerns k e))"
proof (induction sched arbitrary: gs s)
  case Nil
  then show ?case by (intro exI [of _ "[]"]) simp
next
  case (Cons a sched)
  obtain k now where a: "a = (k, now)" by (cases a)
  consider "list_ex crashed gs" | "\<not> list_ex crashed gs" "k < length gs" | "\<not> list_ex crashed gs" "length gs \<le> k"
    by linarith
  then show ?case
  proof cases
    case 1
    with Cons.prems a show ?thesis by (intro exI [of _ "[]"]) simp
  next
    case 3
    have le: "s_now s \<le> now" and "sorted (now # map snd sched)" using Cons.prems(3) a by auto
    with Cons.IH [of gs "s\<lparr>s_now := now\<rparr>"] Cons.prems 3 a obtain p where
      "path p (s\<lparr>s_now := now\<rparr>) \<and> s_db (final_state (s\<lparr>s_now := now\<rparr>) p) = db'
       \<and> s_flights (final_state (s\<lparr>s_now := now\<rparr>) p) = fs @ concat (map (flight_of w) gs')
       \<and> loses_refused sv p (s\<lparr>s_now := now\<rparr>) \<and> length gs' = length gs
       \<and> (\<forall>k < length gs. turns (ids ! k) (gs' ! k) = turns (ids ! k) (gs ! k) @ filter (concerns (ids ! k)) (map fst p))
       \<and> (\<forall>e \<in> fst ` set p. e = Tick \<or> (\<exists>k \<in> set ids. concerns k e))" by auto
    with tick_step [OF le] show ?thesis
      by (intro exI [of _ "(Tick, s\<lparr>s_now := now\<rparr>) # p"]) auto
  next
    case 2
    let ?s = "s\<lparr>s_now := now\<rparr>"
    let ?fs = "fs @ concat (map (flight_of w) (take k gs))" and ?hs = "concat (map (flight_of w) (drop (Suc k) gs))"
    obtain g db1 where g: "goroutine_step sv now (gs ! k) (s_db s) = (g, db1)"
      by (cases "goroutine_step sv now (gs ! k) (s_db s)")
    have le: "s_now s \<le> now" and srt: "sorted (now # map snd sched)" using Cons.prems(3) a by auto
    have len: "length ids = length gs" and h: "handles (ids ! k) (gs ! k)"
      using Cons.prems(2) 2(2) by (auto simp: list_all2_conv_all_nth)
    have "\<not> crashed (gs ! k)" using 2 by (auto simp: list_ex_iff)
    from goroutine_turn [OF assms(1) h this, of ?s ?fs w ?hs g db1] g Cons.prems(4) concat_map_update [OF 2(2), of "flight_of w" g]
    obtain p where p: "path p ?s" "final_state ?s p = ?s\<lparr>s_db := db1, s_flights := ?fs @ flight_of w g @ ?hs\<rparr>"
      "loses_refused sv p ?s" "handles (ids ! k) g" "turns (ids ! k) g = turns (ids ! k) (gs ! k) @ map fst p"
      "\<forall>e \<in> fst ` set p. concerns (ids ! k) e" by auto
    let ?m = "final_state ?s p"
    have m: "s_now ?m = now" "s_db ?m = db1" "s_flights ?m = fs @ concat (map (flight_of w) (gs[k := g]))"
      using p(2) concat_map_update [OF 2(2), of "flight_of w" g] by simp_all
    have hs: "list_all2 handles ids (gs[k := g])"
      using Cons.prems(2) p(4) 2(2) by (auto simp: list_all2_conv_all_nth nth_list_update)
    have rest: "run_goroutines sv sched (gs[k := g]) (s_db ?m) = (gs', db')"
      using Cons.prems(1) 2 a g m by simp
    from Cons.IH [OF rest hs] srt m obtain q where
      q: "path q ?m" "s_db (final_state ?m q) = db'" "s_flights (final_state ?m q) = fs @ concat (map (flight_of w) gs')"
      "loses_refused sv q ?m" "length gs' = length gs"
      "\<forall>j < length gs. turns (ids ! j) (gs' ! j) = turns (ids ! j) (gs[k := g] ! j) @ filter (concerns (ids ! j)) (map fst q)"
      "\<forall>e \<in> fst ` set q. e = Tick \<or> (\<exists>k \<in> set ids. concerns k e)" by auto
    let ?p = "(Tick, ?s) # p @ q"
    have "turns (ids ! j) (gs' ! j) = turns (ids ! j) (gs ! j) @ filter (concerns (ids ! j)) (map fst ?p)" if j: "j < length gs" for j
    proof (cases "j = k")
      case True
      have "filter (concerns (ids ! k)) (map fst p) = map fst p" using p(6) by (auto simp: filter_id_conv)
      with q(6) j p(5) True show ?thesis by auto
    next
      case False
      with assms(2) j 2(2) len have "ids ! k \<noteq> ids ! j" by (simp add: nth_eq_iff_index_eq)
      with p(6) concerns_other have "\<forall>e \<in> set (map fst p). \<not> concerns (ids ! j) e" by auto
      from filter_none [OF this] q(6) j False show ?thesis by auto
    qed
    moreover have "path ?p s" "loses_refused sv ?p s"
      using tick_step [OF le] p q by (simp_all add: path_append loses_refused_append)
    moreover have "\<forall>e \<in> fst ` set ?p. e = Tick \<or> (\<exists>k \<in> set ids. concerns k e)"
      using p(6) q(7) len 2(2) by (auto simp: image_Un intro: bexI [of _ "ids ! k"])
    ultimately show ?thesis using q by (intro exI [of _ ?p]) (simp add: final_state_append)
  qed
qed

text \<open>Two turns end a goroutine, unless the process crashes.\<close>

fun turns_left :: "goroutine \<Rightarrow> nat" where
  "turns_left (Claimed _) = 2"
| "turns_left (Advanced _ _) = 1"
| "turns_left (Ended _ _) = 0"

lemma turn_taken: "turns_left (fst (goroutine_step sv now g db)) = turns_left g - 1"
  by (cases g) (auto split: prod.splits sum.splits)

lemma turns_end:
  "run_goroutines sv sched gs db = (gs', db') \<Longrightarrow> \<not> list_ex crashed gs' \<Longrightarrow> k < length gs \<Longrightarrow>
   turns_left (gs' ! k) = turns_left (gs ! k) - length (filter (\<lambda>t. fst t = k) sched)"
proof (induction sv sched gs db rule: run_goroutines.induct)
  case (2 sv j now sched gs db)
  show ?case
  proof (cases "list_ex crashed gs \<or> length gs \<le> j")
    case True
    with 2 show ?thesis by (auto split: if_splits)
  next
    case False
    obtain g db1 where g: "goroutine_step sv now (gs ! j) db = (g, db1)" by (cases "goroutine_step sv now (gs ! j) db")
    with turn_taken [of sv now "gs ! j" db] have t: "turns_left g = turns_left (gs ! j) - 1" by simp
    from False have "\<not> list_ex crashed gs" "j < length gs" by auto
    from "2.IH"(1) [OF this, of g db1] g 2(3-5) False t show ?thesis
      by (cases "k = j") (auto simp: g)
  qed
qed simp

lemma turns_left_0: "turns_left g = 0 \<Longrightarrow> ended g"
  by (cases g) auto

subsection \<open>The start of a tick\<close>

lemma prune_run:
  "\<exists>p. path p s \<and> map fst p = (if retention then [Collect] else [])
     \<and> final_state s p = s\<lparr>s_db := prune_objects retention (s_now s) (s_db s)\<rparr> \<and> loses_refused sv p s"
proof (cases retention)
  case True
  with step.collect [of s] show ?thesis
    by (intro exI [of _ "[(Collect, s\<lparr>s_db := prune_objects retention (s_now s) (s_db s)\<rparr>)]"])
      (simp add: prune_objects_def free_step_def)
next
  case False
  then show ?thesis by (intro exI [of _ "[]"]) (simp add: prune_objects_def)
qed

lemma prune_candidates: "candidates now limit (prune_objects retention t db) = candidates now limit db"
  by (simp add: candidates_def prune_objects_def delete_expired_objects_def)

lemma claim_claims:
  "claim_instances w now dur limit db = (claimed, db') \<Longrightarrow>
   map inst_id claimed = map r_id (candidates now limit db)"
  by (auto simp: claim_instances_def Let_def claimed_instance_def to_instance_def leased_def)

lemma claimed_flights:
  "concat (map (flight_of w) (map Claimed claimed)) = map (\<lambda>i. \<lparr>fl_worker = w, fl_inst = i, fl_out = None\<rparr>) claimed"
  by (induction claimed) (simp_all add: fresh_flight_def)

lemma claimed_handled: "list_all2 handles (map inst_id claimed) (map Claimed claimed)"
  by (simp add: list_all2_conv_all_nth)

lemma reachable_distinct_ids: "reachable s \<Longrightarrow> distinct (map r_id (d_rows (s_db s)))"
  by (drule reachable_sys_ok) (simp add: sys_ok_def tree_okD)

lemma candidates_limit: "length (candidates now limit db) \<le> limit"
  by (simp add: candidates_def)

text \<open>
  C5: a tick does what its parts say, and nothing else, in every order its goroutines can run in
  and at every speed of the clock. Whatever flights other workers have, a tick is a run of the
  system with a free clock: first the sweep, when there is a retention, then the claim of at most
  \<open>limit\<close> instances, the oldest that can run, then for each of them one advance and, unless the
  advance has written its outcome itself or panicked, one write of the outcome. The write is left
  out only where the database refuses it. At any moment of the tick, the database is the one the
  run leads to and the flights the tick has added are those of the goroutines that have not ended;
  every goroutine that has had two turns has ended, unless one panicked.
\<close>

theorem tick_is_a_run:
  assumes ids: "ids_ok sv" and dur: "0 < dur" and s: "reachable s" "sorted (s_now s # map snd sched)"
      and tick: "engine_tick sv w dur limit retention sched (s_now s) (s_db s) = (n, gs, db)"
  shows "\<exists>p es ks. path p s \<and> map fst p = (if retention then [Collect] else []) @ Claim w # es
     \<and> s_db (final_state s p) = db
     \<and> s_flights (final_state s p) = s_flights s @ concat (map (flight_of w) gs)
     \<and> loses_refused sv p s
     \<and> ks = map r_id (candidates (s_now s) limit (s_db s)) \<and> distinct ks
     \<and> length ks = n \<and> n \<le> limit \<and> length gs = n
     \<and> (\<forall>k < n. filter (concerns (ks ! k)) es = turns (ks ! k) (gs ! k))
     \<and> (\<forall>e \<in> set es. e = Tick \<or> (\<exists>k \<in> set ks. concerns k e))
     \<and> (\<forall>k < n. 2 \<le> length (filter (\<lambda>t. fst t = k) sched) \<longrightarrow> ended (gs ! k) \<or> list_ex crashed gs)"
proof -
  let ?ks = "map r_id (candidates (s_now s) limit (s_db s))"
  let ?m = "s\<lparr>s_db := prune_objects retention (s_now s) (s_db s)\<rparr>"
  from prune_run obtain p where p: "path p s" "map fst p = (if retention then [Collect] else [])"
    "final_state s p = ?m" "loses_refused sv p s" by blast
  obtain claimed db1 where c: "claim_instances w (s_now s) dur limit (s_db ?m) = (claimed, db1)"
    by (cases "claim_instances w (s_now s) dur limit (s_db ?m)")
  let ?c = "?m\<lparr>s_db := db1, s_flights := s_flights s @ concat (map (flight_of w) (map Claimed claimed))\<rparr>"
  from step.claim [of w ?m dur limit claimed db1] c dur have claim: "free_step (Claim w) ?m ?c"
    unfolding claimed_flights by (simp add: free_step_def)
  have ks: "map inst_id claimed = ?ks" using claim_claims [OF c] by (simp add: prune_candidates)
  then have n: "length claimed = length ?ks" by (metis length_map)
  have dist: "distinct ?ks" using reachable_distinct_ids [OF s(1)] by (rule candidates_distinct)
  from tick c have run: "n = length claimed" "run_goroutines sv sched (map Claimed claimed) (s_db ?c) = (gs, db)"
    by (simp_all add: engine_tick_def)
  from goroutines_run [OF ids dist run(2), of "s_flights s" w] claimed_handled [of claimed] s(2) ks n obtain q where
    q: "path q ?c" "s_db (final_state ?c q) = db" "s_flights (final_state ?c q) = s_flights s @ concat (map (flight_of w) gs)"
      "loses_refused sv q ?c" "length gs = length claimed"
      "\<forall>k < length claimed. turns (?ks ! k) (gs ! k) = filter (concerns (?ks ! k)) (map fst q)"
      "\<forall>e \<in> set (map fst q). e = Tick \<or> (\<exists>k \<in> set ?ks. concerns k e)" by auto
  let ?p = "p @ (Claim w, ?c) # q"
  have "ended (gs ! k)" if "k < n" "2 \<le> length (filter (\<lambda>t. fst t = k) sched)" "\<not> list_ex crashed gs" for k
    using turns_end [OF run(2) that(3), of k] that run(1) by (intro turns_left_0) simp
  moreover have "path ?p s" "final_state s ?p = final_state ?c q" "loses_refused sv ?p s"
    using p q claim by (simp_all add: path_append final_state_append loses_refused_append)
  ultimately show ?thesis
    using p(2) q dist n run(1) candidates_limit [of "s_now s" limit "s_db s"]
    by (intro exI [of _ ?p] exI [of _ "map fst q"] exI [of _ ?ks]) auto
qed

text \<open>One instance, one retention, two turns: the tick finishes the instance.\<close>

definition demo_tick :: "nat \<times> goroutine list \<times> database" where
  "demo_tick = engine_tick (demo_services 200) ''w'' 30000 10 True [(0, 3), (0, 7)] 0 (s_db demo_created)"

lemma demo_tick_result:
  "fst demo_tick = 1" "list_all (\<lambda>g. ended g \<and> \<not> crashed g) (fst (snd demo_tick))"
  "map (turns ''a'') (fst (snd demo_tick)) = [[Run ''a'', Persist ''a'']]"
  "map (\<lambda>r. (r_id r, r_status r)) (d_rows (snd (snd demo_tick))) = [(''a'', Completed)]"
  "map r_id (candidates 0 10 (s_db demo_created)) = [''a'']"
  by code_simp+

theorem tick_is_a_run_witness:
  "\<exists>p es. path p demo_created \<and> map fst p = [Collect, Claim ''w''] @ es
     \<and> filter (concerns ''a'') es = [Run ''a'', Persist ''a'']
     \<and> s_flights (final_state demo_created p) = []
     \<and> map (\<lambda>r. (r_id r, r_status r)) (d_rows (s_db (final_state demo_created p))) = [(''a'', Completed)]"
proof -
  from demo_tick_result(1) obtain gs db where t: "demo_tick = (1, gs, db)" by (metis prod.collapse)
  have d: "s_now demo_created = 0" "s_flights demo_created = []" by (simp_all add: demo_created_def demo_start_def)
  have "map (turns ''a'') gs = [[Run ''a'', Persist ''a'']]" using demo_tick_result(3) unfolding t by simp
  then obtain g where gs: "gs = [g]" "turns ''a'' g = [Run ''a'', Persist ''a'']"
    by (cases gs) auto
  moreover have "list_all (\<lambda>g. ended g \<and> \<not> crashed g) gs" using demo_tick_result(2) unfolding t by simp
  ultimately have fl: "flight_of ''w'' g = []" by (cases g) auto
  from tick_is_a_run [OF demo_ids _ demo_created_reachable, of 30000 "[(0, 3), (0, 7)]" 200 "''w''" 10 True 1 gs db]
      t d gs fl demo_tick_result(4,5) show ?thesis by (auto simp: demo_tick_def)
qed

end
