(* ===== verification/EngineProps.thy ===== *)
theory EngineProps
  imports SystemProps
begin

section \<open>Routing and at-most-once execution\<close>

text \<open>
  What validation buys the engine: the target of a switch is always a task it can go to. And what
  \<open>only_once\<close> buys its user: no second call after a lease takeover, no retry once the server has
  answered; but a connection that breaks after the request was sent counts as \<open>not reached\<close>.
\<close>

subsection \<open>Routing\<close>

lemma eval_switch_target:
  assumes "eval_switch sv db i cs self = Inr (g, j)" and "cs \<noteq> []" and "case_when (last cs) = []"
  shows "\<exists>c \<in> set cs. g = case_goto c"
  using assms
proof (induction cs arbitrary: i)
  case (Cons c cs)
  show ?case
  proof (cases "case_when c = []")
    case True
    with Cons.prems show ?thesis by simp
  next
    case False
    with Cons.prems(1) obtain b i1 where "eval_bool_ctx (sv_parse sv) (load_object sv db (inst_id i)) i (case_when c) self = Inr (b, i1)"
      "(if b then Inr (case_goto c, i1) else eval_switch sv db i1 cs self) = Inr (g, j)"
      by (auto simp: and_then_eq_Inr)
    with Cons.IH [of i1] Cons.prems(3) False show ?thesis by (cases b) (auto split: if_splits)
  qed
qed simp

lemma target_reachable:
  assumes "target_ok d k g" and "\<forall>t \<in> set (def_tasks d). task_id t \<noteq> []"
  shows "g = goto_end \<or> (\<exists>k'. next_index d k g = Some k' \<and> k' < length (def_tasks d))"
  using assms(1) unfolding target_ok_def
proof (elim disjE conjE exE)
  fix i assume g: "g = ''$'' @ i" "i \<in> task_id ` set (def_tasks d)"
  then obtain k' where k': "index_of i (def_tasks d) = Some k'" using index_of_None by fastforce
  with g assms(2) have "next_index d k g = Some k'"
    by (auto simp: next_index_def goto_next_def task_index_def)
  with index_of_Some [OF k'] show ?thesis by auto
qed (simp_all add: next_index_def)

text \<open>
  C14: on a definition that passed validation the routing of a task never fails for want of a
  target: when its switch is evaluated without an error, the answer is the end of the process or
  a position in the task list.
\<close>

theorem valid_definition_routes:
  assumes "validate_definition d = None" and "k < length (def_tasks d)"
      and "eval_switch sv db i (task_switch (def_tasks d ! k)) self = Inr (g, j)"
  shows "g = goto_end \<or> (\<exists>k'. next_index d k g = Some k' \<and> k' < length (def_tasks d))"
proof -
  note v = valid_switch [OF assms(1,2)]
  with eval_switch_target [OF assms(3)] have "target_ok d k g" by blast
  with target_reachable valid_definition_tags [OF assms(1)] show ?thesis by blast
qed

subsection \<open>At most once\<close>

text \<open>
  C8: an \<open>only_once\<close> task whose worker lost its lease is not run again by the worker that takes the
  instance over: the instance fails, the database is left as it is, and the outcome does not
  depend on what the remote side would answer.
\<close>

theorem takeover_never_repeats_only_once:
  assumes "inst_status i = Running" and "inst_reclaimed i"
      and "get_definition db (inst_process i) (inst_version i) = Some d"
      and "task_index (def_tasks d) (inst_task i) = Some k"
      and "task_action (def_tasks d ! k) \<noteq> None" and "task_only_once (def_tasks d ! k) = Some True"
  shows "\<exists>j. advance sv now i db = (Terminal, j, db) \<and> inst_status j = Failed
     \<and> (\<forall>http. advance (sv\<lparr>sv_http := http\<rparr>) now i db = (Terminal, j, db))"
proof -
  have "interrupted_only_once d (Some k) i" "interrupted_only_once d (Some k) (i\<lparr>inst_config := c\<rparr>)" for c
    using assms by (auto simp: interrupted_only_once_def is_true_def)
  with assms show ?thesis
    by (cases "resolve_config d (sv_env sv)")
      (auto simp: advance_def Let_def failed_instance_def)
qed

text \<open>A failed call that is tried again: the same task, one more attempt.\<close>

definition retried :: "proc_instance \<Rightarrow> outcome \<times> proc_instance \<Rightarrow> bool" where
  "retried i st \<longleftrightarrow> fst st = Update \<and> inst_task (snd st) = inst_task i
     \<and> inst_retry_count (snd st) = inst_retry_count i + 1"

lemma retried_allowed:
  assumes "retried i (handle_call_error sv db now i t msg code)" and "0 \<le> inst_retry_count i"
  shows "may_retry t code i"
  using assms
  by (auto simp: retried_def handle_call_error_def cancel_instance_def fail_instance_def Let_def
      split: if_splits option.splits)

lemma error_codes_not_pre:
  "\<not> prefix_of ''pre.'' (''http.'' @ s)" "\<not> prefix_of ''pre.'' ''output.parse''" "\<not> prefix_of ''pre.'' ''output.invalid''"
  by (cases s) simp_all

lemma send_http_code:
  assumes "send_http (HttpResponse st head json) acc = Inr r" and "resp_error_code r \<noteq> []"
  shows "\<not> prefix_of ''pre.'' (resp_error_code r)"
  using assms error_codes_not_pre
  by (auto simp: send_http_def Let_def split: if_splits option.splits)

text \<open>
  C9: once the server has answered an \<open>only_once\<close> call, whatever the status and the body, the call
  is never tried again, unless a rule of the task itself claims the remote was not reached.
\<close>

theorem answered_call_not_retried:
  assumes "is_true (task_only_once t)" and "\<forall>c \<in> set (task_on_error t). \<not> is_true (err_not_reached c)"
      and "act_type a = Rest" and "marshal payload \<noteq> None" and "0 \<le> inst_retry_count i"
      and "sv_http sv url headers payload = HttpResponse st head json"
      and "after_response sv db now i t a (send_action sv a url headers payload) = Inl (out, j, db')"
  shows "\<not> retried i (out, j)"
proof
  assume r: "retried i (out, j)"
  let ?res = "send_http (HttpResponse st head json) (act_accepted_status a)"
  have send: "send_action sv a url headers payload = ?res"
    using assms(3,6) unfolding send_action_def by (simp only: assms(4) if_False simp_thms)
  then obtain resp where resp: "?res = Inr resp"
    by (auto simp: send_http_def Let_def split: if_splits option.splits)
  have no: "\<not> may_retry t code i" if "\<not> prefix_of ''pre.'' code" for code
    using that assms(1,2) by (auto simp: may_retry_def is_retry_allowed_def match_on_error_def split: option.splits dest!: find_SomeD)
  obtain msg code where h: "handle_call_error sv db now i t msg code = (out, j)" "\<not> prefix_of ''pre.'' code"
    using assms(7) send resp send_http_code [OF resp] error_codes_not_pre(3)
    by (auto simp: after_response_def stop_with_def split: if_splits sum.splits)
  with retried_allowed [of i sv db now t msg code] r assms(5) no show False by simp
qed

subsection \<open>Examples\<close>

definition once_task :: task where
  "once_task = demo_task\<lparr>task_only_once := Some True,
     task_on_error := [\<lparr>err_codes = [''pre.%''], err_retries = 3, err_goto = [], err_not_reached = None\<rparr>]\<rparr>"

definition once_definition :: process_definition where
  "once_definition = demo_definition\<lparr>def_tasks := [once_task]\<rparr>"

definition once_db :: database where
  "once_db = (db_with [])\<lparr>d_definitions := [((''pay'', 1), once_definition)]\<rparr>"


theorem valid_definition_routes_witness:
  "eval_switch (demo_services 0) once_db demo_root (task_switch (def_tasks once_definition ! 0)) GNil = Inr (''end'', demo_root)
   \<and> (''end'' = goto_end \<or> (\<exists>k'. next_index once_definition 0 ''end'' = Some k' \<and> k' < 1))"
proof -
  have v: "validate_definition once_definition = None" by code_simp
  have e: "eval_switch (demo_services 0) once_db demo_root (task_switch (def_tasks once_definition ! 0)) GNil = Inr (''end'', demo_root)"
    by (simp add: once_definition_def once_task_def demo_task_def goto_end_def)
  from valid_definition_routes [OF v _ e] e show ?thesis by (simp add: once_definition_def demo_definition_def)
qed

theorem takeover_never_repeats_only_once_witness:
  "\<exists>j. advance (demo_services 200) 5 (demo_root\<lparr>inst_reclaimed := True\<rparr>) once_db = (Terminal, j, once_db) \<and> inst_status j = Failed"
proof -
  have t: "get_definition once_db ''pay'' 1 = Some once_definition"
    by (simp add: get_definition_def once_db_def)
  have i: "inst_process demo_root = ''pay''" "inst_version demo_root = 1" "inst_task demo_root = ''t''" "inst_status demo_root = Running"
    by (simp_all add: demo_root_def to_instance_def blank_row_def)
  have k: "task_index (def_tasks once_definition) ''t'' = Some 0"
    by (simp add: once_definition_def once_task_def demo_task_def task_index_def)
  show ?thesis
    using takeover_never_repeats_only_once [of "demo_root\<lparr>inst_reclaimed := True\<rparr>" once_db once_definition 0 "demo_services 200" 5] t i k
    by (auto simp: once_definition_def once_task_def demo_task_def)
qed

lemma once_failed: "(case after_response (demo_services 500) once_db 5 demo_root once_task (the (task_action once_task))
     (send_action (demo_services 500) (the (task_action once_task)) ''http://shop/pay'' [] (GObj [])) of
       Inl (out, j, db) \<Rightarrow> True | Inr _ \<Rightarrow> False)"
  by code_simp

theorem answered_call_not_retried_witness:
  "\<exists>out j. after_response (demo_services 500) once_db 5 demo_root once_task (the (task_action once_task))
     (send_action (demo_services 500) (the (task_action once_task)) ''http://shop/pay'' [] (GObj [])) = Inl (out, j, once_db)
     \<and> \<not> retried demo_root (out, j)"
proof -
  obtain out j db where r: "after_response (demo_services 500) once_db 5 demo_root once_task (the (task_action once_task))
     (send_action (demo_services 500) (the (task_action once_task)) ''http://shop/pay'' [] (GObj [])) = Inl (out, j, db)"
    using once_failed by (auto split: sum.splits)
  then have db: "db = once_db"
    by (auto simp: after_response_def stop_with_def split: sum.splits if_splits)
  have "\<not> retried demo_root (out, j)"
    by (rule answered_call_not_retried [OF _ _ _ _ _ _ r])
      (simp_all add: once_task_def demo_task_def is_true_def demo_root_def to_instance_def blank_row_def demo_services_def)
  with r db show ?thesis by blast
qed



end
