(* ===== verification/Mailbox.thy ===== *)
theory Mailbox
  imports SystemProps "HOL-Library.Multiset"
begin

section \<open>External results and signals reach their task\<close>


subsection \<open>The table of signals is a mailbox\<close>






lemma sort_key_remove:
  "sort_key f (filter P xs) = filter P (sort_key f xs)"
  by (simp add: filter_sort)

lemma queue_remove:
  assumes "distinct (map s_id ss)" and "queue ss i t = s # rest"
  shows "queue (filter (\<lambda>q. s_id q \<noteq> s_id s) ss) j u = (if j = i \<and> u = t then rest else queue ss j u)"
proof -
  have q: "queue (filter (\<lambda>q. s_id q \<noteq> s_id s) ss) j u = filter (\<lambda>q. s_id q \<noteq> s_id s) (queue ss j u)"
    unfolding queue_def filter_filter by (simp add: filter_sort conj_commute)
  have mem: "x \<in> set (queue ss i' t') \<longleftrightarrow> x \<in> set ss \<and> buffered_for i' t' x" for x i' t'
    by (auto simp: queue_def)
  have s: "s \<in> set ss" "buffered_for i t s" using assms(2) mem [of s i t] by simp_all
  show ?thesis
  proof (cases "j = i \<and> u = t")
    case True
    have "distinct (map s_id (queue ss i t))"
      using assms(1) by (simp add: queue_def distinct_map inj_on_def)
    with assms(2) have "s_id s \<notin> s_id ` set rest" by simp
    then have "filter (\<lambda>q. s_id q \<noteq> s_id s) rest = rest"
      by (intro filter_True) (metis image_eqI)
    with True q assms(2) show ?thesis by simp
  next
    case False
    have "s_id x \<noteq> s_id s" if "x \<in> set (queue ss j u)" for x
    proof
      assume "s_id x = s_id s"
      moreover from that mem have x: "x \<in> set ss" "buffered_for j u x" by simp_all
      ultimately have "x = s" using assms(1) s(1) by (metis distinct_map inj_onD)
      with x(2) s(2) False show False by (auto simp: buffered_for_def)
    qed
    then have "filter (\<lambda>q. s_id q \<noteq> s_id s) (queue ss j u) = queue ss j u" by (rule filter_True [OF ballI])
    with False q show ?thesis by (simp only: if_not_P if_False)
  qed
qed


subsection \<open>What a submitted result does\<close>

text \<open>The row of an instance after a result was stored for it.\<close>

definition resolved_with :: "gval \<Rightarrow> row \<Rightarrow> bool" where
  "resolved_with v r \<longleftrightarrow> r_wait r = WaitNone \<and> r_wake_at r = None
     \<and> map_of (inst_context (to_instance r)) ctx_external_result = Some v"

lemma map_of_decoded: "map_of (map (\<lambda>(k, v). (k, decoded v)) m) k = map_option decoded (map_of m k)"
  by (induction m) auto

lemma decode_external_result:
  assumes "with_external_result ext v = Inr e"
  shows "map_of (decode_external e) ctx_external_result = Some (decoded v)"
proof -
  let ?m = "put ''has_result'' (GBool True) (put ''result'' v (case ext of None \<Rightarrow> [] | Some m \<Rightarrow> m))"
  have "?m \<noteq> []" by (metis map_of_put map_of.simps(1) option.distinct(1))
  with assms have e: "e = Some (map (\<lambda>(k, v). (k, decoded v)) ?m)"
    by (simp add: with_external_result_def encode_object_column_def split: if_splits)
  have "map_of (map (\<lambda>(k, v). (k, decoded v)) ?m) ''has_result'' = Some (GBool True)"
    "map_of (map (\<lambda>(k, v). (k, decoded v)) ?m) ''result'' = Some (decoded v)"
    by (simp_all add: map_of_decoded)
  then show ?thesis
    by (auto simp: e decode_external_def ctx_external_def ctx_external_result_def Let_def)
qed

lemma decode_context_external:
  "map_of (decode_context r) ctx_external_result = map_of (decode_external (r_external r) @ decode_engine (r_engine r)) ctx_external_result"
proof -
  have "map_of (decode_slot k e) ctx_external_result = None" if "k \<noteq> ctx_external_result" for k e
    using that by (simp add: decode_slot_def split: option.splits)
  moreover have "map_of (decode_outputs oc) ctx_external_result = None" for oc
    by (simp add: decode_outputs_def ctx_external_result_def split: option.splits)
  ultimately show ?thesis
    by (simp add: decode_context_def map_add_def ctx_external_result_def split: option.splits)
qed

lemma unparked_resolved:
  assumes "with_external_result ext v = Inr e"
  shows "resolved_with (decoded v) (unparked e now r)"
  using decode_external_result [OF assms]
  by (simp add: resolved_with_def to_instance_def decode_context_external unparked_def map_add_def split: option.splits)

lemma set_external_result_row:
  assumes "r' \<in> set (d_rows (set_external_result e now i db))" and "r_id r' = i"
  shows "\<exists>r \<in> set (d_rows db). r_id r = i \<and> r' = unparked e now r"
  using assms by (auto simp: set_external_result_def table_simps has_id_def unparked_def split: if_splits)

lemma get_row_set_external:
  assumes "get_row db i = Some r"
  shows "get_row (set_external_result e now i db) i = Some (unparked e now r)"
  using assms by (simp add: get_row_def set_external_result_def row_of_update_where unparked_def has_id_def)
    (auto dest!: row_of_SomeD simp: unparked_def has_id_def)

lemma resolved_run_external:
  assumes "resolved_with v r"
  shows "\<exists>j. run_external sv now (claimed_instance w expiry r) t a db = Inr (v, j, db)
    \<and> map_of (inst_context j) ctx_external_result = None"
proof -
  have "map_of (inst_context (claimed_instance w expiry r)) ctx_external_result = Some v"
    using assms by (simp add: resolved_with_def claimed_instance_def)
  then show ?thesis by (simp add: run_external_def ctx_external_def ctx_external_result_def)
qed

subsection \<open>Properties\<close>

lemma not_waiting_again:
  "get_row db i = Some r \<Longrightarrow> r_wait r = WaitNone \<Longrightarrow> resolve_external_task now i token v db = Inl TaskNotWaiting"
  by (simp add: resolve_external_task_def)

text \<open>
  C10: an external task is resolved exactly once. A resolve call that is accepted carried the token
  of the current arming, the instance then has the submitted result and no other call, with any
  token, is accepted; and the worker that claims the instance next, on whatever machine, runs the
  task on with exactly that result.
\<close>

theorem external_task_resolved_once:
  assumes "resolve_external_task now i token v db = Inr db'"
  shows "(\<exists>r. get_row db i = Some r \<and> external_token (r_external r) = token \<and> token \<noteq> [])
     \<and> (\<forall>now2 token2 v2. resolve_external_task now2 i token2 v2 db' = Inl TaskNotWaiting)
     \<and> (\<exists>r'. get_row db' i = Some r' \<and>
          (\<forall>sv now2 w expiry t a. \<exists>j. run_external sv now2 (claimed_instance w expiry r') t a db' = Inr (decoded v, j, db')))"
proof -
  from assms obtain r ext where r: "get_row db i = Some r" "external_token (r_external r) = token" "token \<noteq> []"
    and ext: "with_external_result (r_external r) v = Inr ext" "db' = set_external_result ext now i db"
    by (auto simp: resolve_external_task_def and_then_eq_Inr split: option.splits if_splits)
  have row: "get_row db' i = Some (unparked ext now r)" using get_row_set_external [OF r(1)] ext(2) by simp
  have "r_wait (unparked ext now r) = WaitNone" by (simp add: unparked_def)
  from not_waiting_again [OF row this] r row resolved_run_external [OF unparked_resolved [OF ext(1)]]
  show ?thesis by blast
qed

text \<open>
  C13: a delivered signal is never lost and never doubled: either it resolves the armed task at
  once and the buffer stays as it is, or no instance changes and exactly this signal joins the
  buffer.
\<close>

theorem signal_resolves_or_waits:
  assumes "deliver_signal now i t sid v db = Inr (resolved, db')"
  shows "if resolved
     then d_signals db' = d_signals db \<and> (\<exists>r'. get_row db' i = Some r' \<and> r_task r' = t \<and> resolved_with (decoded v) r')
     else d_rows db' = d_rows db \<and> d_signals db' = d_signals db @ [\<lparr>s_id = sid, s_instance = i, s_task = t,
            s_result = decoded v, s_created_at = now\<rparr>]"
proof -
  from assms obtain r where r: "get_row db i = Some r" by (auto simp: deliver_signal_def split: option.splits if_splits)
  show ?thesis
  proof (cases resolved)
    case True
    with assms r obtain ext where "armed_for t r" "with_external_result (r_external r) v = Inr ext" "db' = set_external_result ext now i db"
      by (auto simp: deliver_signal_def and_then_eq_Inr split: if_splits)
    with True get_row_set_external [OF r] unparked_resolved show ?thesis
      by (auto simp: armed_for_def set_external_result_def unparked_def)
  next
    case False
    with assms r show ?thesis by (auto simp: deliver_signal_def insert_signal_def and_then_eq_Inr split: if_splits)
  qed
qed









text \<open>
  C12: arming an external task consumes the oldest buffered signal in the same transaction that
  stores its result in the row: even if the worker dies right after, the next one to claim the
  instance runs the task with that result.
\<close>

theorem arming_consumes_oldest_signal:
  assumes "arm_external_or_consume_signal hash now t token input wake inst db = Inr (res, inst', db')"
      and "queue (d_signals db) (inst_id inst) t = s # rest" and "distinct (map s_id (d_signals db))"
      and "get_row db (inst_id inst) = Some r"
  shows "res = Some (s_result s) \<and> queue (d_signals db') (inst_id inst) t = rest
     \<and> (\<exists>r'. get_row db' (inst_id inst) = Some r' \<and> r_worker r' = r_worker r \<and> resolved_with (decoded (s_result s)) r')"
proof -
  let ?rest = "filter (\<lambda>q. s_id q \<noteq> s_id s) (d_signals db)"
  from assms(1,2,4) obtain ext where
    ext: "encode_external_data (consume_context (s_result s) (inst_context inst)) = Inr ext" "res = Some (s_result s)"
      "db' = set_external_result ext now (inst_id inst) (db\<lparr>d_signals := ?rest\<rparr>)"
    by (auto simp: arm_external_or_consume_signal_def pop_oldest_def and_then_eq_Inr)
  have "external_fields (consume_context (s_result s) (inst_context inst))
      = put ''has_result'' (GBool True) (put ''result'' (s_result s) [])"
    by (simp add: external_fields_def consume_context_def ctx_external_def ctx_external_result_def)
  with ext(1) have "with_external_result None (s_result s) = Inr ext"
    by (simp add: encode_external_data_def with_external_result_def)
  note res = unparked_resolved [OF this]
  have "get_row (db\<lparr>d_signals := ?rest\<rparr>) (inst_id inst) = Some r" using assms(4) by (simp add: get_row_def)
  from get_row_set_external [OF this] ext(3) have "get_row db' (inst_id inst) = Some (unparked ext now r)" by simp
  moreover have "d_signals db' = ?rest" by (simp add: ext(3) set_external_result_def)
  with queue_remove [OF assms(3,2)] have "queue (d_signals db') (inst_id inst) t = rest" by simp
  ultimately show ?thesis using ext(2) res [of now r] by (auto simp: unparked_def)
qed

subsection \<open>Witnesses\<close>

definition parked_row :: row where
  "parked_row = (blank_row ''i'')\<lparr>r_wait := External, r_external := Some [(''task_id'', GStr ''t''), (''token'', GStr ''i.n'')]\<rparr>"

definition parked_db :: database where
  "parked_db = db_with [parked_row]"

lemma parked_resolves: "\<not> isl (resolve_external_task 5 ''i'' ''i.n'' (GInt 7) parked_db)"
  by code_simp

theorem external_task_resolved_once_witness:
  "\<exists>db' r'. resolve_external_task 5 ''i'' ''i.n'' (GInt 7) parked_db = Inr db' \<and>
     resolve_external_task 6 ''i'' ''i.n'' (GInt 8) db' = Inl TaskNotWaiting \<and> get_row db' ''i'' = Some r'"
  using external_task_resolved_once [OF projr_Inr [OF parked_resolves]] projr_Inr [OF parked_resolves] by blast

lemma parked_signalled: "\<not> isl (deliver_signal 5 ''i'' ''t'' ''s1'' (GInt 7) parked_db)"
  "\<not> isl (deliver_signal 5 ''i'' ''u'' ''s1'' (GInt 7) parked_db)"
  by code_simp+

theorem signal_resolves_or_waits_witness:
  "\<exists>db'. deliver_signal 5 ''i'' ''u'' ''s1'' (GInt 7) parked_db = Inr (False, db') \<and> length (d_signals db') = 1"
proof -
  have "\<not> fst (projr (deliver_signal 5 ''i'' ''u'' ''s1'' (GInt 7) parked_db))" by code_simp
  then obtain db' where d: "deliver_signal 5 ''i'' ''u'' ''s1'' (GInt 7) parked_db = Inr (False, db')"
    using projr_Inr [OF parked_signalled(2)] by (metis (full_types) prod.collapse)
  from signal_resolves_or_waits [OF d] have "d_signals db' = d_signals parked_db @ [\<lparr>s_id = ''s1'', s_instance = ''i'', s_task = ''u'',
            s_result = decoded (GInt 7), s_created_at = 5\<rparr>]" by simp
  with d show ?thesis by (simp add: parked_db_def db_with_def)
qed




definition buffered_db :: database where
  "buffered_db = (db_with [blank_row ''i''])\<lparr>d_signals :=
     [\<lparr>s_id = ''s1'', s_instance = ''i'', s_task = ''t'', s_result = GInt 7, s_created_at = 5\<rparr>]\<rparr>"

lemma buffered_arms: "\<not> isl (arm_external_or_consume_signal (\<lambda>t. t) 9 ''t'' ''i.n'' GNil None (to_instance (blank_row ''i'')) buffered_db)"
  by code_simp

theorem arming_consumes_oldest_signal_witness:
  "\<exists>inst' db'. arm_external_or_consume_signal (\<lambda>t. t) 9 ''t'' ''i.n'' GNil None (to_instance (blank_row ''i'')) buffered_db
     = Inr (Some (GInt 7), inst', db') \<and> queue (d_signals db') ''i'' ''t'' = []"
proof -
  let ?s = "\<lparr>s_id = ''s1'', s_instance = ''i'', s_task = ''t'', s_result = GInt 7, s_created_at = 5\<rparr>"
  obtain res inst' db' where d: "arm_external_or_consume_signal (\<lambda>t. t) 9 ''t'' ''i.n'' GNil None (to_instance (blank_row ''i'')) buffered_db
     = Inr (res, inst', db')" using projr_Inr [OF buffered_arms] by (metis prod.collapse)
  have i: "inst_id (to_instance (blank_row ''i'')) = ''i''" by (simp add: to_instance_def blank_row_def)
  have "res = Some (s_result ?s) \<and> queue (d_signals db') ''i'' ''t'' = []"
    using arming_consumes_oldest_signal [OF d, of ?s "[]" "blank_row ''i''"]
    by (simp add: i buffered_db_def queue_def buffered_for_def db_with_def get_row_def blank_row_def)
  with d show ?thesis by auto
qed

end
