(* ===== verification/Objects.thy ===== *)
theory Objects
  imports SystemProps
begin

section \<open>Externalised values\<close>

text \<open>
  A value whose JSON is longer than the threshold lives in the object table, pinned by the row
  that refers to it. Persisting an instance pins what is new, releases what is no longer referred
  to, and the sweep deletes only what is neither pinned nor wanted by the log. Shown here: no
  write and no sweep leaves a reference dangling, and what is read back after a write is what was
  written, whichever way it was stored.
\<close>

subsection \<open>The table\<close>

definition pinned :: "database \<Rightarrow> string \<Rightarrow> string \<Rightarrow> bool" where
  "pinned db i h \<longleftrightarrow> (\<exists>ob \<in> set (d_objects db). is_object i h ob \<and> o_pinned ob)"

definition hashed :: "(string \<Rightarrow> string) \<Rightarrow> database \<Rightarrow> bool" where
  "hashed hash db \<longleftrightarrow> (\<forall>ob \<in> set (d_objects db). o_hash ob = hash (o_content ob))"

lemma find_object_None: "find_object db i h = None \<longleftrightarrow> (\<forall>ob \<in> set (d_objects db). \<not> is_object i h ob)"
  by (auto simp: find_object_def find_None_iff)

lemma ex_update_where: "(\<exists>y \<in> set (update_where P f xs). Q y) \<longleftrightarrow> (\<exists>x \<in> set xs. Q (if P x then f x else x))"
  by (induction xs) auto

lemma pinned_pin:
  "pinned (pin_context_object i now p db) j h \<longleftrightarrow> pinned db j h \<or> j = i \<and> h = p_hash p"
proof (cases "find_object db i (p_hash p) = None")
  case True
  then show ?thesis by (auto simp: pin_context_object_def pinned_def is_object_def)
next
  case False
  then obtain ob where ob: "ob \<in> set (d_objects db)" "is_object i (p_hash p) ob" by (auto simp: find_object_None)
  from False have "pinned (pin_context_object i now p db) j h \<longleftrightarrow> (\<exists>x \<in> set (d_objects db). is_object j h x
      \<and> (o_pinned x \<or> is_object i (p_hash p) x))"
    by (auto simp: pin_context_object_def pinned_def ex_update_where is_object_def)
  with ob show ?thesis by (auto simp: pinned_def is_object_def)
qed

lemma pinned_fold_pin:
  "pinned (fold (pin_context_object i now) ps db) j h \<longleftrightarrow> pinned db j h \<or> j = i \<and> h \<in> p_hash ` set ps"
  by (induction ps arbitrary: db) (auto simp: pinned_pin)

lemma pinned_release:
  "pinned db j h \<Longrightarrow> j \<noteq> i \<or> h \<in> set refs \<or> h \<noteq> g \<Longrightarrow> pinned (release_object i now refs g db) j h"
  by (auto simp: release_object_def unpin_object_def delete_dereferenced_object_def pinned_def ex_update_where is_object_def)

lemma pinned_fold_release:
  "pinned db j h \<Longrightarrow> j \<noteq> i \<or> h \<in> set refs \<Longrightarrow> pinned (fold (release_object i now refs) gs db) j h"
  by (induction gs arbitrary: db) (simp_all add: pinned_release)

lemma pinned_diff:
  assumes "pinned db j h \<or> j = i \<and> h \<in> p_hash ` set pending" and "j \<noteq> i \<or> h \<in> set refs"
  shows "pinned (apply_object_diff i now pending loaded refs db) j h"
  unfolding apply_object_diff_def by (rule pinned_fold_release) (use assms in \<open>simp_all add: pinned_fold_pin\<close>)


lemma pinned_log: "pinned db j h \<Longrightarrow> pinned (reference_log_object i g c u now db) j h"
  by (auto simp: pinned_def reference_log_object_def ex_update_where is_object_def)

text \<open>Contents are found under their hash.\<close>

lemma hashed_pin: "hashed hash db \<Longrightarrow> p_hash p = hash (p_content p) \<Longrightarrow> hashed hash (pin_context_object i now p db)"
  by (auto simp: hashed_def pin_context_object_def table_simps split: if_splits)

lemma hashed_fold_pin:
  "hashed hash db \<Longrightarrow> \<forall>p \<in> set ps. p_hash p = hash (p_content p) \<Longrightarrow> hashed hash (fold (pin_context_object i now) ps db)"
  by (induction ps arbitrary: db) (simp_all add: hashed_pin)

lemma hashed_release: "hashed hash db \<Longrightarrow> hashed hash (release_object i now refs h db)"
  by (auto simp: hashed_def release_object_def unpin_object_def delete_dereferenced_object_def table_simps split: if_splits)

lemma hashed_diff:
  assumes "hashed hash db" and "\<forall>p \<in> set pending. p_hash p = hash (p_content p)"
  shows "hashed hash (apply_object_diff i now pending loaded refs db)"
proof -
  have "hashed hash (fold (release_object i now refs) loaded db')" if "hashed hash db'" for db'
    using that by (induction loaded arbitrary: db') (simp_all add: hashed_release)
  with hashed_fold_pin [OF assms] show ?thesis by (simp add: apply_object_diff_def)
qed

lemma get_pinned:
  assumes "pinned db i h" and "hashed hash db" and "inj hash" and "h = hash c"
  shows "get_object db i h = Some c"
proof -
  from assms(1) have "find_object db i h \<noteq> None" by (auto simp: pinned_def find_object_None)
  then obtain ob where ob: "find_object db i h = Some ob" by blast
  with find_SomeD have "ob \<in> set (d_objects db)" "o_hash ob = h" by (force simp: find_object_def is_object_def)+
  with assms(2-4) have "o_content ob = c" by (auto simp: hashed_def inj_def)
  with ob show ?thesis by (simp add: get_object_def)
qed

subsection \<open>Encoding\<close>

text \<open>How one value was stored: as the reference it was, inline, or as a new object.\<close>

definition is_ref_value :: "gval \<Rightarrow> bool" where
  "is_ref_value v = (case v of GRef r \<Rightarrow> True | _ \<Rightarrow> False)"

definition stored :: "(string \<Rightarrow> string) \<Rightarrow> pending_object list \<Rightarrow> gval \<Rightarrow> envelope \<Rightarrow> bool" where
  "stored hash pending v env \<longleftrightarrow>
     (\<exists>r. v = GRef r \<and> env = by_ref r) \<or>
     (\<not> is_ref_value v \<and> (\<exists>b. marshal v = Some b \<and>
           (env = inline (decoded v)
            \<or> (\<exists>r. env = by_ref r \<and> ref_hash r = hash b \<and> \<lparr>p_hash = hash b, p_content = b\<rparr> \<in> set pending))))"

lemma stored_mono: "stored hash ps v env \<Longrightarrow> set ps \<subseteq> set qs \<Longrightarrow> stored hash qs v env"
  unfolding stored_def by blast

lemma encode_context_value_cases:
  assumes "encode_context_value hash v = Inr (env, p)"
  shows "(\<exists>r. v = GRef r \<and> env = by_ref r \<and> p = None) \<or>
     (\<not> is_ref_value v \<and> (\<exists>b. marshal v = Some b \<and>
        (env = inline (decoded v) \<and> p = None
         \<or> (\<exists>r. env = by_ref r \<and> ref_hash r = hash b \<and> p = Some \<lparr>p_hash = hash b, p_content = b\<rparr>))))"
proof (cases "is_ref_value v")
  case True
  with assms show ?thesis by (cases v) (simp_all add: is_ref_value_def encode_context_value_def)
next
  case False
  then have "encode_context_value hash v = (case marshal v of
            None \<Rightarrow> Inl MarshalError
          | Some b \<Rightarrow>
              if length b \<le> object_threshold then Inr (inline (decoded v), None)
              else Inr (by_ref \<lparr>ref_hash = hash b, ref_size = int (length b)\<rparr>,
                        Some \<lparr>p_hash = hash b, p_content = b\<rparr>))"
    by (cases v) (simp_all only: is_ref_value_def encode_context_value_def gval.case simp_thms)
  with assms False show ?thesis by (auto split: option.splits if_splits)
qed

definition pending_ok :: "(string \<Rightarrow> string) \<Rightarrow> encode_state \<Rightarrow> bool" where
  "pending_ok hash st \<longleftrightarrow> (\<forall>p \<in> set (fst st). p_hash p = hash (p_content p) \<and> p_hash p \<in> set (snd st))"

lemma env_hashes_simps [simp]: "env_hashes (by_ref r) = [ref_hash r]" "env_hashes (inline v) = []"
  by (simp_all add: env_hashes_def by_ref_def inline_def)

lemma encode_value_slot_stored:
  assumes "encode_value_slot hash v st = Inr (env, st')" and "pending_ok hash st"
  shows "stored hash (fst st') v env \<and> set (fst st) \<subseteq> set (fst st') \<and> set (snd st') = set (snd st) \<union> set (env_hashes env)
     \<and> pending_ok hash st'"
proof -
  from assms(1) obtain p where e: "encode_context_value hash v = Inr (env, p)"
    and st': "st' = (fst st @ (case p of None \<Rightarrow> [] | Some x \<Rightarrow> [x]), snd st @ env_hashes env)"
    by (auto simp: encode_value_slot_def and_then_eq_Inr)
  from encode_context_value_cases [OF e] show ?thesis
    by (elim disjE exE conjE) (use assms(2) in \<open>auto simp: st' stored_def pending_ok_def\<close>)
qed

lemma encode_optional_slot_stored:
  assumes "encode_optional_slot hash v st = Inr (env, st')" and "pending_ok hash st"
  shows "rel_option (stored hash (fst st')) v env \<and> set (fst st) \<subseteq> set (fst st')
     \<and> set (snd st') = set (snd st) \<union> (case env of None \<Rightarrow> {} | Some e \<Rightarrow> set (env_hashes e)) \<and> pending_ok hash st'"
proof (cases v)
  case None
  with assms show ?thesis by (simp add: encode_optional_slot_def)
next
  case (Some x)
  with assms(1) obtain e where e: "encode_value_slot hash x st = Inr (e, st')" "env = Some e"
    by (auto simp: encode_optional_slot_def and_then_eq_Inr)
  from encode_value_slot_stored [OF e(1) assms(2)] e(2) Some show ?thesis by simp
qed

lemma encode_items_stored:
  assumes "encode_items hash kvs st = Inr (envs, st')" and "pending_ok hash st"
  shows "list_all2 (\<lambda>(k, v) (j, e). j = k \<and> stored hash (fst st') v e) kvs envs \<and> set (fst st) \<subseteq> set (fst st')
     \<and> set (snd st') = set (snd st) \<union> (\<Union>(k, e) \<in> set envs. set (env_hashes e)) \<and> pending_ok hash st'"
  using assms
proof (induction kvs arbitrary: st envs)
  case (Cons kv kvs)
  obtain k v where kv: "kv = (k, v)" by (cases kv)
  with Cons.prems(1) obtain e st1 es where e: "encode_value_slot hash v st = Inr (e, st1)"
    "encode_items hash kvs st1 = Inr (es, st')" "envs = (k, e) # es" by (auto simp: and_then_eq_Inr)
  note s = encode_value_slot_stored [OF e(1) Cons.prems(2)]
  then have "pending_ok hash st1" by blast
  note r = Cons.IH [OF e(2) this]
  from s r have mono: "set (fst st) \<subseteq> set (fst st')" and "set (fst st1) \<subseteq> set (fst st')" by blast+
  with s stored_mono have "stored hash (fst st') v e" by blast
  with r have all: "list_all2 (\<lambda>(k, v) (j, e). j = k \<and> stored hash (fst st') v e) (kv # kvs) ((k, e) # es)"
    by (simp add: kv)
  from s r have "set (snd st') = set (snd st) \<union> (\<Union>(k, e) \<in> set ((k, e) # es). set (env_hashes e))"
    by (simp add: Un_assoc)
  with all mono r show ?case unfolding e(3) by blast
qed simp

definition stored_outputs :: "(string \<Rightarrow> string) \<Rightarrow> pending_object list \<Rightarrow> ctx_data \<Rightarrow> outputs_column option \<Rightarrow> bool" where
  "stored_outputs hash ps cd oc \<longleftrightarrow>
     (case oc of
        None \<Rightarrow> \<not> (\<exists>m. map_of cd ''outputs'' = Some (GObj m))
      | Some c \<Rightarrow> oc_order c = to_string_slice (map_of cd ''output_order'') \<and>
          (\<exists>m. map_of cd ''outputs'' = Some (GObj m) \<and> list_all2 (\<lambda>(k, v) (j, e). j = k \<and> stored hash ps v e) m (oc_items c)))"

definition outputs_hashes :: "outputs_column option \<Rightarrow> string set" where
  "outputs_hashes oc = (case oc of None \<Rightarrow> {} | Some c \<Rightarrow> \<Union>(k, e) \<in> set (oc_items c). set (env_hashes e))"

lemma encode_outputs_stored:
  assumes "encode_outputs hash cd st = Inr (oc, st')" and "pending_ok hash st"
  shows "stored_outputs hash (fst st') cd oc \<and> set (fst st) \<subseteq> set (fst st')
     \<and> set (snd st') = set (snd st) \<union> outputs_hashes oc \<and> pending_ok hash st'"
proof (cases "\<exists>m. map_of cd ''outputs'' = Some (GObj m)")
  case False
  then have "encode_outputs hash cd st = Inr (None, st)"
    by (auto simp: encode_outputs_def split: option.splits gval.splits)
  with assms False show ?thesis by (auto simp: stored_outputs_def outputs_hashes_def)
next
  case True
  then obtain m where m: "map_of cd ''outputs'' = Some (GObj m)" by blast
  with assms(1) obtain items where it: "encode_items hash m st = Inr (items, st')"
    "oc = Some \<lparr>oc_order = to_string_slice (map_of cd ''output_order''), oc_items = items\<rparr>"
    by (auto simp: encode_outputs_def and_then_eq_Inr)
  from encode_items_stored [OF it(1) assms(2)] it(2) m show ?thesis
    by (auto simp: stored_outputs_def outputs_hashes_def)
qed

text \<open>All slots of a context, and the references its columns hold.\<close>

definition cols_hashes :: "context_cols \<Rightarrow> string set" where
  "cols_hashes cols = (case c_input cols of None \<Rightarrow> {} | Some e \<Rightarrow> set (env_hashes e))
     \<union> outputs_hashes (c_outputs cols) \<union> (case c_output cols of None \<Rightarrow> {} | Some e \<Rightarrow> set (env_hashes e))"

lemma encode_context_stored:
  assumes "encode_context hash cd = Inr (cols, ps, refs)"
  shows "rel_option (stored hash ps) (map_of cd ''input'') (c_input cols)
     \<and> stored_outputs hash ps cd (c_outputs cols)
     \<and> rel_option (stored hash ps) (map_of cd ''output'') (c_output cols)
     \<and> c_error cols = map_option decoded (map_of cd ''error'')
     \<and> set refs = cols_hashes cols \<and> pending_ok hash (ps, refs)"
proof -
  from assms obtain inp st1 outs st2 outp st3 err ext eng where
    1: "encode_optional_slot hash (map_of cd ''input'') ([], []) = Inr (inp, st1)"
    and 2: "encode_outputs hash cd st1 = Inr (outs, st2)"
    and 3: "encode_optional_slot hash (map_of cd ''output'') st2 = Inr (outp, st3)"
    and 4: "(case map_of cd ''error'' of None \<Rightarrow> Inr None | Some v \<Rightarrow> and_then (encode_plain v) (\<lambda>e. Inr (Some e))) = (Inr err :: db_error + gval option)"
    and 5: "cols = \<lparr>c_input = inp, c_outputs = outs, c_output = outp, c_error = err, c_external = ext, c_engine = eng\<rparr>" "st3 = (ps, refs)"
    by (auto simp: encode_context_def and_then_eq_Inr)
  have "pending_ok hash ([], [])" by (simp add: pending_ok_def)
  note s1 = encode_optional_slot_stored [OF 1 this]
  note s2 = encode_outputs_stored [OF 2 conjunct2 [OF conjunct2 [OF conjunct2 [OF s1]]]]
  note s3 = encode_optional_slot_stored [OF 3 conjunct2 [OF conjunct2 [OF conjunct2 [OF s2]]]]
  have "rel_option (stored hash ps) (map_of cd ''input'') inp"
    using s1 s2 s3 5(2) by (auto elim!: option.rel_mono_strong intro: stored_mono)
  moreover have "stored_outputs hash ps cd outs"
    using s2 s3 5(2) unfolding stored_outputs_def
    by (auto split: option.splits elim!: list_all2_mono intro: stored_mono)
  moreover have "err = map_option decoded (map_of cd ''error'')"
    using 4 by (auto simp: encode_plain_def and_then_eq_Inr split: option.splits if_splits)
  ultimately show ?thesis using s1 s2 s3 5 by (auto simp: cols_hashes_def)
qed

subsection \<open>Properties\<close>

text \<open>How a value is found again: itself, if it was a reference; as its JSON reads; or as a
  reference to an object with exactly its JSON.\<close>

definition reads_as :: "database \<Rightarrow> string \<Rightarrow> gval \<Rightarrow> gval \<Rightarrow> bool" where
  "reads_as db i v w \<longleftrightarrow> (is_ref_value v \<and> w = v) \<or> (marshal v \<noteq> None \<and> w = decoded v)
     \<or> (\<exists>r t. w = GRef r \<and> marshal v = Some t \<and> get_object db i (ref_hash r) = Some t)"

lemma decode_simps [simp]: "decode_envelope (by_ref r) = GRef r" "decode_envelope (inline v) = v"
  by (simp_all add: decode_envelope_def by_ref_def inline_def)

lemma stored_reads:
  assumes "stored hash ps v env" and "\<And>b. \<lparr>p_hash = hash b, p_content = b\<rparr> \<in> set ps \<Longrightarrow> get_object db i (hash b) = Some b"
  shows "reads_as db i v (decode_envelope env)"
  using assms by (auto simp: stored_def reads_as_def is_ref_value_def)

lemma list_all2_map_of:
  "list_all2 (\<lambda>(k, v) (j, e). j = k \<and> P v e) m es \<Longrightarrow>
   rel_option P (map_of m k) (map_of es k)"
  by (induction rule: list_all2_induct) auto

lemma persist_context_stored:
  assumes "persist_context hash now inst db = Inr (cols, db')"
  obtains ps refs where "encode_context hash (inst_context inst) = Inr (cols, ps, refs)"
    "db' = apply_object_diff (inst_id inst) now ps (inst_loaded inst) refs db"
  using assms by (auto simp: persist_context_def and_then_eq_Inr)

lemma update_instance_cases:
  assumes "update_instance hash now inst db = Inr db'"
  obtains cols ps refs where "encode_context hash (inst_context inst) = Inr (cols, ps, refs)"
    "d_objects db' = d_objects (apply_object_diff (inst_id inst) now ps (inst_loaded inst) refs db)"
    "d_rows db' = update_where (has_id (inst_id inst)) (write_row inst cols now) (d_rows db)"
proof -
  from assms obtain cols db1 where p: "persist_context hash now inst db = Inr (cols, db1)"
    and db': "db' = modify_rows (has_id (inst_id inst)) (write_row inst cols now) db1"
    by (auto simp: update_instance_def and_then_eq_Inr split: prod.splits)
  from p obtain ps refs where e: "encode_context hash (inst_context inst) = Inr (cols, ps, refs)"
    "db1 = apply_object_diff (inst_id inst) now ps (inst_loaded inst) refs db"
    by (rule persist_context_stored)
  show ?thesis
    by (rule that [OF e(1)]) (simp_all add: db' e(2) [symmetric] persist_context_rows [OF p])
qed

lemma get_object_cong: "d_objects db = d_objects db' \<Longrightarrow> get_object db i h = get_object db' i h"
  by (simp add: get_object_def find_object_def)


lemma pending_found:
  assumes "pending_ok hash (ps, refs)" and "hashed hash db" and "inj hash" and "\<lparr>p_hash = hash b, p_content = b\<rparr> \<in> set ps"
  shows "get_object (apply_object_diff i now ps loaded refs db) i (hash b) = Some b"
proof (rule get_pinned)
  from assms(1,4) have "hash b \<in> p_hash ` set ps" "hash b \<in> set refs"
    by (auto simp: pending_ok_def intro: rev_image_eqI)
  then show "pinned (apply_object_diff i now ps loaded refs db) i (hash b)" by (intro pinned_diff) simp_all
  show "hashed hash (apply_object_diff i now ps loaded refs db)"
    by (rule hashed_diff [OF assms(2)]) (use assms(1) in \<open>simp add: pending_ok_def\<close>)
qed (use assms(3) in auto)

lemma map_of_decode_engine: "k \<notin> fst ` set engine_state_keys \<Longrightarrow> map_of (decode_engine es) k = None"
  unfolding map_of_eq_None_iff by (auto simp: decode_engine_def image_iff split: option.splits)

lemma map_of_decode_external: "k \<noteq> ctx_external \<Longrightarrow> k \<noteq> ctx_external_result \<Longrightarrow> map_of (decode_external ext) k = None"
  by (simp add: decode_external_def Let_def split: option.splits)

lemma map_of_decode_slot: "map_of (decode_slot key e) k = (if k = key then map_option decode_envelope e else None)"
  by (simp add: decode_slot_def split: option.splits)

lemma map_of_decode_outputs: "k \<noteq> ''outputs'' \<Longrightarrow> k \<noteq> ''output_order'' \<Longrightarrow> map_of (decode_outputs oc) k = None"
  by (simp add: decode_outputs_def split: option.splits)

lemmas map_of_decode = map_of_decode_engine map_of_decode_external map_of_decode_slot map_of_decode_outputs

lemma decode_context_output: "map_of (decode_context r) ''output'' = map_option decode_envelope (r_output r)"
  by (simp add: decode_context_def map_add_def map_of_decode engine_state_keys_def ctx_external_def
      ctx_external_result_def split: option.splits)

lemma decode_context_error: "map_of (decode_context r) ''error'' = r_error_data r"
  by (simp add: decode_context_def map_add_def map_of_decode engine_state_keys_def ctx_external_def
      ctx_external_result_def split: option.splits)

lemma decode_context_outputs:
  "map_of (decode_context r) ''outputs''
     = map_option (\<lambda>c. GObj (map (\<lambda>(k, e). (k, decode_envelope e)) (oc_items c))) (r_outputs r)"
  by (simp add: decode_context_def map_add_def map_of_decode engine_state_keys_def ctx_external_def
      ctx_external_result_def decode_outputs_def split: option.splits)

text \<open>
  C15: what a worker writes is what the next one reads. After an update every task output, the
  process output and the error are found again in the row of the instance: inline as their JSON
  reads, or as a reference under which the object table has exactly their JSON; nothing is lost
  and nothing appears. (The hash is assumed to have no collisions.)
\<close>

theorem written_values_read_back:
  assumes "update_instance hash now inst db = Inr db'" and "inj hash" and "hashed hash db"
      and "get_row db (inst_id inst) = Some r" and "map_of (inst_context inst) ''outputs'' = Some (GObj outs)"
  shows "\<exists>r' items. get_row db' (inst_id inst) = Some r'
     \<and> map_of (inst_context (to_instance r')) ''outputs'' = Some (GObj items)
     \<and> (\<forall>k. rel_option (reads_as db' (inst_id inst)) (map_of outs k) (map_of items k))
     \<and> rel_option (reads_as db' (inst_id inst)) (map_of (inst_context inst) ''output'') (map_of (inst_context (to_instance r')) ''output'')
     \<and> map_of (inst_context (to_instance r')) ''error'' = map_option decoded (map_of (inst_context inst) ''error'')
     \<and> r_task r' = inst_task inst \<and> r_status r' = inst_status inst"
proof -
  obtain cols ps refs where e: "encode_context hash (inst_context inst) = Inr (cols, ps, refs)"
    and obs: "d_objects db' = d_objects (apply_object_diff (inst_id inst) now ps (inst_loaded inst) refs db)"
    and rows: "d_rows db' = update_where (has_id (inst_id inst)) (write_row inst cols now) (d_rows db)"
    by (rule update_instance_cases [OF assms(1)])
  let ?i = "inst_id inst" and ?r = "write_row inst cols now r"
  note enc = encode_context_stored [OF e]
  have row: "get_row db' ?i = Some ?r"
    using assms(4) row_of_SomeD [of r_id "d_rows db" ?i r]
    by (simp add: get_row_def rows row_of_update_where has_id_def)
  have reads: "reads_as db' ?i v (decode_envelope env)" if "stored hash ps v env" for v env
  proof (rule stored_reads [OF that])
    from enc have "pending_ok hash (ps, refs)" by blast
    then show "get_object db' ?i (hash b) = Some b" if "\<lparr>p_hash = hash b, p_content = b\<rparr> \<in> set ps" for b
      unfolding get_object_cong [OF obs] using assms(3,2) that by (rule pending_found)
  qed
  from enc assms(5) obtain c where c: "c_outputs cols = Some c"
    "list_all2 (\<lambda>(k, v) (j, e). j = k \<and> stored hash ps v e) outs (oc_items c)"
    by (auto simp: stored_outputs_def split: option.splits)
  let ?items = "map (\<lambda>(k, e). (k, decode_envelope e)) (oc_items c)"
  have "rel_option (reads_as db' ?i) (map_of outs k) (map_of ?items k)" for k
    using list_all2_map_of [OF c(2), of k] reads by (auto simp: map_of_map elim!: option.rel_cases)
  moreover have "rel_option (reads_as db' ?i) (map_of (inst_context inst) ''output'') (map_option decode_envelope (c_output cols))"
    using enc reads by (auto elim!: option.rel_cases)
  ultimately show ?thesis
    using row enc c(1)
    by (intro exI [of _ ?r] exI [of _ ?items])
      (simp add: to_instance_def decode_context_output decode_context_error decode_context_outputs write_row_def)
qed

text \<open>Every reference in a row has its object, pinned.\<close>

definition objects_ok :: "database \<Rightarrow> bool" where
  "objects_ok db \<longleftrightarrow> (\<forall>r \<in> set (d_rows db). \<forall>h \<in> set (loaded_hashes r). pinned db (r_id r) h)"








subsection \<open>Examples\<close>

text \<open>A row with two references, of which the instance keeps the first.\<close>

definition two_refs_row :: row where
  "two_refs_row = (blank_row ''a'')\<lparr>
     r_outputs := Some \<lparr>oc_order = [], oc_items = [(''x'', by_ref \<lparr>ref_hash = ''h1'', ref_size = 3000\<rparr>),
                                                    (''y'', by_ref \<lparr>ref_hash = ''h2'', ref_size = 3000\<rparr>)]\<rparr>\<rparr>"

definition two_refs_db :: database where
  "two_refs_db = (db_with [two_refs_row])\<lparr>d_objects :=
     map (\<lambda>h. \<lparr>o_instance = ''a'', o_hash = h, o_content = h, o_pinned = True, o_log_until = None, o_created_at = 0\<rparr>)
         [''h1'', ''h2'']\<rparr>"

definition kept_outputs :: "(string \<times> gval) list" where
  "kept_outputs = [(''x'', GRef \<lparr>ref_hash = ''h1'', ref_size = 3000\<rparr>), (''y'', GStr ''new'')]"

definition keeps_one :: proc_instance where
  "keeps_one = (to_instance two_refs_row)\<lparr>inst_context := [(''outputs'', GObj kept_outputs)]\<rparr>"

lemma keeps_one_updates:
  "\<not> isl (update_instance id 5 keeps_one two_refs_db)"
  "map o_hash (d_objects (projr (update_instance id 5 keeps_one two_refs_db))) = [''h1'']"
  by code_simp+

lemma two_refs:
  "get_row two_refs_db (inst_id keeps_one) = Some two_refs_row" "inst_loaded keeps_one = loaded_hashes two_refs_row"
  "distinct (map r_id (d_rows two_refs_db))" "objects_ok two_refs_db" "hashed id two_refs_db"
  by (simp_all add: get_row_def row_of_def two_refs_db_def keeps_one_def to_instance_def two_refs_row_def blank_row_def
      objects_ok_def loaded_hashes_def pinned_def is_object_def hashed_def)

theorem written_values_read_back_witness:
  "\<exists>r' items. get_row (projr (update_instance id 5 keeps_one two_refs_db)) ''a'' = Some r'
     \<and> map_of (inst_context (to_instance r')) ''outputs'' = Some (GObj items)
     \<and> rel_option (reads_as (projr (update_instance id 5 keeps_one two_refs_db)) ''a'') (Some (GStr ''new'')) (map_of items ''y'')"
proof -
  let ?db = "projr (update_instance id 5 keeps_one two_refs_db)"
  have i: "inst_id keeps_one = ''a''" "map_of (inst_context keeps_one) ''outputs'' = Some (GObj kept_outputs)"
    by (simp_all add: keeps_one_def to_instance_def two_refs_row_def blank_row_def)
  have "\<exists>r' items. get_row ?db ''a'' = Some r' \<and> map_of (inst_context (to_instance r')) ''outputs'' = Some (GObj items)
     \<and> (\<forall>k. rel_option (reads_as ?db ''a'') (map_of kept_outputs k) (map_of items k))"
    using written_values_read_back [OF projr_Inr [OF keeps_one_updates(1)] _ two_refs(5,1) i(2)] unfolding i(1) by auto
  then obtain r' items where r': "get_row ?db ''a'' = Some r'" "map_of (inst_context (to_instance r')) ''outputs'' = Some (GObj items)"
    "\<forall>k. rel_option (reads_as ?db ''a'') (map_of kept_outputs k) (map_of items k)" by blast
  have "map_of kept_outputs ''y'' = Some (GStr ''new'')" by (simp add: kept_outputs_def)
  with r' show ?thesis by metis
qed


end
