(* ===== verification/IdGen.thy ===== *)
theory IdGen
  imports Prelude
begin

section \<open>Instance ids (\<open>internal/idgen/idgen.go\<close>)\<close>

text \<open>
  A UUID is its 16 bytes read as two big-endian 64-bit words. \<open>Add\<close> carries from the low
  word into the high word; \<open>After\<close> and \<open>ChildBase\<close> choose an id that sorts after a given
  one. The clock- and randomness-driven generator of the \<open>uuid\<close> package is not code of the
  repository: the fresh value it returns is an argument. \<open>bytes.Compare\<close> of two ids is the
  comparison of the words, high word first.
\<close>

datatype uuid = UUID (hi_word: "64 word") (lo_word: "64 word")

definition uuid_val :: "uuid \<Rightarrow> nat" where
  "uuid_val u = unat (hi_word u) * 2 ^ 64 + unat (lo_word u)"

fun add_uuid :: "uuid \<Rightarrow> 64 word \<Rightarrow> uuid" where
  "add_uuid (UUID hi lo) n =
     (let s = lo + n
      in if s < lo then UUID (hi + 1) s else UUID hi s)"

definition bytes_greater :: "uuid \<Rightarrow> uuid \<Rightarrow> bool" where
  "bytes_greater a b \<longleftrightarrow>
     hi_word b < hi_word a \<or> (hi_word b = hi_word a \<and> lo_word b < lo_word a)"

definition after_uuid :: "uuid \<Rightarrow> uuid \<Rightarrow> uuid" where
  "after_uuid fresh prev = (if bytes_greater fresh prev then fresh else add_uuid prev 1)"

text \<open>\<open>ChildBase\<close>: the parent id parses (always, for a real instance) or a fresh id is used.\<close>

definition child_base :: "uuid \<Rightarrow> uuid option \<Rightarrow> uuid" where
  "child_base fresh parsed_parent =
     (case parsed_parent of Some p \<Rightarrow> after_uuid fresh p | None \<Rightarrow> fresh)"

subsection \<open>Ids as 128-bit numbers\<close>

lemma unat_word64_less: "unat (w :: 64 word) < 2 ^ 64"
  using unsigned_less [of w, where ?'a = nat] by simp

lemma uuid_val_less: "uuid_val u < 2 ^ 128"
proof -
  have "uuid_val u < unat (hi_word u) * 2 ^ 64 + 2 ^ 64"
    using unat_word64_less [of "lo_word u"] by (simp add: uuid_val_def)
  also have "\<dots> = (unat (hi_word u) + 1) * 2 ^ 64" by simp
  also have "\<dots> \<le> 2 ^ 64 * 2 ^ 64"
    using unat_word64_less [of "hi_word u"] by (intro mult_le_mono1) simp
  finally show ?thesis by simp
qed

lemma uuid_val_inj: "uuid_val a = uuid_val b \<longleftrightarrow> a = b"
proof
  assume eq: "uuid_val a = uuid_val b"
  have "unat (hi_word a) = uuid_val a div 2 ^ 64" "unat (lo_word a) = uuid_val a mod 2 ^ 64"
       "unat (hi_word b) = uuid_val b div 2 ^ 64" "unat (lo_word b) = uuid_val b mod 2 ^ 64"
    using unat_word64_less [of "lo_word a"] unat_word64_less [of "lo_word b"]
    by (simp_all add: uuid_val_def)
  with eq have "unat (hi_word a) = unat (hi_word b)" "unat (lo_word a) = unat (lo_word b)"
    by simp_all
  then show "a = b" by (simp add: uuid.expand word_unat_eq_iff)
qed simp

lemma bytes_greater_val: "bytes_greater a b \<longleftrightarrow> uuid_val b < uuid_val a"
proof -
  have la: "unat (lo_word a) < 2 ^ 64" and lb: "unat (lo_word b) < 2 ^ 64"
    by (rule unat_word64_less)+
  consider (lt) "unat (hi_word b) < unat (hi_word a)"
    | (eq) "hi_word b = hi_word a" | (gt) "unat (hi_word a) < unat (hi_word b)"
    by (metis linorder_neqE_nat word_unat_eq_iff)
  then show ?thesis
  proof cases
    case lt
    then have "(unat (hi_word b) + 1) * 2 ^ 64 \<le> unat (hi_word a) * 2 ^ 64"
      by (intro mult_le_mono1) simp
    with lt lb show ?thesis
      by (simp add: bytes_greater_def uuid_val_def word_less_nat_alt)
  next
    case eq
    then show ?thesis by (simp add: bytes_greater_def uuid_val_def word_less_nat_alt)
  next
    case gt
    then have "(unat (hi_word a) + 1) * 2 ^ 64 \<le> unat (hi_word b) * 2 ^ 64"
      by (intro mult_le_mono1) simp
    with gt la show ?thesis
      by (auto simp add: bytes_greater_def uuid_val_def word_less_nat_alt)
  qed
qed

text \<open>The carry: the low sum wrapped around exactly when it is smaller than an operand.\<close>

lemma low_word_carry:
  "unat (lo + n :: 64 word) = (if lo + n < lo then unat lo + unat n - 2 ^ 64 else unat lo + unat n)"
  "lo + n < lo \<longleftrightarrow> 2 ^ 64 \<le> unat lo + unat n"
proof -
  have s: "unat (lo + n) = (unat lo + unat n) mod 2 ^ 64"
    using unat_word_ariths(1) [of lo n] by simp
  have l: "unat lo < 2 ^ 64" "unat n < 2 ^ 64" by (rule unat_word64_less)+
  show iff: "lo + n < lo \<longleftrightarrow> 2 ^ 64 \<le> unat lo + unat n"
    unfolding word_less_nat_alt s using l by (auto simp: mod_if)
  show "unat (lo + n) = (if lo + n < lo then unat lo + unat n - 2 ^ 64 else unat lo + unat n)"
    unfolding iff s using l by (auto simp: mod_if)
qed

text \<open>
  C29: \<open>Add\<close> is addition of 128-bit big-endian integers: the carry out of the low word reaches
  the high word, and only a sum past the last id wraps around.
\<close>

theorem add_uuid_is_128_bit_addition:
  "uuid_val (add_uuid base n) = (uuid_val base + unat n) mod 2 ^ 128"
proof (cases base)
  case (UUID hi lo)
  have b: "unat hi < 2 ^ 64" "unat lo < 2 ^ 64" "unat n < 2 ^ 64" by (rule unat_word64_less)+
  have h: "unat (hi + 1) = (unat hi + 1) mod 2 ^ 64"
    using unat_word_ariths(1) [of hi 1] by simp
  show ?thesis
  proof (cases "lo + n < lo")
    case False
    then have "unat lo + unat n < 2 ^ 64" by (simp add: low_word_carry(2))
    then have "unat hi * 2 ^ 64 + (unat lo + unat n) < (2 ^ 64 - 1) * 2 ^ 64 + 2 ^ 64"
      using b by (intro add_le_less_mono mult_le_mono1) simp_all
    with False UUID show ?thesis
      by (simp add: uuid_val_def low_word_carry(1))
  next
    case True
    then have c: "2 ^ 64 \<le> unat lo + unat n" by (simp add: low_word_carry(2))
    have v: "uuid_val (add_uuid base n)
        = (unat hi + 1) mod 2 ^ 64 * 2 ^ 64 + (unat lo + unat n - 2 ^ 64)"
      using True UUID by (simp add: uuid_val_def low_word_carry(1) [of lo n] h)
    show ?thesis
    proof (cases "unat hi + 1 = 2 ^ 64")
      case True
      then have "uuid_val base + unat n = (unat lo + unat n - 2 ^ 64) + 2 ^ 128"
        using UUID c by (simp add: uuid_val_def)
      with v True b show ?thesis by simp
    next
      case False
      with b have "(unat hi + 1) * 2 ^ 64 \<le> (2 ^ 64 - 1) * 2 ^ 64"
        by (intro mult_le_mono1) simp
      with False v UUID c b show ?thesis by (simp add: uuid_val_def)
    qed
  qed
qed

lemma add_uuid_val:
  assumes "uuid_val base + unat n < 2 ^ 128"
  shows "uuid_val (add_uuid base n) = uuid_val base + unat n"
  using assms by (simp add: add_uuid_is_128_bit_addition)

text \<open>The all-ones id has no successor: \<open>Add\<close> wraps it to the smallest id.\<close>

definition last_uuid :: uuid where
  "last_uuid = UUID 0xFFFFFFFFFFFFFFFF 0xFFFFFFFFFFFFFFFF"

lemma uuid_val_last: "uuid_val last_uuid = 2 ^ 128 - 1"
  by (simp add: last_uuid_def uuid_val_def)

lemma not_last_val: "u \<noteq> last_uuid \<Longrightarrow> uuid_val u + 1 < 2 ^ 128"
  using uuid_val_less [of u] uuid_val_inj [of u last_uuid] by (simp add: uuid_val_last)

lemma after_uuid_greater:
  assumes "prev \<noteq> last_uuid"
  shows "uuid_val prev < uuid_val (after_uuid fresh prev)"
  using not_last_val [OF assms] add_uuid_val [of prev 1]
  by (simp add: after_uuid_def bytes_greater_val)

text \<open>
  Siblings of one spawn (\<open>buildParallelChildren\<close>): child \<open>i\<close> gets \<open>Add(base, i)\<close> with
  \<open>base = ChildBase(parent)\<close>.
\<close>

definition sibling_ids :: "uuid \<Rightarrow> uuid option \<Rightarrow> nat \<Rightarrow> uuid list" where
  "sibling_ids fresh parsed_parent k =
     map (\<lambda>i. add_uuid (child_base fresh parsed_parent) (of_nat i)) [0..<k]"

lemma sibling_vals:
  assumes "uuid_val (child_base fresh pp) + k \<le> 2 ^ 128" and "k < 2 ^ 64" and "i < k"
  shows "uuid_val (sibling_ids fresh pp k ! i) = uuid_val (child_base fresh pp) + i"
proof -
  have u: "unat (of_nat i :: 64 word) = i"
    using assms by (simp add: unat_of_nat)
  show ?thesis
    using assms add_uuid_val [of "child_base fresh pp" "of_nat i"]
    by (simp add: sibling_ids_def u)
qed

text \<open>
  C28: the ids of one batch of children are strictly increasing in spawn order and every one
  is greater than the parent's id, for a parent that is not the last id and a batch that does
  not run past it.
\<close>

theorem children_sort_after_parent:
  assumes "parent \<noteq> last_uuid" and "k < 2 ^ 64"
    and "uuid_val (child_base fresh (Some parent)) + k \<le> 2 ^ 128"
  shows "sorted_wrt (\<lambda>a b. uuid_val a < uuid_val b)
           (parent # sibling_ids fresh (Some parent) k)"
proof -
  let ?ids = "sibling_ids fresh (Some parent) k"
  have len: "length ?ids = k" by (simp add: sibling_ids_def)
  have gt: "uuid_val parent < uuid_val (child_base fresh (Some parent))"
    using after_uuid_greater [OF assms(1)] by (simp add: child_base_def)
  have v: "uuid_val (?ids ! i) = uuid_val (child_base fresh (Some parent)) + i" if "i < k" for i
    using sibling_vals [OF assms(3,2) that] .
  have "sorted_wrt (\<lambda>a b. uuid_val a < uuid_val b) ?ids"
    by (simp add: sorted_wrt_iff_nth_less len v)
  moreover have "uuid_val parent < uuid_val b" if "b \<in> set ?ids" for b
    using that gt v by (auto simp: in_set_conv_nth len)
  ultimately show ?thesis by simp
qed

theorem children_sort_after_parent_witness:
  "sorted_wrt (\<lambda>a b. uuid_val a < uuid_val b)
     (UUID 1 0 # sibling_ids (UUID 0 7) (Some (UUID 1 0)) 3)"
  by (rule children_sort_after_parent)
    (simp_all add: last_uuid_def child_base_def after_uuid_def bytes_greater_def uuid_val_def)

end
