(* ===== verification/Placeholders.thy ===== *)
theory Placeholders
  imports GoStrings
begin

section \<open>SQL placeholders (\<open>internal/db/pg_rewriter.go\<close>)\<close>

text \<open>
  Statements are written with the placeholder \<open>?\<close> of SQLite; for Postgres each becomes \<open>$n\<close>:
  \<open>?n\<close> keeps its number, a plain \<open>?\<close> takes the next of a counter. Shown here: a statement of
  plain placeholders is rewritten to one with \<open>$1\<close>, \<open>$2\<close>, ... at the same places.
\<close>

function rewrite_from :: "nat \<Rightarrow> string \<Rightarrow> string" where
  "rewrite_from n [] = []"
| "rewrite_from n (c # s) =
     (if c \<noteq> CHR ''?'' then c # rewrite_from n s
      else (let ds = takeWhile is_digit s; rest = dropWhile is_digit s in
        if ds \<noteq> [] then CHR ''$'' # ds @ rewrite_from n rest
        else CHR ''$'' # dec_nat (Suc n) @ rewrite_from (Suc n) rest))"
  by pat_completeness auto
termination
  by (relation "measure (\<lambda>(n, s). length s)") (simp_all add: le_imp_less_Suc length_dropWhile_le)

definition rewrite_placeholders :: "string \<Rightarrow> string" where
  "rewrite_placeholders query = rewrite_from 0 query"

text \<open>
  A text with holes: pieces without a placeholder of their own, woven together by the text of
  each hole. No piece behind a hole begins with a digit, which would be read as its number.
\<close>

fun weave :: "(nat \<Rightarrow> string) \<Rightarrow> nat \<Rightarrow> string list \<Rightarrow> string" where
  "weave hole n [] = []"
| "weave hole n (p # ps) = hole n @ p @ weave hole (Suc n) ps"

definition filled :: "(nat \<Rightarrow> string) \<Rightarrow> string list \<Rightarrow> string" where
  "filled hole ps = (case ps of [] \<Rightarrow> [] | p # qs \<Rightarrow> p @ weave hole 1 qs)"

definition no_mark :: "string \<Rightarrow> bool" where
  "no_mark p \<longleftrightarrow> CHR ''?'' \<notin> set p"

definition starts_plain :: "string \<Rightarrow> bool" where
  "starts_plain p \<longleftrightarrow> (case p of [] \<Rightarrow> True | c # _ \<Rightarrow> \<not> is_digit c)"

definition question :: "nat \<Rightarrow> string" where
  "question n = ''?''"

definition dollar :: "nat \<Rightarrow> string" where
  "dollar n = CHR ''$'' # dec_nat n"

text \<open>The texts with exactly \<open>n\<close> plain placeholders.\<close>

definition plain_marks :: "nat \<Rightarrow> string \<Rightarrow> bool" where
  "plain_marks n s \<longleftrightarrow> (\<exists>ps. length ps = Suc n \<and> list_all no_mark ps \<and> list_all starts_plain (tl ps) \<and> s = filled question ps)"

lemma is_digit_question [simp]: "\<not> is_digit CHR ''?''" by (simp add: is_digit_def)

lemma rewrite_no_mark: "no_mark p \<Longrightarrow> rewrite_from n (p @ s) = p @ rewrite_from n s"
  by (induction p) (auto simp: no_mark_def)

lemma plain_takeWhile:
  assumes "starts_plain p" and "s = [] \<or> \<not> is_digit (hd s)"
  shows "takeWhile is_digit (p @ s) = []" and "dropWhile is_digit (p @ s) = p @ s"
  using assms by (cases p; cases s; simp add: starts_plain_def)+

lemma weave_head: "weave question n ps = [] \<or> \<not> is_digit (hd (weave question n ps))"
  by (cases ps) (simp_all add: question_def)

lemma rewrite_weave:
  "list_all no_mark ps \<Longrightarrow> list_all starts_plain ps \<Longrightarrow> rewrite_from n (weave question (Suc n) ps) = weave dollar (Suc n) ps"
proof (induction ps arbitrary: n)
  case (Cons p ps)
  have "question (Suc n) @ p @ weave question (Suc (Suc n)) ps = CHR ''?'' # p @ weave question (Suc (Suc n)) ps"
    by (simp add: question_def)
  with Cons show ?case
    using plain_takeWhile [OF _ weave_head, of p "Suc (Suc n)" ps] rewrite_no_mark [of p "Suc n"]
    by (simp add: dollar_def)
qed simp

lemma rewrite_filled:
  assumes "list_all no_mark ps" and "list_all starts_plain (tl ps)"
  shows "rewrite_placeholders (filled question ps) = filled dollar ps"
  using assms rewrite_weave [of "tl ps" 0]
  by (cases ps) (simp_all add: filled_def rewrite_placeholders_def rewrite_no_mark)

text \<open>Putting texts together.\<close>

lemma weave_append: "weave h n (ps @ qs) = weave h n ps @ weave h (n + length ps) qs"
  by (induction ps arbitrary: n) simp_all

lemma weave_question: "weave question n ps = weave question m ps"
  by (induction ps arbitrary: n m) (simp_all add: question_def)

lemma weave_last: "weave h n (ps @ [p]) @ s = weave h n (ps @ [p @ s])"
  by (simp add: weave_append)

lemma plain_marks_0: "no_mark s \<Longrightarrow> plain_marks 0 s"
  unfolding plain_marks_def by (intro exI [of _ "[s]"]) (simp add: filled_def)

lemma plain_marks_mark: "plain_marks 1 ''?''"
  unfolding plain_marks_def
  by (intro exI [of _ "[[], []]"]) (simp add: filled_def question_def no_mark_def starts_plain_def)

lemma starts_plain_append: "starts_plain p \<Longrightarrow> starts_plain s \<Longrightarrow> starts_plain (p @ s)"
  by (cases p) (simp_all add: starts_plain_def)

lemma filled_question: "filled question (p # qs) = p @ weave question 0 qs"
  using weave_question [of 1 qs 0] by (simp add: filled_def)

lemma plain_marks_append:
  assumes "plain_marks m s" and "plain_marks n t" and "starts_plain t"
  shows "plain_marks (m + n) (s @ t)"
proof -
  obtain ps where ps: "length ps = Suc m" "list_all no_mark ps" "list_all starts_plain (tl ps)" "s = filled question ps"
    using assms(1) by (auto simp: plain_marks_def)
  obtain q qs where qs: "length qs = n" "no_mark q" "list_all no_mark qs" "list_all starts_plain qs" "t = q @ weave question 0 qs"
    using assms(2) by (auto simp: plain_marks_def length_Suc_conv filled_question)
  from assms(3) qs(5) have q: "starts_plain q" by (cases q) (simp_all add: starts_plain_def)
  obtain as b where ab: "ps = as @ [b]" using ps(1) by (cases ps rule: rev_cases) auto
  let ?ps = "as @ [b @ q] @ qs"
  have "filled question ?ps = s @ t"
  proof (cases as)
    case Nil
    then show ?thesis using ps(4) qs(5) ab by (simp add: filled_question)
  next
    case (Cons a as')
    then show ?thesis using ps(4) qs(5) ab weave_question [of "Suc (length as')" qs 0]
      by (simp add: filled_question weave_append)
  qed
  moreover have "list_all no_mark ?ps" using ps(2) qs(2,3) ab by (auto simp: no_mark_def)
  moreover have "list_all starts_plain (tl ?ps)"
    using ps(3) qs(4) q ab by (cases as) (auto intro: starts_plain_append)
  moreover have "length ?ps = Suc (m + n)" using ps(1) qs(1) ab by simp
  ultimately show ?thesis unfolding plain_marks_def by metis
qed

lemma rewrite_plain_marks:
  assumes "plain_marks n s"
  shows "\<exists>ps. length ps = Suc n \<and> list_all no_mark ps \<and> s = filled question ps \<and> rewrite_placeholders s = filled dollar ps"
  using assms rewrite_filled by (auto simp: plain_marks_def)

end
