(* ===== verification/Paginate.thy ===== *)
theory Paginate
  imports Placeholders
begin

section \<open>Keyset pagination (\<open>internal/db/paginate.go\<close>)\<close>

text \<open>
  Every list endpoint builds its statement here: filters, a sort over columns whose values are
  unique together, and a cursor that names the last row seen. A statement is kept as its clauses
  with their rendering as text and bound arguments; what it selects is a function of the rows,
  read through \<open>col\<close> (the value of a column) and \<open>tr\<close> (the meaning of a trusted constant
  predicate). The base64 and JSON layer of a cursor is a parameter pair \<open>enc\<close>, \<open>dec\<close>.
\<close>

subsection \<open>Values and predicates\<close>

datatype col_kind = KindText | KindInt

datatype key_val = IntVal int | TextVal string

instantiation key_val :: linorder
begin

fun less_eq_key_val :: "key_val \<Rightarrow> key_val \<Rightarrow> bool" where
  "less_eq_key_val (IntVal a) (IntVal b) \<longleftrightarrow> a \<le> b"
| "less_eq_key_val (IntVal a) (TextVal t) \<longleftrightarrow> True"
| "less_eq_key_val (TextVal s) (IntVal b) \<longleftrightarrow> False"
| "less_eq_key_val (TextVal s) (TextVal t) \<longleftrightarrow> s \<le> t"

definition less_key_val :: "key_val \<Rightarrow> key_val \<Rightarrow> bool" where
  "less_key_val a b \<longleftrightarrow> a \<le> b \<and> \<not> b \<le> a"

instance
proof
  fix x y z :: key_val
  show "x \<le> x" by (cases x) simp_all
  show "x < y \<longleftrightarrow> x \<le> y \<and> \<not> y \<le> x" by (rule less_key_val_def)
  show "x \<le> y \<Longrightarrow> y \<le> z \<Longrightarrow> x \<le> z" by (cases x; cases y; cases z) auto
  show "x \<le> y \<Longrightarrow> y \<le> x \<Longrightarrow> x = y" by (cases x; cases y) auto
  show "x \<le> y \<or> y \<le> x" by (cases x; cases y) auto
qed

end

datatype pred =
    Trusted string
  | Compare string string key_val
  | Conj "pred list"
  | Disj "pred list"

fun join_with :: "string \<Rightarrow> string list \<Rightarrow> string" where
  "join_with sep [] = []"
| "join_with sep [s] = s"
| "join_with sep (s # t # ts) = s @ sep @ join_with sep (t # ts)"

fun pred_text :: "pred \<Rightarrow> string" where
  "pred_text (Trusted s) = s"
| "pred_text (Compare c op v) = c @ '' '' @ op @ '' ?''"
| "pred_text (Conj ps) = ''('' @ join_with '' AND '' (map pred_text ps) @ '')''"
| "pred_text (Disj ps) = ''('' @ join_with '' OR '' (map pred_text ps) @ '')''"

fun pred_args :: "pred \<Rightarrow> key_val list" where
  "pred_args (Trusted s) = []"
| "pred_args (Compare c op v) = [v]"
| "pred_args (Conj ps) = concat (map pred_args ps)"
| "pred_args (Disj ps) = concat (map pred_args ps)"

definition where_clause :: "pred list \<Rightarrow> string" where
  "where_clause conds = (if conds = [] then [] else '' WHERE '' @ join_with '' AND '' (map pred_text conds))"

text \<open>What a comparison and a predicate mean on a row.\<close>

definition compare_op :: "string \<Rightarrow> key_val \<Rightarrow> key_val \<Rightarrow> bool" where
  "compare_op op a b =
     (if op = ''='' then a = b
      else if op = ''>='' then b \<le> a
      else if op = ''>'' then b < a
      else if op = ''<'' then a < b
      else False)"

fun holds :: "(string \<Rightarrow> 'r \<Rightarrow> bool) \<Rightarrow> ('r \<Rightarrow> string \<Rightarrow> key_val) \<Rightarrow> 'r \<Rightarrow> pred \<Rightarrow> bool" where
  "holds tr col r (Trusted s) \<longleftrightarrow> tr s r"
| "holds tr col r (Compare c op v) \<longleftrightarrow> compare_op op (col r c) v"
| "holds tr col r (Conj ps) \<longleftrightarrow> (\<forall>p \<in> set ps. holds tr col r p)"
| "holds tr col r (Disj ps) \<longleftrightarrow> (\<exists>p \<in> set ps. holds tr col r p)"

subsection \<open>The policy and the request\<close>

record key_col =
  kc_col :: string
  kc_kind :: col_kind

type_synonym sort_mode = "key_col list"

record paginator =
  pg_table :: string
  pg_columns :: string
  pg_base_where :: string
  pg_sorts :: "(string \<times> sort_mode) list"
  pg_filter_cols :: "string list"
  pg_def_sort :: string
  pg_def_desc :: bool
  pg_def_limit :: int
  pg_max_limit :: int

record page_req =
  pr_sort :: string
  pr_desc :: "bool option"
  pr_limit :: int
  pr_after :: string
  pr_before :: string

datatype page_error =
    NotFilterColumn string
  | UnknownSort string
  | InvalidCursor
  | OtherSortCursor
  | CursorLength nat nat

record list_query =
  lq_pg :: paginator
  lq_req :: page_req
  lq_conds :: "pred list"
  lq_err :: "page_error option"

definition allows_filter :: "paginator \<Rightarrow> string \<Rightarrow> bool" where
  "allows_filter pg c \<longleftrightarrow> c \<in> set (pg_filter_cols pg)"

definition query :: "paginator \<Rightarrow> page_req \<Rightarrow> list_query" where
  "query pg req = \<lparr>lq_pg = pg, lq_req = req, lq_conds = [], lq_err = None\<rparr>"

definition cond :: "string \<Rightarrow> string \<Rightarrow> key_val \<Rightarrow> list_query \<Rightarrow> list_query" where
  "cond c op v q =
     (if lq_err q \<noteq> None then q
      else if \<not> allows_filter (lq_pg q) c then q\<lparr>lq_err := Some (NotFilterColumn c)\<rparr>
      else q\<lparr>lq_conds := lq_conds q @ [Compare c op v]\<rparr>)"

definition eq :: "string \<Rightarrow> key_val \<Rightarrow> list_query \<Rightarrow> list_query" where
  "eq c v q = cond c ''='' v q"

definition eq_if :: "string \<Rightarrow> key_val \<Rightarrow> bool \<Rightarrow> list_query \<Rightarrow> list_query" where
  "eq_if c v incl q = (if incl then cond c ''='' v q else q)"

definition gte :: "string \<Rightarrow> key_val \<Rightarrow> list_query \<Rightarrow> list_query" where
  "gte c v q = cond c ''>='' v q"

definition gte_if :: "string \<Rightarrow> key_val \<Rightarrow> bool \<Rightarrow> list_query \<Rightarrow> list_query" where
  "gte_if c v incl q = (if incl then cond c ''>='' v q else q)"

subsection \<open>Cursors\<close>

datatype token_val = NumText string | StrVal string | OtherJson

record cursor_token =
  ct_sort :: string
  ct_desc :: bool
  ct_vals :: "token_val list"

definition token_of :: "key_val \<Rightarrow> token_val" where
  "token_of v = (case v of IntVal n \<Rightarrow> NumText (dec_int n) | TextVal s \<Rightarrow> StrVal s)"

definition encode_cursor ::
  "(cursor_token \<Rightarrow> string) \<Rightarrow> string \<Rightarrow> bool \<Rightarrow> sort_mode \<Rightarrow> key_val list \<Rightarrow> page_error + string" where
  "encode_cursor enc srt desc mode vals =
     (if length vals \<noteq> length mode then Inl (CursorLength (length vals) (length mode))
      else Inr (enc \<lparr>ct_sort = srt, ct_desc = desc, ct_vals = map token_of vals\<rparr>))"

definition coerce :: "key_col \<Rightarrow> token_val \<Rightarrow> page_error + key_val" where
  "coerce kc t =
     (case kc_kind kc of
        KindInt \<Rightarrow>
          (case t of
             NumText s \<Rightarrow> (case parse_int64 s of None \<Rightarrow> Inl InvalidCursor | Some n \<Rightarrow> Inr (IntVal n))
           | _ \<Rightarrow> Inl InvalidCursor)
      | KindText \<Rightarrow> (case t of StrVal s \<Rightarrow> Inr (TextVal s) | _ \<Rightarrow> Inl InvalidCursor))"

definition decode_cursor ::
  "(string \<Rightarrow> cursor_token option) \<Rightarrow> string \<Rightarrow> string \<Rightarrow> bool \<Rightarrow> sort_mode \<Rightarrow> page_error + key_val list" where
  "decode_cursor dec tok srt desc mode =
     (case dec tok of
        None \<Rightarrow> Inl InvalidCursor
      | Some c \<Rightarrow>
          if ct_sort c \<noteq> srt \<or> ct_desc c \<noteq> desc then Inl OtherSortCursor
          else if length (ct_vals c) \<noteq> length mode then Inl InvalidCursor
          else traverse (\<lambda>(kc, t). coerce kc t) (zip mode (ct_vals c)))"

subsection \<open>Building the statements\<close>

definition keyset_predicate :: "sort_mode \<Rightarrow> string \<Rightarrow> key_val list \<Rightarrow> pred" where
  "keyset_predicate mode cmp vals =
     Disj (map (\<lambda>i. Conj (map (\<lambda>j. Compare (kc_col (mode ! j)) ''='' (vals ! j)) [0..<i]
                          @ [Compare (kc_col (mode ! i)) cmp (vals ! i)])) [0..<length mode])"

record built =
  b_prefix :: string
  b_prefix_args :: "key_val list"
  b_where :: "pred list"
  b_dir :: string
  b_count_inner :: string
  b_count_conds :: "pred list"
  b_mode :: sort_mode
  b_sort :: string
  b_desc :: bool
  b_limit :: int
  b_backward :: bool

definition page_sql :: "built \<Rightarrow> string" where
  "page_sql b = b_prefix b @ where_clause (b_where b) @ '' ORDER BY ''
     @ join_with '', '' (map (\<lambda>kc. kc_col kc @ '' '' @ b_dir b) (b_mode b)) @ '' LIMIT ?''"

definition page_args :: "built \<Rightarrow> key_val list" where
  "page_args b = b_prefix_args b @ concat (map pred_args (b_where b)) @ [IntVal (b_limit b)]"

definition effective_limit :: "paginator \<Rightarrow> int \<Rightarrow> int" where
  "effective_limit pg l =
     (let l1 = (if l \<le> 0 then pg_def_limit pg else l) in if l1 > pg_max_limit pg then pg_max_limit pg else l1)"

definition effective_sort :: "list_query \<Rightarrow> string" where
  "effective_sort q = (if pr_sort (lq_req q) = [] then pg_def_sort (lq_pg q) else pr_sort (lq_req q))"

definition effective_desc :: "list_query \<Rightarrow> bool" where
  "effective_desc q = (case pr_desc (lq_req q) of None \<Rightarrow> pg_def_desc (lq_pg q) | Some d \<Rightarrow> d)"

definition shared_conds :: "list_query \<Rightarrow> pred list" where
  "shared_conds q =
     (if pg_base_where (lq_pg q) = [] then [] else [Trusted (pg_base_where (lq_pg q))]) @ lq_conds q"

definition cursor_conds ::
  "(string \<Rightarrow> cursor_token option) \<Rightarrow> list_query \<Rightarrow> sort_mode \<Rightarrow> bool \<Rightarrow> string \<Rightarrow> page_error + pred list" where
  "cursor_conds dec q mode asc tok =
     (if tok = [] then Inr []
      else and_then (decode_cursor dec tok (effective_sort q) (effective_desc q) mode) (\<lambda>vals.
             Inr [keyset_predicate mode (if asc then ''>'' else ''<'') vals]))"

definition build_source ::
  "(string \<Rightarrow> cursor_token option) \<Rightarrow> string \<Rightarrow> string \<Rightarrow> key_val list \<Rightarrow> list_query \<Rightarrow> page_error + built" where
  "build_source dec prefix count_inner prefix_args q =
     (case lq_err q of
        Some e \<Rightarrow> Inl e
      | None \<Rightarrow>
         (case map_of (pg_sorts (lq_pg q)) (effective_sort q) of
            None \<Rightarrow> Inl (UnknownSort (pr_sort (lq_req q)))
          | Some mode \<Rightarrow>
             (let backward = (pr_before (lq_req q) \<noteq> []);
                  tok = (if backward then pr_before (lq_req q) else pr_after (lq_req q));
                  asc = (if backward then effective_desc q else \<not> effective_desc q)
              in and_then (cursor_conds dec q mode asc tok) (\<lambda>pred.
                   Inr \<lparr>b_prefix = prefix, b_prefix_args = prefix_args, b_where = shared_conds q @ pred,
                     b_dir = (if asc then ''ASC'' else ''DESC''), b_count_inner = count_inner,
                     b_count_conds = shared_conds q, b_mode = mode, b_sort = effective_sort q,
                     b_desc = effective_desc q, b_limit = effective_limit (lq_pg q) (pr_limit (lq_req q)),
                     b_backward = backward\<rparr>))))"

definition build :: "(string \<Rightarrow> cursor_token option) \<Rightarrow> list_query \<Rightarrow> page_error + built" where
  "build dec q = build_source dec
     (''SELECT '' @ pg_columns (lq_pg q) @ '' FROM '' @ pg_table (lq_pg q))
     (''SELECT 1 FROM '' @ pg_table (lq_pg q)) [] q"

text \<open>The counts of the rows before and behind a page, each at most one more than the cap.\<close>

definition page_count_cap :: nat where "page_count_cap = 1000"

definition count_side_sql :: "built \<Rightarrow> key_val list \<Rightarrow> string \<Rightarrow> string \<times> key_val list" where
  "count_side_sql b vals cmp =
     (if vals = [] then (''0'', [])
      else (let p = keyset_predicate (b_mode b) cmp vals in
        (''(SELECT COUNT(*) FROM ('' @ b_count_inner b @ where_clause (b_count_conds b @ [p])
           @ '' LIMIT '' @ dec_nat (Suc page_count_cap) @ '') c)'',
         b_prefix_args b @ concat (map pred_args (b_count_conds b)) @ pred_args p)))"

definition before_cmp :: "built \<Rightarrow> string" where
  "before_cmp b = (if b_desc b then ''>'' else ''<'')"

definition after_cmp :: "built \<Rightarrow> string" where
  "after_cmp b = (if b_desc b then ''<'' else ''>'')"

definition count_sql :: "built \<Rightarrow> key_val list \<Rightarrow> key_val list \<Rightarrow> string \<times> key_val list" where
  "count_sql b lo hi =
     (let bs = count_side_sql b lo (before_cmp b); as = count_side_sql b hi (after_cmp b)
      in (''SELECT '' @ fst bs @ '', '' @ fst as, snd bs @ snd as))"

subsection \<open>Running them\<close>

definition row_key :: "('r \<Rightarrow> string \<Rightarrow> key_val) \<Rightarrow> sort_mode \<Rightarrow> 'r \<Rightarrow> key_val list" where
  "row_key col mode r = map (\<lambda>kc. col r (kc_col kc)) mode"

text \<open>\<open>WHERE\<close>, then \<open>ORDER BY\<close> in one direction, then \<open>LIMIT\<close>.\<close>

definition run_page :: "(string \<Rightarrow> 'r \<Rightarrow> bool) \<Rightarrow> ('r \<Rightarrow> string \<Rightarrow> key_val) \<Rightarrow> built \<Rightarrow> 'r list \<Rightarrow> 'r list" where
  "run_page tr col b rows =
     take (nat (b_limit b))
       ((if b_dir b = ''ASC'' then id else rev)
         (sort_key (row_key col (b_mode b)) (filter (\<lambda>r. \<forall>p \<in> set (b_where b). holds tr col r p) rows)))"

definition count_side ::
  "(string \<Rightarrow> 'r \<Rightarrow> bool) \<Rightarrow> ('r \<Rightarrow> string \<Rightarrow> key_val) \<Rightarrow> built \<Rightarrow> 'r list \<Rightarrow> key_val list \<Rightarrow> string \<Rightarrow> nat" where
  "count_side tr col b rows vals cmp =
     (if vals = [] then 0
      else length (take (Suc page_count_cap) (filter (\<lambda>r. \<forall>p \<in> set (b_count_conds b @ [keyset_predicate (b_mode b) cmp vals]).
             holds tr col r p) rows)))"

definition orient ::
  "(string \<Rightarrow> 'r \<Rightarrow> key_val list) \<Rightarrow> built \<Rightarrow> 'r list \<Rightarrow> 'r list \<times> key_val list \<times> key_val list" where
  "orient vals_of b rows =
     (let items = (if b_backward b then rev rows else rows) in
      if items = [] then (items, [], [])
      else (items, vals_of (b_sort b) (hd items), vals_of (b_sort b) (last items)))"

record page_info =
  pi_size :: int
  pi_items_before :: nat
  pi_items_after :: nat
  pi_sort :: string
  pi_order :: string
  pi_after :: string
  pi_before :: string

definition page_info_of ::
  "(cursor_token \<Rightarrow> string) \<Rightarrow> (string \<Rightarrow> 'r \<Rightarrow> bool) \<Rightarrow> ('r \<Rightarrow> string \<Rightarrow> key_val) \<Rightarrow> built \<Rightarrow> 'r list \<Rightarrow>
     key_val list \<Rightarrow> key_val list \<Rightarrow> page_error + page_info" where
  "page_info_of enc tr col b rows lo hi =
     (let before = count_side tr col b rows lo (before_cmp b);
          after = count_side tr col b rows hi (after_cmp b) in
      and_then (if before > 0 then encode_cursor enc (b_sort b) (b_desc b) (b_mode b) lo else Inr []) (\<lambda>bc.
        and_then (if after > 0 then encode_cursor enc (b_sort b) (b_desc b) (b_mode b) hi else Inr []) (\<lambda>ac.
          Inr \<lparr>pi_size = b_limit b, pi_items_before = before, pi_items_after = after, pi_sort = b_sort b,
               pi_order = (if b_desc b then ''desc'' else ''asc''), pi_after = ac, pi_before = bc\<rparr>)))"

text \<open>What every listing does with its query: run it, restore the display order, count.\<close>

definition list_page ::
  "(cursor_token \<Rightarrow> string) \<Rightarrow> (string \<Rightarrow> 'r \<Rightarrow> bool) \<Rightarrow> ('r \<Rightarrow> string \<Rightarrow> key_val) \<Rightarrow> (string \<Rightarrow> 'r \<Rightarrow> key_val list) \<Rightarrow>
     built \<Rightarrow> 'r list \<Rightarrow> page_error + ('r list \<times> page_info)" where
  "list_page enc tr col vals_of b rows =
     (let (items, lo, hi) = orient vals_of b (run_page tr col b rows) in
      and_then (page_info_of enc tr col b rows lo hi) (\<lambda>info. Inr (items, info)))"

end
