(* ===== verification/Pages.thy ===== *)
theory Pages
  imports Paginate "HOL-Library.Multiset"
begin

section \<open>Every row on exactly one page\<close>

text \<open>
  The display order of a listing is the sort of the matching rows by their key. A page is an
  interval of it; the cursor of a row selects exactly the rows behind it (or before it), so
  following cursors walks the intervals one after the other, in both directions. The locale says
  what a listing must provide: keys that are unique, of the kinds declared, and read off a row by
  \<open>vals_of\<close> as the sort declares its columns.
\<close>

subsection \<open>Intervals of a strictly ordered list\<close>

lemma filter_ahead:
  assumes "sorted_wrt R xs" and "k < length xs" and "\<And>x. \<not> R x x" and "\<And>x y. R x y \<Longrightarrow> \<not> R y x"
  shows "filter (R (xs ! k)) xs = drop (Suc k) xs" and "filter (\<lambda>x. R x (xs ! k)) xs = take k xs"
proof -
  let ?x = "xs ! k"
  have xs: "xs = take k xs @ ?x # drop (Suc k) xs" using assms(2) by (rule id_take_nth_drop)
  then have s: "sorted_wrt R (take k xs @ ?x # drop (Suc k) xs)" using assms(1) by simp
  then have l: "\<And>y. y \<in> set (take k xs) \<Longrightarrow> R y ?x" and r: "\<And>y. y \<in> set (drop (Suc k) xs) \<Longrightarrow> R ?x y"
    by (auto simp: sorted_wrt_append)
  have "filter (R ?x) (take k xs @ ?x # drop (Suc k) xs) = drop (Suc k) xs"
    using l r assms(3,4) by (auto simp: filter_empty_conv filter_id_conv)
  with xs show "filter (R ?x) xs = drop (Suc k) xs" by simp
  have "filter (\<lambda>x. R x ?x) (take k xs @ ?x # drop (Suc k) xs) = take k xs"
    using l r assms(3,4) by (auto simp: filter_empty_conv filter_id_conv)
  with xs show "filter (\<lambda>x. R x ?x) xs = take k xs" by simp
qed

lemma sorted_key_strict:
  assumes "distinct (map f xs)"
  shows "sorted_wrt (\<lambda>a b. f a < f b) (sort_key f xs)"
proof -
  have "mset (map f (sort_key f xs)) = mset (map f xs)" by simp
  with assms have "distinct (map f (sort_key f xs))" using mset_eq_imp_distinct_iff by blast
  then have "sorted_wrt (<) (map f (sort_key f xs))" by (simp add: strict_sorted_iff)
  then show ?thesis by (simp add: sorted_wrt_map)
qed

subsection \<open>The key predicate is the lexicographic order\<close>

lemma less_list_index:
  fixes xs ys :: "'a::linorder list"
  assumes "length xs = length ys"
  shows "xs < ys \<longleftrightarrow> (\<exists>i < length xs. (\<forall>j < i. xs ! j = ys ! j) \<and> xs ! i < ys ! i)"
proof -
  have "take i xs = take i ys \<longleftrightarrow> (\<forall>j < i. xs ! j = ys ! j)" if "i < length xs" for i
    using that assms by (auto simp: list_eq_iff_nth_eq)
  with assms show ?thesis by (auto simp: list_less_def lexord_take_index_conv)
qed

lemma compare_op_simps [simp]:
  "compare_op ''='' a b \<longleftrightarrow> a = b" "compare_op ''>'' a b \<longleftrightarrow> b < a" "compare_op ''<'' a b \<longleftrightarrow> a < b"
  "compare_op ''>='' a b \<longleftrightarrow> b \<le> a"
  by (simp_all add: compare_op_def)

lemma keyset_holds:
  assumes "length vals = length mode"
  shows "holds tr col r (keyset_predicate mode op vals)
    \<longleftrightarrow> (\<exists>i < length mode. (\<forall>j < i. row_key col mode r ! j = vals ! j) \<and> compare_op op (row_key col mode r ! i) (vals ! i))"
  by (auto simp: keyset_predicate_def row_key_def)

lemma length_row_key [simp]: "length (row_key col mode r) = length mode"
  by (simp add: row_key_def)

lemma keyset_greater:
  "length vals = length mode \<Longrightarrow> holds tr col r (keyset_predicate mode ''>'' vals) \<longleftrightarrow> vals < row_key col mode r"
  unfolding keyset_holds by (subst less_list_index) auto

lemma keyset_less:
  "length vals = length mode \<Longrightarrow> holds tr col r (keyset_predicate mode ''<'' vals) \<longleftrightarrow> row_key col mode r < vals"
  unfolding keyset_holds by (subst less_list_index) auto

subsection \<open>The display order\<close>

definition matching :: "(string \<Rightarrow> 'r \<Rightarrow> bool) \<Rightarrow> ('r \<Rightarrow> string \<Rightarrow> key_val) \<Rightarrow> list_query \<Rightarrow> 'r list \<Rightarrow> 'r list" where
  "matching tr col q rows = filter (\<lambda>r. \<forall>p \<in> set (shared_conds q). holds tr col r p) rows"

definition display ::
  "(string \<Rightarrow> 'r \<Rightarrow> bool) \<Rightarrow> ('r \<Rightarrow> string \<Rightarrow> key_val) \<Rightarrow> list_query \<Rightarrow> sort_mode \<Rightarrow> 'r list \<Rightarrow> 'r list" where
  "display tr col q mode rows =
     (if effective_desc q then rev else id) (sort_key (row_key col mode) (matching tr col q rows))"

definition key_before :: "bool \<Rightarrow> key_val list \<Rightarrow> key_val list \<Rightarrow> bool" where
  "key_before desc a b \<longleftrightarrow> (if desc then b < a else a < b)"

lemma key_before_order: "\<not> key_before d a a" "key_before d a b \<Longrightarrow> \<not> key_before d b a"
  by (auto simp: key_before_def)

lemma mset_display: "mset (display tr col q mode rows) = mset (matching tr col q rows)"
  by (simp add: display_def)

lemma display_ordered:
  assumes "distinct (map (row_key col mode) rows)"
  shows "sorted_wrt (\<lambda>a b. key_before (effective_desc q) (row_key col mode a) (row_key col mode b)) (display tr col q mode rows)"
proof -
  have "distinct (map (row_key col mode) (matching tr col q rows))"
    using assms by (simp add: matching_def distinct_map_filter)
  from sorted_key_strict [OF this] show ?thesis
    by (simp add: display_def key_before_def sorted_wrt_rev)
qed

lemma display_interval:
  fixes rows :: "'r list"
  assumes "distinct (map (row_key col mode) rows)" and "k < length (display tr col q mode rows)"
  defines "D \<equiv> display tr col q mode rows"
  shows "filter (\<lambda>r. key_before (effective_desc q) (row_key col mode (D ! k)) (row_key col mode r)) D = drop (Suc k) D"
    and "filter (\<lambda>r. key_before (effective_desc q) (row_key col mode r) (row_key col mode (D ! k))) D = take k D"
  using filter_ahead [OF display_ordered [OF assms(1)] assms(2)] key_before_order unfolding D_def by blast+

text \<open>Which comparison a statement uses.\<close>

lemma holds_after:
  "length vals = length mode \<Longrightarrow> holds tr col r (keyset_predicate mode (if d then ''<'' else ''>'') vals)
     \<longleftrightarrow> key_before d vals (row_key col mode r)"
  by (simp add: keyset_greater keyset_less key_before_def)

lemma holds_before:
  "length vals = length mode \<Longrightarrow> holds tr col r (keyset_predicate mode (if d then ''>'' else ''<'') vals)
     \<longleftrightarrow> key_before d (row_key col mode r) vals"
  by (simp add: keyset_greater keyset_less key_before_def)

subsection \<open>Cursors come back\<close>

definition cursor_of :: "('r \<Rightarrow> string \<Rightarrow> key_val) \<Rightarrow> list_query \<Rightarrow> sort_mode \<Rightarrow> 'r \<Rightarrow> cursor_token" where
  "cursor_of col q mode r = \<lparr>ct_sort = effective_sort q, ct_desc = effective_desc q, ct_vals = map token_of (row_key col mode r)\<rparr>"

definition codec_ok :: "(cursor_token \<Rightarrow> string) \<Rightarrow> (string \<Rightarrow> cursor_token option) \<Rightarrow> cursor_token \<Rightarrow> bool" where
  "codec_ok enc dec t \<longleftrightarrow> enc t \<noteq> [] \<and> dec (enc t) = Some t"

definition well_kinded :: "col_kind \<Rightarrow> key_val \<Rightarrow> bool" where
  "well_kinded k v \<longleftrightarrow> (case v of IntVal n \<Rightarrow> k = KindInt \<and> - (2 ^ 63) \<le> n \<and> n < 2 ^ 63 | TextVal s \<Rightarrow> k = KindText)"

lemma parse_int64_dec_int:
  assumes "- (2 ^ 63) \<le> n" and "n < 2 ^ 63"
  shows "parse_int64 (dec_int n) = Some n"
proof (cases "n < 0")
  case True
  with assms(1) show ?thesis
    by (simp add: dec_int_def parse_int64_def Let_def parse_digits_dec_nat)
next
  case False
  then have "dec_int n = dec_nat (nat n)" by (simp add: dec_int_def)
  with assms(2) False show ?thesis by (simp add: parse_int64_dec_nat)
qed

lemma coerce_token: "well_kinded (kc_kind kc) v \<Longrightarrow> coerce kc (token_of v) = Inr v"
  by (auto simp: well_kinded_def coerce_def token_of_def parse_int64_dec_int split: key_val.splits)

lemma traverse_coerce:
  "list_all2 (\<lambda>kc v. well_kinded (kc_kind kc) v) mode vs \<Longrightarrow>
   traverse (\<lambda>(kc, t). coerce kc t) (zip mode (map token_of vs)) = Inr vs"
  by (induction rule: list_all2_induct) (simp_all add: coerce_token)

lemma decode_cursor_of:
  assumes "codec_ok enc dec (cursor_of col q mode r)" and "\<And>kc. kc \<in> set mode \<Longrightarrow> well_kinded (kc_kind kc) (col r (kc_col kc))"
  shows "decode_cursor dec (enc (cursor_of col q mode r)) (effective_sort q) (effective_desc q) mode = Inr (row_key col mode r)"
proof -
  have "list_all2 (\<lambda>kc v. well_kinded (kc_kind kc) v) mode (row_key col mode r)"
    using assms(2) by (simp add: row_key_def list_all2_conv_all_nth)
  from traverse_coerce [OF this] assms(1) show ?thesis
    by (simp add: decode_cursor_def codec_ok_def cursor_of_def)
qed

lemma encode_cursor_of:
  "encode_cursor enc (effective_sort q) (effective_desc q) mode (row_key col mode r) = Inr (enc (cursor_of col q mode r))"
  by (simp add: encode_cursor_def cursor_of_def)

subsection \<open>What a plan selects\<close>

definition plan ::
  "string \<Rightarrow> string \<Rightarrow> key_val list \<Rightarrow> list_query \<Rightarrow> sort_mode \<Rightarrow> pred list \<Rightarrow> bool \<Rightarrow> built" where
  "plan prefix inner pargs q mode preds backward =
     \<lparr>b_prefix = prefix, b_prefix_args = pargs, b_where = shared_conds q @ preds,
      b_dir = (if backward = effective_desc q then ''ASC'' else ''DESC''), b_count_inner = inner,
      b_count_conds = shared_conds q, b_mode = mode, b_sort = effective_sort q, b_desc = effective_desc q,
      b_limit = effective_limit (lq_pg q) (pr_limit (lq_req q)), b_backward = backward\<rparr>"

lemma plan_simps:
  "b_sort (plan prefix inner pargs q mode preds backward) = effective_sort q"
  "b_desc (plan prefix inner pargs q mode preds backward) = effective_desc q"
  "b_mode (plan prefix inner pargs q mode preds backward) = mode"
  "b_limit (plan prefix inner pargs q mode preds backward) = effective_limit (lq_pg q) (pr_limit (lq_req q))"
  by (simp_all add: plan_def)

definition page_size :: "list_query \<Rightarrow> nat" where
  "page_size q = nat (effective_limit (lq_pg q) (pr_limit (lq_req q)))"

lemma run_page_plan:
  "run_page tr col (plan prefix inner pargs q mode preds backward) rows
    = take (page_size q) ((if backward then rev else id)
        (filter (\<lambda>r. \<forall>p \<in> set preds. holds tr col r p) (display tr col q mode rows)))"
proof -
  have "filter (\<lambda>r. \<forall>p \<in> set (shared_conds q @ preds). holds tr col r p) rows
      = filter (\<lambda>r. \<forall>p \<in> set preds. holds tr col r p) (matching tr col q rows)"
    by (simp add: matching_def ball_Un conj_commute)
  then show ?thesis
    by (cases backward; cases "effective_desc q")
      (simp_all add: run_page_def plan_def page_size_def display_def filter_sort [symmetric] rev_filter)
qed

lemma count_side_plan:
  assumes "vals \<noteq> []"
  shows "count_side tr col (plan prefix inner pargs q mode preds backward) rows vals op
    = min (Suc page_count_cap) (length (filter (\<lambda>r. holds tr col r (keyset_predicate mode op vals)) (display tr col q mode rows)))"
proof -
  let ?P = "\<lambda>r. holds tr col r (keyset_predicate mode op vals)"
  have "filter (\<lambda>r. \<forall>p \<in> set (shared_conds q @ [keyset_predicate mode op vals]). holds tr col r p) rows = filter ?P (matching tr col q rows)"
    by (simp add: matching_def ball_Un conj_commute)
  moreover have "length (filter ?P (matching tr col q rows)) = length (filter ?P (display tr col q mode rows))"
    by (metis mset_display mset_filter size_mset)
  ultimately show ?thesis using assms by (simp add: count_side_def plan_def)
qed

text \<open>The information of a page that is the interval from \<open>a\<close> of length \<open>n\<close> of the display order.\<close>

definition info_at ::
  "(cursor_token \<Rightarrow> string) \<Rightarrow> ('r \<Rightarrow> string \<Rightarrow> key_val) \<Rightarrow> list_query \<Rightarrow> sort_mode \<Rightarrow> 'r list \<Rightarrow> nat \<Rightarrow> nat \<Rightarrow> page_info" where
  "info_at enc col q mode D a n =
     \<lparr>pi_size = effective_limit (lq_pg q) (pr_limit (lq_req q)),
      pi_items_before = (if n = 0 then 0 else min (Suc page_count_cap) a),
      pi_items_after = (if n = 0 then 0 else min (Suc page_count_cap) (length D - (a + n))),
      pi_sort = effective_sort q, pi_order = (if effective_desc q then ''desc'' else ''asc''),
      pi_after = (if n = 0 \<or> length D \<le> a + n then [] else enc (cursor_of col q mode (D ! (a + n - 1)))),
      pi_before = (if n = 0 \<or> a = 0 then [] else enc (cursor_of col q mode (D ! a)))\<rparr>"

lemma list_page_plan:
  fixes rows :: "'r list"
  assumes D: "D = display tr col q mode rows" and "distinct (map (row_key col mode) rows)" and "\<And>r. vals_of (effective_sort q) r = row_key col mode r" and "mode \<noteq> []"
      and "(if backward then rev else id) (run_page tr col (plan prefix inner pargs q mode preds backward) rows) = take n (drop a D)"
      and "a + n \<le> length D"
  shows "list_page enc tr col vals_of (plan prefix inner pargs q mode preds backward) rows = Inr (take n (drop a D), info_at enc col q mode D a n)"
proof (cases "n = 0")
  case True
  with assms(5) show ?thesis
    by (cases backward)
      (simp_all add: list_page_def orient_def page_info_of_def count_side_def info_at_def plan_def)
next
  case False
  let ?b = "plan prefix inner pargs q mode preds backward" and ?items = "take n (drop a D)"
  have len: "length ?items = n" using assms(6) by simp
  with False have ne: "?items \<noteq> []" by auto
  have hd: "hd ?items = D ! a" using ne assms(6) False by (simp add: hd_conv_nth)
  have la: "last ?items = D ! (a + n - 1)" using ne assms(6) False by (simp add: last_conv_nth)
  have k: "row_key col mode r \<noteq> []" for r using assms(4) by (simp add: row_key_def)
  have orient: "orient vals_of ?b (run_page tr col ?b rows) = (?items, row_key col mode (D ! a), row_key col mode (D ! (a + n - 1)))"
    using assms(3,5) ne hd la by (cases backward) (simp_all add: orient_def plan_def)
  have "a < length D" "a + n - 1 < length D" using assms(6) False by simp_all
  note int = display_interval [OF assms(2), of _ tr q, folded D]
  have cmp: "before_cmp ?b = (if effective_desc q then ''>'' else ''<'')" "after_cmp ?b = (if effective_desc q then ''<'' else ''>'')"
    by (simp_all add: before_cmp_def after_cmp_def plan_def)
  have before: "count_side tr col ?b rows (row_key col mode (D ! a)) (before_cmp ?b) = min (Suc page_count_cap) a"
    unfolding cmp count_side_plan [OF k] holds_before [OF length_row_key] D [symmetric] int(2) [OF \<open>a < length D\<close>]
    using \<open>a < length D\<close> by simp
  have after: "count_side tr col ?b rows (row_key col mode (D ! (a + n - 1))) (after_cmp ?b) = min (Suc page_count_cap) (length D - (a + n))"
    unfolding cmp count_side_plan [OF k] holds_after [OF length_row_key] D [symmetric] int(1) [OF \<open>a + n - 1 < length D\<close>]
    using False by simp
  have "page_info_of enc tr col ?b rows (row_key col mode (D ! a)) (row_key col mode (D ! (a + n - 1))) = Inr (info_at enc col q mode D a n)"
    unfolding page_info_of_def Let_def before after plan_simps encode_cursor_of
    using False by (simp add: info_at_def page_count_cap_def)
  then show ?thesis by (simp add: list_page_def orient)
qed

subsection \<open>Following the cursors\<close>

text \<open>A client that asks for the first page and then for the page behind each \<open>after\<close> cursor.\<close>

fun follow :: "nat \<Rightarrow> (string \<Rightarrow> page_error + ('r list \<times> page_info)) \<Rightarrow> string \<Rightarrow> page_error + 'r list list" where
  "follow 0 fetch tok = Inr []"
| "follow (Suc n) fetch tok =
     and_then (fetch tok) (\<lambda>(items, info).
       if pi_after info = [] then Inr [items]
       else and_then (follow n fetch (pi_after info)) (\<lambda>ps. Inr (items # ps)))"

definition asking_after :: "list_query \<Rightarrow> string \<Rightarrow> list_query" where
  "asking_after q tok = q\<lparr>lq_req := (lq_req q)\<lparr>pr_after := tok, pr_before := []\<rparr>\<rparr>"

lemma asking_after_simps [simp]:
  "effective_sort (asking_after q tok) = effective_sort q" "effective_desc (asking_after q tok) = effective_desc q"
  "shared_conds (asking_after q tok) = shared_conds q" "page_size (asking_after q tok) = page_size q"
  "lq_pg (asking_after q tok) = lq_pg q" "lq_err (asking_after q tok) = lq_err q"
  "pr_limit (lq_req (asking_after q tok)) = pr_limit (lq_req q)"
  "pr_after (lq_req (asking_after q tok)) = tok" "pr_before (lq_req (asking_after q tok)) = []"
  by (simp_all add: asking_after_def effective_sort_def effective_desc_def shared_conds_def page_size_def
      split: option.splits)

lemma asking_after_derived [simp]:
  "cursor_of col (asking_after q tok) mode = cursor_of col q mode"
  "display tr col (asking_after q tok) mode rows = display tr col q mode rows"
  "info_at enc col (asking_after q tok) mode D a n = info_at enc col q mode D a n"
  by (simp_all add: cursor_of_def display_def matching_def info_at_def fun_eq_iff)

subsection \<open>The contract of a listing\<close>

locale listing =
  fixes pg :: paginator
    and tr :: "string \<Rightarrow> 'r \<Rightarrow> bool"
    and col :: "'r \<Rightarrow> string \<Rightarrow> key_val"
    and vals_of :: "string \<Rightarrow> 'r \<Rightarrow> key_val list"
    and table_ok :: "'r list \<Rightarrow> bool"
  assumes reads_key: "map_of (pg_sorts pg) s = Some mode \<Longrightarrow> mode \<noteq> [] \<and> vals_of s r = row_key col mode r"
    and kinds: "map_of (pg_sorts pg) s = Some mode \<Longrightarrow> table_ok rows \<Longrightarrow> r \<in> set rows \<Longrightarrow> kc \<in> set mode
        \<Longrightarrow> well_kinded (kc_kind kc) (col r (kc_col kc))"
    and unique: "map_of (pg_sorts pg) s = Some mode \<Longrightarrow> table_ok rows \<Longrightarrow> distinct (map (row_key col mode) rows)"
    and limits: "0 < pg_def_limit pg" "0 < pg_max_limit pg"
begin

text \<open>A query on this listing with a known sort, over a good table, with a faithful codec.\<close>

definition asks :: "(cursor_token \<Rightarrow> string) \<Rightarrow> (string \<Rightarrow> cursor_token option) \<Rightarrow> list_query \<Rightarrow> sort_mode \<Rightarrow> 'r list \<Rightarrow> bool" where
  "asks enc dec q mode rows \<longleftrightarrow> lq_pg q = pg \<and> lq_err q = None \<and> map_of (pg_sorts pg) (effective_sort q) = Some mode
     \<and> table_ok rows \<and> (\<forall>r \<in> set rows. codec_ok enc dec (cursor_of col q mode r))"

lemma size_pos: "lq_pg q = pg \<Longrightarrow> 0 < page_size q"
  using limits by (auto simp: page_size_def effective_limit_def Let_def)

text \<open>What a request gets: the first page, the page behind a row, the page before a row.\<close>

lemma built_first:
  assumes "asks enc dec q mode rows" and "pr_after (lq_req q) = []" and "pr_before (lq_req q) = []"
  shows "build_source dec prefix inner pargs q = Inr (plan prefix inner pargs q mode [] False)"
  using assms by (simp add: asks_def build_source_def cursor_conds_def plan_def Let_def)

lemma decoded_cursor:
  assumes "asks enc dec q mode rows" and "r \<in> set rows"
  shows "enc (cursor_of col q mode r) \<noteq> []"
    and "decode_cursor dec (enc (cursor_of col q mode r)) (effective_sort q) (effective_desc q) mode = Inr (row_key col mode r)"
proof -
  from assms have codec: "codec_ok enc dec (cursor_of col q mode r)" by (auto simp: asks_def)
  then show "enc (cursor_of col q mode r) \<noteq> []" by (simp add: codec_ok_def)
  show "decode_cursor dec (enc (cursor_of col q mode r)) (effective_sort q) (effective_desc q) mode = Inr (row_key col mode r)"
    by (rule decode_cursor_of [OF codec]) (use assms kinds in \<open>auto simp: asks_def\<close>)
qed

lemma built_after:
  assumes "asks enc dec q mode rows" and "r \<in> set rows"
      and "pr_after (lq_req q) = enc (cursor_of col q mode r)" and "pr_before (lq_req q) = []"
  shows "build_source dec prefix inner pargs q
    = Inr (plan prefix inner pargs q mode [keyset_predicate mode (if effective_desc q then ''<'' else ''>'') (row_key col mode r)] False)"
  using assms decoded_cursor [OF assms(1,2)]
  by (simp add: asks_def build_source_def cursor_conds_def plan_def Let_def)

lemma built_before:
  assumes "asks enc dec q mode rows" and "r \<in> set rows" and "pr_before (lq_req q) = enc (cursor_of col q mode r)"
  shows "build_source dec prefix inner pargs q
    = Inr (plan prefix inner pargs q mode [keyset_predicate mode (if effective_desc q then ''>'' else ''<'') (row_key col mode r)] True)"
  using assms decoded_cursor [OF assms(1,2)]
  by (simp add: asks_def build_source_def cursor_conds_def plan_def Let_def)

text \<open>The page a query gets.\<close>

definition answer ::
  "(cursor_token \<Rightarrow> string) \<Rightarrow> (string \<Rightarrow> cursor_token option) \<Rightarrow> string \<Rightarrow> string \<Rightarrow> key_val list \<Rightarrow> list_query \<Rightarrow> 'r list \<Rightarrow>
     page_error + ('r list \<times> page_info)" where
  "answer enc dec prefix inner pargs q rows =
     and_then (build_source dec prefix inner pargs q) (\<lambda>b. list_page enc tr col vals_of b rows)"

lemma display_in_rows: "r \<in> set (display tr col q mode rows) \<Longrightarrow> r \<in> set rows"
  by (auto simp: display_def matching_def split: if_splits)

lemma asksD:
  assumes "asks enc dec q mode rows"
  shows "distinct (map (row_key col mode) rows)" "\<And>r. vals_of (effective_sort q) r = row_key col mode r" "mode \<noteq> []"
  using assms unique [of "effective_sort q" mode rows] reads_key [of "effective_sort q" mode] by (auto simp: asks_def)

lemma asked_page:
  assumes "D = display tr col q mode rows" and "asks enc dec q mode rows"
      and "(if backward then rev else id) (run_page tr col (plan prefix inner pargs q mode preds backward) rows) = take n (drop a D)"
      and "a + n \<le> length D"
  shows "list_page enc tr col vals_of (plan prefix inner pargs q mode preds backward) rows = Inr (take n (drop a D), info_at enc col q mode D a n)"
  using list_page_plan [where vals_of = vals_of and mode = mode and q = q] asksD [OF assms(2)] assms(1,3,4) by blast

lemma first_page:
  assumes D: "D = display tr col q mode rows" and q: "asks enc dec q mode rows"
      and first: "pr_after (lq_req q) = []" "pr_before (lq_req q) = []"
  shows "answer enc dec prefix inner pargs q rows
    = Inr (take (page_size q) D, info_at enc col q mode D 0 (min (page_size q) (length D)))"
proof -
  have "list_page enc tr col vals_of (plan prefix inner pargs q mode [] False) rows
     = Inr (take (min (page_size q) (length D)) (drop 0 D), info_at enc col q mode D 0 (min (page_size q) (length D)))"
    by (rule asked_page [OF D q]) (simp_all add: run_page_plan D [symmetric] min_def)
  then show ?thesis by (simp add: answer_def built_first [OF q first] min_def)
qed

lemma page_after:
  assumes D: "D = display tr col q mode rows" and q: "asks enc dec q mode rows" and k: "k < length D"
      and a: "pr_after (lq_req q) = enc (cursor_of col q mode (D ! k))" "pr_before (lq_req q) = []"
  shows "answer enc dec prefix inner pargs q rows
    = Inr (take (page_size q) (drop (Suc k) D), info_at enc col q mode D (Suc k) (min (page_size q) (length D - Suc k)))"
proof -
  have r: "D ! k \<in> set rows" using display_in_rows [of _ q mode rows] D k by simp
  let ?p = "keyset_predicate mode (if effective_desc q then ''<'' else ''>'') (row_key col mode (D ! k))"
  have "filter (\<lambda>r. \<forall>p \<in> set [?p]. holds tr col r p) D = drop (Suc k) D"
    using display_interval(1) [OF asksD(1) [OF q], of k tr q, folded D, OF k] by (simp add: holds_after)
  then have "run_page tr col (plan prefix inner pargs q mode [?p] False) rows = take (page_size q) (drop (Suc k) D)"
    unfolding run_page_plan D [symmetric] by simp
  then have "list_page enc tr col vals_of (plan prefix inner pargs q mode [?p] False) rows
     = Inr (take (min (page_size q) (length D - Suc k)) (drop (Suc k) D),
            info_at enc col q mode D (Suc k) (min (page_size q) (length D - Suc k)))"
    by (intro asked_page [OF D q]) (use k in \<open>auto simp: min_def\<close>)
  then show ?thesis by (simp add: answer_def built_after [OF q r a] min_def)
qed

lemma page_before:
  assumes D: "D = display tr col q mode rows" and q: "asks enc dec q mode rows" and k: "k < length D"
      and b: "pr_before (lq_req q) = enc (cursor_of col q mode (D ! k))"
  shows "answer enc dec prefix inner pargs q rows
    = Inr (drop (k - page_size q) (take k D), info_at enc col q mode D (k - page_size q) (min (page_size q) k))"
proof -
  have r: "D ! k \<in> set rows" using display_in_rows [of _ q mode rows] D k by simp
  let ?p = "keyset_predicate mode (if effective_desc q then ''>'' else ''<'') (row_key col mode (D ! k))"
  let ?items = "take (min (page_size q) k) (drop (k - page_size q) D)"
  have "filter (\<lambda>r. \<forall>p \<in> set [?p]. holds tr col r p) D = take k D"
    using display_interval(2) [OF asksD(1) [OF q], of k tr q, folded D, OF k] by (simp add: holds_before)
  then have "run_page tr col (plan prefix inner pargs q mode [?p] True) rows = take (page_size q) (rev (take k D))"
    unfolding run_page_plan D [symmetric] by simp
  moreover have items: "drop (k - page_size q) (take k D) = ?items" using k by (auto simp: drop_take min_def)
  ultimately have "rev (run_page tr col (plan prefix inner pargs q mode [?p] True) rows) = ?items"
    using k by (simp add: take_rev rev_drop)
  then have "list_page enc tr col vals_of (plan prefix inner pargs q mode [?p] True) rows
     = Inr (?items, info_at enc col q mode D (k - page_size q) (min (page_size q) k))"
    by (intro asked_page [OF D q]) (use k in simp_all)
  then show ?thesis by (simp add: answer_def built_before [OF q r b] items)
qed

lemma asks_after [simp]: "asks enc dec (asking_after q tok) mode rows = asks enc dec q mode rows"
  by (simp add: asks_def)

text \<open>The cursor that stands at offset \<open>a\<close>.\<close>

definition at_offset :: "(cursor_token \<Rightarrow> string) \<Rightarrow> list_query \<Rightarrow> sort_mode \<Rightarrow> 'r list \<Rightarrow> nat \<Rightarrow> string" where
  "at_offset enc q mode D a = (if a = 0 then [] else enc (cursor_of col q mode (D ! (a - 1))))"

lemma page_at_offset:
  assumes D: "D = display tr col q mode rows" and q: "asks enc dec q mode rows" and a: "a < length D \<or> a = 0"
  shows "answer enc dec prefix inner pargs (asking_after q (at_offset enc q mode D a)) rows
    = Inr (take (page_size q) (drop a D), info_at enc col q mode D a (min (page_size q) (length D - a)))"
proof (cases a)
  case 0
  then show ?thesis using first_page [of D "asking_after q []"] D q by (simp add: at_offset_def)
next
  case (Suc k)
  then show ?thesis
    using page_after [of D "asking_after q (at_offset enc q mode D a)" mode rows enc dec k] D q a by (simp add: at_offset_def)
qed

lemma follow_from:
  assumes D: "D = display tr col q mode rows" and q: "asks enc dec q mode rows"
    and fetch: "fetch = (\<lambda>tok. answer enc dec prefix inner pargs (asking_after q tok) rows)"
  shows "a < length D \<or> a = 0 \<Longrightarrow> length D - a < n \<Longrightarrow>
    \<exists>pages. follow n fetch (at_offset enc q mode D a) = Inr pages \<and> concat pages = drop a D
      \<and> (\<forall>p \<in> set (butlast pages). length p = page_size q)"
proof (induction n arbitrary: a)
  case (Suc n)
  let ?s = "page_size q"
  have pos: "0 < ?s" using size_pos q by (simp add: asks_def)
  note page = page_at_offset [OF D q Suc.prems(1), of prefix inner pargs]
  show ?case
  proof (cases "a + ?s < length D")
    case True
    then have "at_offset enc q mode D (a + ?s) = pi_after (info_at enc col q mode D a (min ?s (length D - a)))"
      using pos by (auto simp: at_offset_def info_at_def min_def)
    moreover have "codec_ok enc dec (cursor_of col q mode (D ! (a + ?s - 1)))"
      using q True display_in_rows [of "D ! (a + ?s - 1)" q mode rows] by (simp add: asks_def D)
    then have "at_offset enc q mode D (a + ?s) \<noteq> []" using pos by (simp add: at_offset_def codec_ok_def)
    moreover obtain pages where "follow n fetch (at_offset enc q mode D (a + ?s)) = Inr pages" "concat pages = drop (a + ?s) D"
      "\<forall>p \<in> set (butlast pages). length p = ?s"
    proof -
      from Suc.prems(2) True pos have "length D - (a + ?s) < n" by linarith
      with Suc.IH [of "a + ?s"] True that show thesis by blast
    qed
    moreover have "take ?s (drop a D) @ drop (a + ?s) D = drop a D" by (metis append_take_drop_id drop_drop add.commute)
    ultimately show ?thesis using page True by (simp add: fetch)
  next
    case False
    then have "pi_after (info_at enc col q mode D a (min ?s (length D - a))) = []" by (auto simp: info_at_def)
    with page False show ?thesis by (simp add: fetch)
  qed
qed simp

lemma follow_lists_all:
  assumes "D = display tr col q mode rows" and "asks enc dec q mode rows" and "length rows < n"
  shows "\<exists>pages. follow n (\<lambda>tok. answer enc dec prefix inner pargs (asking_after q tok) rows) [] = Inr pages
     \<and> concat pages = D \<and> (\<forall>p \<in> set (butlast pages). length p = page_size q)"
proof -
  have "length D \<le> length rows" by (simp add: assms(1) display_def matching_def)
  with assms(3) have "length D - 0 < n" by simp
  with follow_from [OF assms(1,2) refl, of 0 n] show ?thesis by (simp add: at_offset_def)
qed

end

end
