(* ===== verification/Listings.thy ===== *)
theory Listings
  imports Pages Rows
begin

section \<open>The listings of instances (\<open>db_instances.go\<close>, \<open>db_external.go\<close>)\<close>

text \<open>
  Two policies on the table of instances: all instances, optionally of one status, and the queue of
  external tasks. Both meet the contract of a listing as soon as ids are unique and times fit in 64
  bits, so their pages list every matching instance once.
\<close>

definition status_text :: "status \<Rightarrow> string" where
  "status_text s = (case s of Running \<Rightarrow> ''running'' | Completed \<Rightarrow> ''completed'' | Failing \<Rightarrow> ''failing''
     | Failed \<Rightarrow> ''failed'' | Cancelling \<Rightarrow> ''cancelling'' | Cancelled \<Rightarrow> ''cancelled'')"

definition instance_paginator :: paginator where
  "instance_paginator =
     \<lparr>pg_table = ''process_instances'',
      pg_columns = ''id, process_name, process_version, retry_count,'' @ [CHR 0x0A, CHR 0x09] @
        ''status, wait_state, error, created_at, updated_at'',
      pg_base_where = [],
      pg_sorts = [(''created'', [\<lparr>kc_col = ''created_at'', kc_kind = KindInt\<rparr>, \<lparr>kc_col = ''id'', kc_kind = KindText\<rparr>]),
                  (''updated'', [\<lparr>kc_col = ''updated_at'', kc_kind = KindInt\<rparr>, \<lparr>kc_col = ''id'', kc_kind = KindText\<rparr>])],
      pg_filter_cols = [''status''], pg_def_sort = ''created'', pg_def_desc = True, pg_def_limit = 20, pg_max_limit = 100\<rparr>"

definition external_paginator :: paginator where
  "external_paginator =
     \<lparr>pg_table = ''process_instances'',
      pg_columns = ''id, process_name, process_version, parent_id,'' @ [CHR 0x0A, CHR 0x09] @
        ''call_stack, retry_count, wake_at, status, error,'' @ [CHR 0x0A, CHR 0x09] @
        ''created_at, updated_at, worker_id, lease_expires_at, wait_state, spawn_task_id,'' @ [CHR 0x0A, CHR 0x09] @
        ''input_data, outputs_data, output_data, error_data, external_data, engine_state, task'',
      pg_base_where = ''wait_state = '' @ CHR 0x27 # ''external'' @ [CHR 0x27],
      pg_sorts = [(''updated'', [\<lparr>kc_col = ''updated_at'', kc_kind = KindInt\<rparr>, \<lparr>kc_col = ''id'', kc_kind = KindText\<rparr>])],
      pg_filter_cols = [''process_name'', ''process_version'', ''task''],
      pg_def_sort = ''updated'', pg_def_desc = False, pg_def_limit = 20, pg_max_limit = 100\<rparr>"

text \<open>The columns the two policies filter and sort by.\<close>

definition instance_col :: "row \<Rightarrow> string \<Rightarrow> key_val" where
  "instance_col r c =
     (if c = ''id'' then TextVal (r_id r)
      else if c = ''created_at'' then IntVal (r_created_at r)
      else if c = ''updated_at'' then IntVal (r_updated_at r)
      else if c = ''status'' then TextVal (status_text (r_status r))
      else if c = ''process_name'' then TextVal (r_process r)
      else if c = ''process_version'' then IntVal (r_version r)
      else if c = ''task'' then TextVal (r_task r)
      else TextVal [])"

definition trusted_pred :: "string \<Rightarrow> row \<Rightarrow> bool" where
  "trusted_pred s r \<longleftrightarrow> s = pg_base_where external_paginator \<and> r_wait r = External"

record instance_summary =
  sum_id :: string
  sum_process :: string
  sum_version :: int
  sum_retry_count :: int
  sum_status :: status
  sum_wait :: wait_state
  sum_error :: string
  sum_created_at :: int
  sum_updated_at :: int

definition scan_instance_summary :: "row \<Rightarrow> instance_summary" where
  "scan_instance_summary r = \<lparr>sum_id = r_id r, sum_process = r_process r, sum_version = r_version r,
     sum_retry_count = r_retry_count r, sum_status = r_status r, sum_wait = r_wait r, sum_error = r_error r,
     sum_created_at = r_created_at r, sum_updated_at = r_updated_at r\<rparr>"

definition instance_summary_cursor_vals :: "string \<Rightarrow> instance_summary \<Rightarrow> key_val list" where
  "instance_summary_cursor_vals srt s =
     (if srt = ''created'' then [IntVal (sum_created_at s), TextVal (sum_id s)]
      else [IntVal (sum_updated_at s), TextVal (sum_id s)])"

definition instance_cursor_vals :: "string \<Rightarrow> proc_instance \<Rightarrow> key_val list" where
  "instance_cursor_vals srt i =
     (if srt = ''updated'' then [IntVal (inst_updated_at i), TextVal (inst_id i)]
      else [IntVal (inst_created_at i), TextVal (inst_id i)])"

definition list_instances ::
  "(cursor_token \<Rightarrow> string) \<Rightarrow> (string \<Rightarrow> cursor_token option) \<Rightarrow> string \<Rightarrow> page_req \<Rightarrow> database \<Rightarrow>
     page_error + (instance_summary list \<times> page_info)" where
  "list_instances enc dec st req db =
     and_then (build dec (eq_if ''status'' (TextVal st) (st \<noteq> []) (query instance_paginator req))) (\<lambda>b.
       and_then (list_page enc trusted_pred instance_col
                  (\<lambda>s r. instance_summary_cursor_vals s (scan_instance_summary r)) b (d_rows db)) (\<lambda>(rows, info).
         Inr (map scan_instance_summary rows, info)))"

definition external_query :: "string \<Rightarrow> int \<Rightarrow> string \<Rightarrow> page_req \<Rightarrow> list_query" where
  "external_query process version t req =
     eq_if ''task'' (TextVal t) (t \<noteq> [])
       (eq_if ''process_version'' (IntVal version) (version \<noteq> 0)
         (eq_if ''process_name'' (TextVal process) (process \<noteq> []) (query external_paginator req)))"

definition list_external_tasks ::
  "(cursor_token \<Rightarrow> string) \<Rightarrow> (string \<Rightarrow> cursor_token option) \<Rightarrow> string \<Rightarrow> int \<Rightarrow> string \<Rightarrow> page_req \<Rightarrow> database \<Rightarrow>
     page_error + (proc_instance list \<times> page_info)" where
  "list_external_tasks enc dec process version t req db =
     and_then (build dec (external_query process version t req)) (\<lambda>b.
       and_then (list_page enc trusted_pred instance_col
                  (\<lambda>s r. instance_cursor_vals s (to_instance r)) b (d_rows db)) (\<lambda>(rows, info).
         Inr (map to_instance rows, info)))"

subsection \<open>Both meet the contract\<close>

definition int64 :: "int \<Rightarrow> bool" where
  "int64 n \<longleftrightarrow> - (2 ^ 63) \<le> n \<and> n < 2 ^ 63"

definition instances_ok :: "row list \<Rightarrow> bool" where
  "instances_ok rows \<longleftrightarrow> distinct (map r_id rows) \<and> list_all (\<lambda>r. int64 (r_created_at r) \<and> int64 (r_updated_at r)) rows"

lemma distinct_by_id:
  assumes "distinct (map r_id rows)" and "\<lparr>kc_col = ''id'', kc_kind = k\<rparr> \<in> set mode"
  shows "distinct (map (row_key instance_col mode) rows)"
proof -
  have "r_id a = r_id b" if "row_key instance_col mode a = row_key instance_col mode b" for a b
  proof -
    from that have "\<forall>kc \<in> set mode. instance_col a (kc_col kc) = instance_col b (kc_col kc)" by (simp add: row_key_def)
    from bspec [OF this assms(2)] show ?thesis by (simp add: instance_col_def)
  qed
  with assms(1) show ?thesis unfolding distinct_map inj_on_def by blast
qed

interpretation instances: listing instance_paginator trusted_pred instance_col
  "\<lambda>s r. instance_summary_cursor_vals s (scan_instance_summary r)" instances_ok
  by unfold_locales
    (auto simp: instance_paginator_def instance_summary_cursor_vals_def scan_instance_summary_def row_key_def instance_col_def
      well_kinded_def instances_ok_def int64_def list_all_iff distinct_by_id split: if_splits)

interpretation queue: listing external_paginator trusted_pred instance_col
  "\<lambda>s r. instance_cursor_vals s (to_instance r)" instances_ok
  by unfold_locales
    (auto simp: external_paginator_def instance_cursor_vals_def to_instance_def row_key_def instance_col_def
      well_kinded_def instances_ok_def int64_def list_all_iff distinct_by_id split: if_splits)

subsection \<open>Properties\<close>

lemma build_answer:
  "and_then (build dec q) (\<lambda>b. list_page enc tr col vals b rows) =
   and_then (build_source dec (''SELECT '' @ pg_columns (lq_pg q) @ '' FROM '' @ pg_table (lq_pg q))
     (''SELECT 1 FROM '' @ pg_table (lq_pg q)) [] q) (\<lambda>b. list_page enc tr col vals b rows)"
  by (simp add: build_def)

lemma and_then_assoc: "and_then (and_then r f) g = and_then r (\<lambda>x. and_then (f x) g)"
  by (cases r) simp_all

text \<open>Reading pages through a projection of the rows.\<close>

lemma follow_project:
  "follow n (\<lambda>tok. and_then (fetch tok) (\<lambda>(rows, info). Inr (map f rows, info))) tok
    = and_then (follow n fetch tok) (\<lambda>pages. Inr (map (map f) pages))"
proof (induction n arbitrary: tok)
  case (Suc n)
  then show ?case by (cases "fetch tok") (auto simp: and_then_assoc split: sum.splits)
qed simp

definition instance_query :: "string \<Rightarrow> page_req \<Rightarrow> list_query" where
  "instance_query st req = eq_if ''status'' (TextVal st) (st \<noteq> []) (query instance_paginator req)"

lemma instance_query_after:
  "instance_query st (req\<lparr>pr_after := tok, pr_before := []\<rparr>) = asking_after (instance_query st req) tok"
  by (simp add: instance_query_def asking_after_def eq_if_def cond_def query_def)

lemma instance_query_simps [simp]:
  "lq_pg (instance_query st req) = instance_paginator" "lq_err (instance_query st req) = None"
  "lq_req (instance_query st req) = req"
  by (simp_all add: instance_query_def eq_if_def cond_def query_def allows_filter_def instance_paginator_def)

lemma instance_matching:
  "matching trusted_pred instance_col (instance_query st req) rows
    = filter (\<lambda>r. st = [] \<or> status_text (r_status r) = st) rows"
  by (auto simp: matching_def shared_conds_def instance_query_def eq_if_def cond_def query_def allows_filter_def
      instance_paginator_def instance_col_def intro!: filter_cong)

text \<open>The sort of a request: by creation unless it asks for the last update.\<close>

definition instance_mode :: "page_req \<Rightarrow> sort_mode" where
  "instance_mode req =
     [\<lparr>kc_col = (if pr_sort req = ''updated'' then ''updated_at'' else ''created_at''), kc_kind = KindInt\<rparr>,
      \<lparr>kc_col = ''id'', kc_kind = KindText\<rparr>]"

definition known_sort :: "page_req \<Rightarrow> bool" where
  "known_sort req \<longleftrightarrow> pr_sort req \<in> {[], ''created'', ''updated''}"

lemma instance_asks:
  assumes "instances_ok rows" and "known_sort req"
      and "\<forall>r \<in> set rows. codec_ok enc dec (cursor_of instance_col (instance_query st req) (instance_mode req) r)"
  shows "instances.asks enc dec (instance_query st req) (instance_mode req) rows"
  unfolding instances.asks_def using assms by (auto simp: known_sort_def effective_sort_def instance_mode_def instance_paginator_def)

lemma list_instances_answer:
  "list_instances enc dec st (req\<lparr>pr_after := tok, pr_before := []\<rparr>) db
   = and_then (instances.answer enc dec (''SELECT '' @ pg_columns instance_paginator @ '' FROM '' @ pg_table instance_paginator)
       (''SELECT 1 FROM '' @ pg_table instance_paginator) [] (asking_after (instance_query st req) tok) (d_rows db))
      (\<lambda>(rows, info). Inr (map scan_instance_summary rows, info))"
  unfolding list_instances_def instance_query_def [symmetric] instance_query_after instances.answer_def and_then_assoc build_def
  by simp

text \<open>
  C33: a client that follows the \<open>after\<close> cursors of the instance list sees every instance of the
  status it asked for exactly once, in the order it asked for (newest first by default), on full
  pages but for the last, and the walk ends. Cursors must survive their encoding and ids be unique.
\<close>

theorem instance_walk_lists_all:
  assumes "instances_ok (d_rows db)" and "known_sort req"
      and "\<forall>r \<in> set (d_rows db). codec_ok enc dec (cursor_of instance_col (instance_query st req) (instance_mode req) r)"
  shows "\<exists>pages rows. follow (Suc (length (d_rows db))) (\<lambda>tok. list_instances enc dec st (req\<lparr>pr_after := tok, pr_before := []\<rparr>) db) [] = Inr pages
     \<and> concat pages = map scan_instance_summary rows
     \<and> mset rows = mset (filter (\<lambda>r. st = [] \<or> status_text (r_status r) = st) (d_rows db))
     \<and> sorted_wrt (\<lambda>a b. key_before (effective_desc (instance_query st req)) (row_key instance_col (instance_mode req) a)
           (row_key instance_col (instance_mode req) b)) rows
     \<and> (\<forall>p \<in> set (butlast pages). length p = page_size (instance_query st req))"
proof -
  let ?q = "instance_query st req" and ?m = "instance_mode req" and ?rows = "d_rows db"
  let ?D = "display trusted_pred instance_col ?q ?m ?rows"
  let ?fetch = "\<lambda>tok. instances.answer enc dec (''SELECT '' @ pg_columns instance_paginator @ '' FROM '' @ pg_table instance_paginator)
       (''SELECT 1 FROM '' @ pg_table instance_paginator) [] (asking_after ?q tok) ?rows"
  note asks = instance_asks [OF assms]
  from instances.follow_lists_all [OF refl asks, of "Suc (length ?rows)"]
  obtain pages where p: "follow (Suc (length ?rows)) ?fetch [] = Inr pages" "concat pages = ?D"
    "\<forall>p \<in> set (butlast pages). length p = page_size ?q" by blast
  have "follow (Suc (length ?rows)) (\<lambda>tok. list_instances enc dec st (req\<lparr>pr_after := tok, pr_before := []\<rparr>) db) []
      = Inr (map (map scan_instance_summary) pages)"
    unfolding list_instances_answer follow_project p(1) by simp
  moreover have "concat (map (map scan_instance_summary) pages) = map scan_instance_summary ?D"
    by (simp add: map_concat [symmetric] p(2))
  moreover have "sorted_wrt (\<lambda>a b. key_before (effective_desc ?q) (row_key instance_col ?m a) (row_key instance_col ?m b)) ?D"
    by (rule display_ordered [OF instances.asksD(1) [OF asks]])
  moreover have "\<forall>p \<in> set (butlast (map (map scan_instance_summary) pages)). length p = page_size ?q"
    using p(3) by (auto simp: map_butlast [symmetric])
  ultimately show ?thesis using mset_display [of trusted_pred instance_col ?q ?m ?rows] instance_matching by metis
qed

text \<open>The queue of external tasks.\<close>

lemma eq_if_simps:
  "lq_pg (eq_if c v incl q) = lq_pg q" "lq_req (eq_if c v incl q) = lq_req q"
  "allows_filter (lq_pg q) c \<Longrightarrow> lq_err (eq_if c v incl q) = lq_err q"
  "allows_filter (lq_pg q) c \<Longrightarrow> lq_err q = None \<Longrightarrow> lq_conds (eq_if c v incl q) = lq_conds q @ (if incl then [Compare c ''='' v] else [])"
  by (simp_all add: eq_if_def cond_def)

lemma external_filters: "allows_filter external_paginator c \<longleftrightarrow> c \<in> {''process_name'', ''process_version'', ''task''}"
  by (auto simp: allows_filter_def external_paginator_def)

lemma external_query_simps [simp]:
  "lq_pg (external_query p v t req) = external_paginator" "lq_err (external_query p v t req) = None"
  "lq_req (external_query p v t req) = req"
  by (simp_all add: external_query_def eq_if_simps external_filters query_def)

lemma external_query_conds:
  "lq_conds (external_query p v t req) = (if p = [] then [] else [Compare ''process_name'' ''='' (TextVal p)])
     @ (if v = 0 then [] else [Compare ''process_version'' ''='' (IntVal v)]) @ (if t = [] then [] else [Compare ''task'' ''='' (TextVal t)])"
  by (simp add: external_query_def eq_if_simps external_filters query_def)

definition queue_mode :: sort_mode where
  "queue_mode = [\<lparr>kc_col = ''updated_at'', kc_kind = KindInt\<rparr>, \<lparr>kc_col = ''id'', kc_kind = KindText\<rparr>]"

definition queue_order :: "string \<Rightarrow> int \<Rightarrow> string \<Rightarrow> page_req \<Rightarrow> database \<Rightarrow> row list" where
  "queue_order p v t req db = display trusted_pred instance_col (external_query p v t req) queue_mode (d_rows db)"

lemma queue_asks:
  assumes "instances_ok rows" and "pr_sort req \<in> {[], ''updated''}"
      and "\<forall>r \<in> set rows. codec_ok enc dec (cursor_of instance_col (external_query p v t req) queue_mode r)"
  shows "queue.asks enc dec (external_query p v t req) queue_mode rows"
  unfolding queue.asks_def using assms by (auto simp: effective_sort_def queue_mode_def external_paginator_def)

text \<open>Cursors do not change what is asked.\<close>

lemma external_effective [simp]:
  "effective_sort (external_query p v t req) = (if pr_sort req = [] then ''updated'' else pr_sort req)"
  "effective_desc (external_query p v t req) = (case pr_desc req of None \<Rightarrow> False | Some d \<Rightarrow> d)"
  by (simp_all add: effective_sort_def effective_desc_def external_paginator_def split: option.splits)

lemma external_cursor:
  "cursor_of col (external_query p v t (req\<lparr>pr_after := a, pr_before := b\<rparr>)) = cursor_of col (external_query p v t req)"
  by (simp add: cursor_of_def fun_eq_iff)

lemma external_display:
  "display tr col (external_query p v t (req\<lparr>pr_after := a, pr_before := b\<rparr>)) = display tr col (external_query p v t req)"
proof -
  have "lq_conds (external_query p v t (req\<lparr>pr_after := a, pr_before := b\<rparr>)) = lq_conds (external_query p v t req)"
    by (simp add: external_query_conds)
  then show ?thesis
    by (simp add: fun_eq_iff display_def matching_def shared_conds_def)
qed

lemma list_external_answer:
  "list_external_tasks enc dec p v t req db
   = and_then (queue.answer enc dec (''SELECT '' @ pg_columns external_paginator @ '' FROM '' @ pg_table external_paginator)
       (''SELECT 1 FROM '' @ pg_table external_paginator) [] (external_query p v t req) (d_rows db))
      (\<lambda>(rows, info). Inr (map to_instance rows, info))"
  unfolding list_external_tasks_def queue.answer_def and_then_assoc build_def by simp

text \<open>
  C34: the two cursors of a row of the external-task queue lead to its neighbours: \<open>after\<close> to the
  tasks that have waited less long, \<open>before\<close> to those that have waited longer, a page of each,
  nothing skipped and nothing repeated.
\<close>

theorem queue_pages_are_neighbours:
  assumes "instances_ok (d_rows db)" and "pr_sort req \<in> {[], ''updated''}"
      and "\<forall>r \<in> set (d_rows db). codec_ok enc dec (cursor_of instance_col (external_query p v t req) queue_mode r)"
      and "k < length (queue_order p v t req db)"
      and "tok = enc (cursor_of instance_col (external_query p v t req) queue_mode (queue_order p v t req db ! k))"
      and "sz = page_size (external_query p v t req)"
  shows "(\<exists>info. list_external_tasks enc dec p v t (req\<lparr>pr_after := tok, pr_before := []\<rparr>) db
       = Inr (map to_instance (take sz (drop (Suc k) (queue_order p v t req db))), info))
    \<and> (\<exists>info. list_external_tasks enc dec p v t (req\<lparr>pr_before := tok\<rparr>) db
       = Inr (map to_instance (drop (k - sz) (take k (queue_order p v t req db))), info))"
proof -
  let ?q = "external_query p v t req" and ?D = "queue_order p v t req db"
  have asks: "queue.asks enc dec (external_query p v t (req\<lparr>pr_after := a, pr_before := b\<rparr>)) queue_mode (d_rows db)" for a b
    by (rule queue_asks) (use assms(1-3) in \<open>simp_all add: external_cursor\<close>)
  have D: "?D = display trusted_pred instance_col (external_query p v t (req\<lparr>pr_after := a, pr_before := b\<rparr>)) queue_mode (d_rows db)" for a b
    by (simp add: queue_order_def external_display)
  have tok: "tok = enc (cursor_of instance_col (external_query p v t (req\<lparr>pr_after := a, pr_before := b\<rparr>)) queue_mode (?D ! k))" for a b
    using assms(5) by (simp add: external_cursor)
  have sz: "page_size (external_query p v t (req\<lparr>pr_after := a, pr_before := b\<rparr>)) = sz" for a b
    using assms(6) by (simp add: page_size_def)
  have "\<exists>info. list_external_tasks enc dec p v t (req\<lparr>pr_after := tok, pr_before := []\<rparr>) db
       = Inr (map to_instance (take sz (drop (Suc k) ?D)), info)"
    unfolding list_external_answer
    by (subst queue.page_after [OF D asks assms(4)]) (use tok [where a = tok and b = "[]"] in \<open>simp_all add: sz\<close>)
  moreover have "\<exists>info. list_external_tasks enc dec p v t (req\<lparr>pr_after := pr_after req, pr_before := tok\<rparr>) db
       = Inr (map to_instance (drop (k - sz) (take k ?D)), info)"
    unfolding list_external_answer
    by (subst queue.page_before [OF D asks assms(4)]) (use tok [where a = "pr_after req" and b = tok] sz [where a = "pr_after req" and b = tok] in simp_all)
  ultimately show ?thesis by simp
qed

subsection \<open>Examples\<close>

text \<open>Three instances of the same millisecond, two of them parked.\<close>

definition three_rows :: "row list" where
  "three_rows = [(blank_row ''a'')\<lparr>r_wait := External\<rparr>, blank_row ''b'', (blank_row ''c'')\<lparr>r_wait := External\<rparr>]"

definition short_pages :: page_req where
  "short_pages = \<lparr>pr_sort = [], pr_desc = None, pr_limit = 2, pr_after = [], pr_before = []\<rparr>"

definition id_enc :: "cursor_token \<Rightarrow> string" where
  "id_enc t = (case ct_vals t of [n, StrVal s] \<Rightarrow> CHR ''.'' # s | _ \<Rightarrow> ''.'')"

definition id_dec :: "string \<Rightarrow> bool \<Rightarrow> string \<Rightarrow> cursor_token option" where
  "id_dec srt desc s = Some \<lparr>ct_sort = srt, ct_desc = desc, ct_vals = [NumText ''0'', StrVal (tl s)]\<rparr>"

lemma three_ok: "instances_ok three_rows"
  by (simp add: instances_ok_def three_rows_def blank_row_def int64_def)

lemma dec_int_0: "dec_int 0 = ''0''"
  by code_simp

theorem instance_walk_lists_all_witness:
  "\<exists>pages rows. follow 4 (\<lambda>tok. list_instances id_enc (id_dec ''created'' True) [] (short_pages\<lparr>pr_after := tok, pr_before := []\<rparr>) (db_with three_rows)) [] = Inr pages
     \<and> concat pages = map scan_instance_summary rows \<and> mset rows = mset three_rows
     \<and> (\<forall>p \<in> set (butlast pages). length p = 2)"
proof -
  have "\<forall>r \<in> set three_rows. codec_ok id_enc (id_dec ''created'' True) (cursor_of instance_col (instance_query [] short_pages) (instance_mode short_pages) r)"
    by (simp add: codec_ok_def cursor_of_def id_enc_def id_dec_def three_rows_def blank_row_def instance_mode_def short_pages_def
        row_key_def instance_col_def token_of_def dec_int_0 effective_sort_def effective_desc_def instance_paginator_def)
  with instance_walk_lists_all [of "db_with three_rows" short_pages id_enc "id_dec ''created'' True" "[]"] three_ok
  obtain pages rows where "follow (Suc (length three_rows)) (\<lambda>tok. list_instances id_enc (id_dec ''created'' True) [] (short_pages\<lparr>pr_after := tok, pr_before := []\<rparr>) (db_with three_rows)) [] = Inr pages"
    "concat pages = map scan_instance_summary rows" "mset rows = mset three_rows"
    "\<forall>p \<in> set (butlast pages). length p = page_size (instance_query [] short_pages)"
    by (auto simp: known_sort_def short_pages_def)
  moreover have "page_size (instance_query [] short_pages) = 2"
    by (simp add: page_size_def short_pages_def effective_limit_def instance_paginator_def)
  moreover have "length three_rows = 3" by (simp add: three_rows_def)
  ultimately show ?thesis by (intro exI [of _ pages] exI [of _ rows]) (simp add: eval_nat_numeral)
qed

theorem queue_pages_are_neighbours_witness:
  "\<exists>info. list_external_tasks id_enc (id_dec ''updated'' False) [] 0 [] (short_pages\<lparr>pr_after := ''.a'', pr_before := []\<rparr>) (db_with three_rows)
       = Inr (map to_instance (take 2 (drop 1 (queue_order [] 0 [] short_pages (db_with three_rows)))), info)"
proof -
  have codec: "\<forall>r \<in> set three_rows. codec_ok id_enc (id_dec ''updated'' False) (cursor_of instance_col (external_query [] 0 [] short_pages) queue_mode r)"
    by (simp add: codec_ok_def cursor_of_def id_enc_def id_dec_def three_rows_def blank_row_def queue_mode_def short_pages_def
        row_key_def instance_col_def token_of_def dec_int_0)
  have order: "map r_id (queue_order [] 0 [] short_pages (db_with three_rows)) = [''a'', ''c'']"
    by code_simp
  then have len: "0 < length (queue_order [] 0 [] short_pages (db_with three_rows))" by (auto simp: map_eq_Cons_conv)
  have size: "page_size (external_query [] 0 [] short_pages) = 2"
    by (simp add: page_size_def short_pages_def effective_limit_def external_paginator_def)
  have tok: "''.a'' = id_enc (cursor_of instance_col (external_query [] 0 [] short_pages) queue_mode (queue_order [] 0 [] short_pages (db_with three_rows) ! 0))"
    using order by (auto simp: id_enc_def cursor_of_def queue_mode_def row_key_def instance_col_def token_of_def map_eq_Cons_conv)
  show ?thesis
    using queue_pages_are_neighbours [where k = 0 and db = "db_with three_rows" and req = short_pages and dec = "id_dec ''updated'' False"
          and p = "[]" and v = 0 and t = "[]" and enc = id_enc,
        OF _ _ _ len tok size [symmetric]] three_ok codec
    by (simp add: short_pages_def)
qed

end
