(* ===== verification/PageText.thy ===== *)
theory PageText
  imports Listings
begin

section \<open>Statements and their arguments\<close>

text \<open>
  The text of a page statement has one placeholder per bound argument, whatever filters and cursor
  went into it; so on Postgres the arguments are numbered as they are bound.
\<close>

definition good_name :: "string \<Rightarrow> bool" where
  "good_name c \<longleftrightarrow> no_mark c \<and> starts_plain c"

fun good_pred :: "pred \<Rightarrow> bool" where
  "good_pred (Trusted s) \<longleftrightarrow> good_name s"
| "good_pred (Compare c op v) \<longleftrightarrow> good_name c \<and> no_mark op"
| "good_pred (Conj ps) \<longleftrightarrow> (\<forall>p \<in> set ps. good_pred p)"
| "good_pred (Disj ps) \<longleftrightarrow> (\<forall>p \<in> set ps. good_pred p)"

lemma no_mark_simps [simp]: "no_mark []" "no_mark (c # s) \<longleftrightarrow> c \<noteq> CHR ''?'' \<and> no_mark s" "no_mark (s @ t) \<longleftrightarrow> no_mark s \<and> no_mark t"
  by (auto simp: no_mark_def)

lemma starts_plain_simps [simp]: "starts_plain []" "starts_plain (c # s) \<longleftrightarrow> \<not> is_digit c"
  by (simp_all add: starts_plain_def)

lemma is_digit_simps [simp]:
  "\<not> is_digit CHR '' ''" "\<not> is_digit CHR ''(''" "\<not> is_digit CHR '')''" "\<not> is_digit CHR '',''"
  by (simp_all add: is_digit_def)

text \<open>Texts that may follow a placeholder, with the number of their own placeholders.\<close>

definition clause :: "nat \<Rightarrow> string \<Rightarrow> bool" where
  "clause n s \<longleftrightarrow> plain_marks n s \<and> starts_plain s"

lemma clause_text: "no_mark s \<Longrightarrow> starts_plain s \<Longrightarrow> clause 0 s"
  by (simp add: clause_def plain_marks_0)

lemma clause_mark: "clause 1 ''?''"
  using plain_marks_mark by (simp add: clause_def)

lemma clause_append: "clause m s \<Longrightarrow> clause n t \<Longrightarrow> clause (m + n) (s @ t)"
  by (simp add: clause_def plain_marks_append starts_plain_append)

lemma clause_join:
  "clause 0 sep \<Longrightarrow> list_all2 clause ns ss \<Longrightarrow> clause (sum_list ns) (join_with sep ss)"
proof (induction sep ss arbitrary: ns rule: join_with.induct)
  case (1 sep)
  then show ?case by (simp add: clause_text)
next
  case (3 sep s t ts)
  from "3.prems"(2) obtain n ms where n: "ns = n # ms" "clause n s" "list_all2 clause ms (t # ts)"
    by (auto simp: list_all2_Cons2)
  have "clause (0 + sum_list ms) (sep @ join_with sep (t # ts))"
    by (rule clause_append [OF "3.prems"(1) "3.IH" [OF "3.prems"(1) n(3)]])
  from clause_append [OF n(2) this] n(1) show ?case by simp
qed (auto simp: list_all2_Cons2)

lemma clause_paren: "clause n s \<Longrightarrow> clause n (''('' @ s @ '')'')"
  using clause_append [OF clause_text [of "''(''"] clause_append [OF _ clause_text [of "'')''"]], of n s] by simp

lemma clause_preds:
  assumes "\<forall>p \<in> set ps. clause (length (pred_args p)) (pred_text p)" and "clause 0 sep"
  shows "clause (length (concat (map pred_args ps))) (join_with sep (map pred_text ps))"
proof -
  have "list_all2 clause (map (length \<circ> pred_args) ps) (map pred_text ps)"
    using assms(1) by (simp add: list_all2_conv_all_nth)
  from clause_join [OF assms(2) this] show ?thesis by (simp add: length_concat comp_def)
qed

lemma clause_pred: "good_pred p \<Longrightarrow> clause (length (pred_args p)) (pred_text p)"
proof (induction p rule: good_pred.induct)
  case (2 c op v)
  have "clause 0 (c @ '' '' @ op @ '' '')"
    by (rule clause_text) (use 2 in \<open>auto simp: good_name_def intro!: starts_plain_append\<close>)
  from clause_append [OF this clause_mark] show ?case by simp
next
  case (3 ps)
  from clause_paren [OF clause_preds [of ps "'' AND ''"]] 3 show ?case by (simp add: clause_text)
next
  case (4 ps)
  from clause_paren [OF clause_preds [of ps "'' OR ''"]] 4 show ?case by (simp add: clause_text)
qed (simp add: clause_text good_name_def)

lemma clause_where:
  assumes "\<forall>p \<in> set ps. good_pred p"
  shows "clause (length (concat (map pred_args ps))) (where_clause ps)"
proof (cases "ps = []")
  case True
  then show ?thesis by (simp add: where_clause_def clause_text)
next
  case False
  have "clause (0 + length (concat (map pred_args ps))) ('' WHERE '' @ join_with '' AND '' (map pred_text ps))"
    by (intro clause_append clause_preds ballI clause_pred) (use assms in \<open>simp_all add: clause_text\<close>)
  with False show ?thesis by (simp add: where_clause_def)
qed

lemma keyset_good: "(\<forall>kc \<in> set mode. good_name (kc_col kc)) \<Longrightarrow> no_mark op \<Longrightarrow> good_pred (keyset_predicate mode op vals)"
  by (auto simp: keyset_predicate_def)

lemma page_sql_marks:
  assumes "plain_marks (length (b_prefix_args b)) (b_prefix b)" and "\<forall>p \<in> set (b_where b). good_pred p"
      and "\<forall>kc \<in> set (b_mode b). good_name (kc_col kc)" and "no_mark (b_dir b)"
  shows "plain_marks (length (page_args b)) (page_sql b)"
proof -
  have "list_all2 clause (map (\<lambda>_. 0) (b_mode b)) (map (\<lambda>kc. kc_col kc @ '' '' @ b_dir b) (b_mode b))"
    using assms(3,4) by (auto simp: list_all2_conv_all_nth good_name_def intro!: clause_text starts_plain_append)
  moreover have "sum_list (map (\<lambda>_. 0) (b_mode b)) = (0::nat)" by simp
  ultimately
  have order: "clause 0 (join_with '', '' (map (\<lambda>kc. kc_col kc @ '' '' @ b_dir b) (b_mode b)))"
    using clause_join [OF clause_text [of "'', ''"]] by fastforce
  have limit: "clause 1 '' LIMIT ?''" using clause_append [OF clause_text [of "'' LIMIT ''"] clause_mark] by simp
  have "clause (length (concat (map pred_args (b_where b))) + (0 + (0 + 1)))
     (where_clause (b_where b) @ '' ORDER BY '' @ join_with '', '' (map (\<lambda>kc. kc_col kc @ '' '' @ b_dir b) (b_mode b)) @ '' LIMIT ?'')"
    by (intro clause_append clause_where order limit assms(2) clause_text) simp_all
  then show ?thesis
    using plain_marks_append [OF assms(1)] by (auto simp: clause_def page_sql_def page_args_def dest: plain_marks_append [OF assms(1)])
qed

text \<open>The plans of the two listings.\<close>

lemma cursor_conds_shape:
  assumes "cursor_conds dec q mode asc tok = Inr ps"
  shows "\<forall>p \<in> set ps. \<exists>op vals. no_mark op \<and> p = keyset_predicate mode op vals"
proof (cases "tok = []")
  case True
  with assms show ?thesis by (simp add: cursor_conds_def)
next
  case False
  with assms obtain vals where "ps = [keyset_predicate mode (if asc then ''>'' else ''<'') vals]"
    by (auto simp: cursor_conds_def and_then_eq_Inr)
  moreover have "no_mark (if asc then ''>'' else ''<'')" by simp
  ultimately show ?thesis by (metis empty_iff insert_iff list.set(1) list.set(2))
qed

lemma built_shape:
  assumes "build dec q = Inr b"
  obtains asc tok ps where "cursor_conds dec q (b_mode b) asc tok = Inr ps" "b_where b = shared_conds q @ ps"
    "map_of (pg_sorts (lq_pg q)) (effective_sort q) = Some (b_mode b)" "b_prefix_args b = []"
    "b_prefix b = ''SELECT '' @ pg_columns (lq_pg q) @ '' FROM '' @ pg_table (lq_pg q)" "no_mark (b_dir b)"
proof -
  from assms obtain mode where m: "map_of (pg_sorts (lq_pg q)) (effective_sort q) = Some mode"
    by (auto simp: build_def build_source_def split: option.splits)
  from assms have n: "lq_err q = None" by (auto simp: build_def build_source_def split: option.splits)
  let ?A = "if pr_before (lq_req q) \<noteq> [] then effective_desc q else \<not> effective_desc q"
  let ?T = "if pr_before (lq_req q) \<noteq> [] then pr_before (lq_req q) else pr_after (lq_req q)"
  obtain ps where c: "cursor_conds dec q mode ?A ?T = Inr ps"
    using assms m n by (cases "cursor_conds dec q mode ?A ?T") (simp_all add: build_def build_source_def)
  with assms m n have "Inr b = build_source dec (''SELECT '' @ pg_columns (lq_pg q) @ '' FROM '' @ pg_table (lq_pg q))
     (''SELECT 1 FROM '' @ pg_table (lq_pg q)) [] q" by (simp add: build_def)
  also have "\<dots> = Inr \<lparr>b_prefix = ''SELECT '' @ pg_columns (lq_pg q) @ '' FROM '' @ pg_table (lq_pg q), b_prefix_args = [],
     b_where = shared_conds q @ ps, b_dir = (if ?A then ''ASC'' else ''DESC''), b_count_inner = ''SELECT 1 FROM '' @ pg_table (lq_pg q),
     b_count_conds = shared_conds q, b_mode = mode, b_sort = effective_sort q, b_desc = effective_desc q,
     b_limit = effective_limit (lq_pg q) (pr_limit (lq_req q)), b_backward = (pr_before (lq_req q) \<noteq> [])\<rparr>"
    unfolding build_source_def Let_def n m option.case c and_then_simps by simp
  finally show thesis using that [of ?A ?T ps] c m by simp
qed

lemma build_marks:
  assumes "build dec q = Inr b" and "no_mark (pg_columns (lq_pg q))" and "no_mark (pg_table (lq_pg q))"
      and "\<forall>p \<in> set (shared_conds q). good_pred p"
      and "\<forall>(s, mode) \<in> set (pg_sorts (lq_pg q)). \<forall>kc \<in> set mode. good_name (kc_col kc)"
  shows "plain_marks (length (page_args b)) (page_sql b)"
proof (rule page_sql_marks)
  obtain asc tok ps where b: "cursor_conds dec q (b_mode b) asc tok = Inr ps" "b_where b = shared_conds q @ ps"
    "map_of (pg_sorts (lq_pg q)) (effective_sort q) = Some (b_mode b)" "b_prefix_args b = []"
    "b_prefix b = ''SELECT '' @ pg_columns (lq_pg q) @ '' FROM '' @ pg_table (lq_pg q)" "no_mark (b_dir b)"
    by (rule built_shape [OF assms(1)])
  from b assms(2,3) show "plain_marks (length (b_prefix_args b)) (b_prefix b)" by (simp add: plain_marks_0)
  from b have "(effective_sort q, b_mode b) \<in> set (pg_sorts (lq_pg q))" by (auto dest: map_of_SomeD)
  with assms(5) show m: "\<forall>kc \<in> set (b_mode b). good_name (kc_col kc)" by auto
  show "\<forall>p \<in> set (b_where b). good_pred p" using b(2) assms(4) cursor_conds_shape [OF b(1)] keyset_good [OF m] by auto
  from b show "no_mark (b_dir b)" by auto
qed

lemma policies_good:
  "\<forall>pg \<in> {instance_paginator, external_paginator}. no_mark (pg_columns pg) \<and> no_mark (pg_table pg)
     \<and> (\<forall>(s, mode) \<in> set (pg_sorts pg). \<forall>kc \<in> set mode. good_name (kc_col kc)) \<and> good_name (pg_base_where pg)"
  unfolding good_name_def no_mark_def by code_simp

lemma instance_query_conds:
  "lq_conds (instance_query st req) = (if st = [] then [] else [Compare ''status'' ''='' (TextVal st)])"
  by (simp add: instance_query_def eq_if_simps allows_filter_def query_def instance_paginator_def)

lemma filters_good: "\<forall>c \<in> {''status'', ''process_name'', ''process_version'', ''task''}. good_name c"
  unfolding good_name_def no_mark_def by code_simp

text \<open>
  C35: the statement of a page of either listing, with whatever filters and cursor, has exactly one
  placeholder per argument, in order; the rewriting for Postgres numbers them \<open>$1\<close>, \<open>$2\<close>, ... and
  leaves the rest of the text alone.
\<close>

theorem page_statement_placeholders:
  assumes "build dec q = Inr b" and "q = instance_query st req \<or> q = external_query p v t req"
  shows "\<exists>ps. length ps = Suc (length (page_args b)) \<and> list_all no_mark ps \<and> page_sql b = filled question ps
     \<and> rewrite_placeholders (page_sql b) = filled dollar ps"
proof (rule rewrite_plain_marks)
  have pg: "lq_pg q \<in> {instance_paginator, external_paginator}" using assms(2) by auto
  with policies_good have "good_name (pg_base_where (lq_pg q))" by blast
  moreover have "\<forall>p \<in> set (lq_conds q). good_pred p"
    using assms(2) filters_good by (auto simp: instance_query_conds external_query_conds split: if_splits)
  ultimately have "\<forall>p \<in> set (shared_conds q). good_pred p" by (auto simp: shared_conds_def)
  with pg policies_good show "plain_marks (length (page_args b)) (page_sql b)"
    by (intro build_marks [OF assms(1)]) blast+
qed

theorem page_statement_placeholders_witness:
  "\<exists>b ps. build (id_dec ''updated'' False) (external_query ''pay'' 1 [] short_pages) = Inr b \<and> length ps = 4
     \<and> rewrite_placeholders (page_sql b) = filled dollar ps"
proof -
  have n: "\<not> isl (build (id_dec ''updated'' False) (external_query ''pay'' 1 [] short_pages))"
    "length (page_args (projr (build (id_dec ''updated'' False) (external_query ''pay'' 1 [] short_pages)))) = 3"
    by code_simp+
  obtain b where b: "build (id_dec ''updated'' False) (external_query ''pay'' 1 [] short_pages) = Inr b"
    using n(1) by (cases "build (id_dec ''updated'' False) (external_query ''pay'' 1 [] short_pages)") auto
  with n(2) page_statement_placeholders [OF b disjI2 [OF refl]] show ?thesis by auto
qed

end
