(* ===== verification/TopoSort.thy ===== *)
theory TopoSort
  imports Model
begin

section \<open>Ordering a batch (\<open>topoSort\<close> of \<open>internal/api/handlers.go\<close>)\<close>

text \<open>
  A batch of definitions is applied children first. The depth-first search marks names while they
  are on its path; meeting one again is a cycle. Recursion has fuel, one more than the batch is
  long, shown to be enough: a path marks a new name at every step.
\<close>

definition child_names :: "process_definition \<Rightarrow> string list" where
  "child_names d = concat (map (\<lambda>t.
     case task_action t of None \<Rightarrow> []
     | Some a \<Rightarrow> (case act_type a of
          Child \<Rightarrow> [act_name a]
        | ChildParallel \<Rightarrow> map (\<lambda>(k, e). ce_name e) (act_children a)
        | _ \<Rightarrow> [])) (def_tasks d))"

definition by_name :: "process_definition list \<Rightarrow> string \<Rightarrow> process_definition option" where
  "by_name defs = map_of (rev (map (\<lambda>d. (def_name d, d)) defs))"

datatype mark = Visiting | Done

datatype sort_error = CycleAt string | SearchTooDeep | NoSuchName string

type_synonym search = "(string \<times> mark) list \<times> process_definition list"

fun each :: "('a \<Rightarrow> 's \<Rightarrow> 'e + 's) \<Rightarrow> 'a list \<Rightarrow> 's \<Rightarrow> 'e + 's" where
  "each f [] s = Inr s"
| "each f (x # xs) s = and_then (f x s) (each f xs)"

definition next_names :: "process_definition list \<Rightarrow> string \<Rightarrow> process_definition \<Rightarrow> string list" where
  "next_names defs name d = filter (\<lambda>c. c \<noteq> name \<and> by_name defs c \<noteq> None) (child_names d)"

fun visit :: "nat \<Rightarrow> process_definition list \<Rightarrow> string \<Rightarrow> search \<Rightarrow> sort_error + search" where
  "visit 0 defs name s = Inl SearchTooDeep"
| "visit (Suc n) defs name s =
     (case map_of (fst s) name of
        Some Done \<Rightarrow> Inr s
      | Some Visiting \<Rightarrow> Inl (CycleAt name)
      | None \<Rightarrow>
         (case by_name defs name of
            None \<Rightarrow> Inl (NoSuchName name)
          | Some d \<Rightarrow>
              and_then (each (visit n defs) (next_names defs name d) ((name, Visiting) # fst s, snd s)) (\<lambda>s'.
                Inr ((name, Done) # fst s', snd s' @ [d]))))"

definition topo_sort :: "process_definition list \<Rightarrow> sort_error + process_definition list" where
  "topo_sort defs =
     and_then (each (visit (Suc (length defs)) defs) (map def_name defs) ([], [])) (\<lambda>s. Inr (snd s))"

subsection \<open>The search\<close>

lemma by_name_Some: "by_name defs name = Some d \<Longrightarrow> d \<in> set defs \<and> def_name d = name"
  unfolding by_name_def by (auto dest!: map_of_SomeD)

lemma by_name_None: "by_name defs name = None \<longleftrightarrow> name \<notin> def_name ` set defs"
  unfolding by_name_def map_of_eq_None_iff by force

definition calls :: "process_definition list \<Rightarrow> (string \<times> string) set" where
  "calls defs = {(a, b). \<exists>d. by_name defs a = Some d \<and> b \<in> set (next_names defs a d)}"

lemma each_Inr_invariant:
  assumes "each f xs s = Inr s'" and "I s"
      and step: "\<And>x s s'. x \<in> set xs \<Longrightarrow> I s \<Longrightarrow> f x s = Inr s' \<Longrightarrow> I s'"
  shows "I s'"
  using assms by (induction xs arbitrary: s) (auto simp: and_then_eq_Inr)

lemma each_keeps:
  assumes "each f xs s = Inr s'" and "\<And>x s s'. f x s = Inr s' \<Longrightarrow> g s' = g s"
  shows "g s' = g s"
  by (rule each_Inr_invariant [OF assms(1), where I = "\<lambda>u. g u = g s"]) (use assms(2) in \<open>force+\<close>)

definition visiting :: "search \<Rightarrow> string set" where
  "visiting s = {v. map_of (fst s) v = Some Visiting}"

lemma visit_visiting: "visit n defs name s = Inr s' \<Longrightarrow> visiting s' = visiting s"
proof (induction n arbitrary: name s s')
  case (Suc n)
  show ?case
  proof (cases "map_of (fst s) name")
    case None
    with Suc.prems obtain d t where t: "each (visit n defs) (next_names defs name d) ((name, Visiting) # fst s, snd s) = Inr t"
      "s' = ((name, Done) # fst t, snd t @ [d])"
      by (auto simp: and_then_eq_Inr split: option.splits)
    have "visiting t = visiting ((name, Visiting) # fst s, snd s)"
      by (rule each_keeps [OF t(1)]) (rule Suc.IH)
    also have "\<dots> = insert name (visiting s)" by (auto simp: visiting_def)
    finally have "visiting t = insert name (visiting s)" .
    moreover have "visiting s' = visiting t - {name}" unfolding t(2) by (auto simp: visiting_def)
    moreover have "name \<notin> visiting s" using None by (simp add: visiting_def)
    ultimately show ?thesis by simp
  next
    case (Some m)
    with Suc.prems show ?thesis by (cases m) simp_all
  qed
qed simp

text \<open>What is known between two visits.\<close>

definition search_ok :: "process_definition list \<Rightarrow> search \<Rightarrow> bool" where
  "search_ok defs s \<longleftrightarrow> distinct (map def_name (snd s)) \<and>
     {v. map_of (fst s) v = Some Done} = def_name ` set (snd s) \<and>
     (\<forall>k < length (snd s). by_name defs (def_name (snd s ! k)) = Some (snd s ! k) \<and>
        (\<forall>c. (def_name (snd s ! k), c) \<in> calls defs \<longrightarrow> c \<in> def_name ` set (take k (snd s))))"

lemma visit_done: "visit n defs name s = Inr s' \<Longrightarrow> map_of (fst s') name = Some Done"
  by (cases n) (auto simp: and_then_eq_Inr split: option.splits mark.splits)

lemma each_visit_done:
  assumes "each (visit n defs) xs s = Inr s'" and "x \<in> set xs"
      and mono: "\<And>y s s'. visit n defs y s = Inr s' \<Longrightarrow> map_of (fst s) x = Some Done \<Longrightarrow> map_of (fst s') x = Some Done"
  shows "map_of (fst s') x = Some Done"
  using assms(1,2)
proof (induction xs arbitrary: s)
  case (Cons y ys)
  from Cons.prems(1) obtain t where t: "visit n defs y s = Inr t" "each (visit n defs) ys t = Inr s'"
    by (auto simp: and_then_eq_Inr)
  show ?case
  proof (cases "x \<in> set ys")
    case True
    with Cons.IH t(2) show ?thesis by blast
  next
    case False
    with Cons.prems(2) visit_done t(1) have "map_of (fst t) x = Some Done" by auto
    with t(2) show ?thesis by (rule each_Inr_invariant) (rule mono)
  qed
qed simp

lemma visit_mono: "visit n defs y s = Inr s' \<Longrightarrow> map_of (fst s) x = Some Done \<Longrightarrow> map_of (fst s') x = Some Done"
proof (induction n arbitrary: y s s')
  case (Suc n)
  show ?case
  proof (cases "map_of (fst s) y")
    case None
    with Suc.prems obtain d t where t: "each (visit n defs) (next_names defs y d) ((y, Visiting) # fst s, snd s) = Inr t"
      "s' = ((y, Done) # fst t, snd t @ [d])"
      by (auto simp: and_then_eq_Inr split: option.splits)
    from None Suc.prems(2) have "x \<noteq> y" by auto
    have "map_of (fst t) x = Some Done"
      by (rule each_Inr_invariant [OF t(1)]) (use Suc \<open>x \<noteq> y\<close> in auto)
    with t(2) show ?thesis by simp
  next
    case (Some m)
    with Suc.prems show ?thesis by (cases m) auto
  qed
qed simp

lemma visit_ok: "visit n defs name s = Inr s' \<Longrightarrow> search_ok defs s \<Longrightarrow> search_ok defs s'"
proof (induction n arbitrary: name s s')
  case (Suc n)
  show ?case
  proof (cases "map_of (fst s) name")
    case None
    with Suc.prems(1) obtain d t where d: "by_name defs name = Some d"
      and t: "each (visit n defs) (next_names defs name d) ((name, Visiting) # fst s, snd s) = Inr t"
      and s': "s' = ((name, Done) # fst t, snd t @ [d])"
      by (auto simp: and_then_eq_Inr split: option.splits)
    have "{v. map_of (fst ((name, Visiting) # fst s, snd s)) v = Some Done} = {v. map_of (fst s) v = Some Done}"
      using None by auto
    then have "search_ok defs ((name, Visiting) # fst s, snd s)" using Suc.prems(2) unfolding search_ok_def by (metis snd_conv)
    with t have ok: "search_ok defs t" by (rule each_Inr_invariant) (rule Suc.IH)
    have "visiting t = visiting ((name, Visiting) # fst s, snd s)"
      by (rule each_keeps [OF t]) (rule visit_visiting)
    moreover have "name \<in> visiting ((name, Visiting) # fst s, snd s)" by (simp add: visiting_def)
    ultimately have "name \<in> visiting t" by simp
    then have "map_of (fst t) name = Some Visiting" by (simp add: visiting_def)
    then have "name \<notin> {v. map_of (fst t) v = Some Done}" by simp
    with ok have new: "name \<notin> def_name ` set (snd t)" unfolding search_ok_def by metis
    have kids: "c \<in> def_name ` set (snd t)" if "(name, c) \<in> calls defs" for c
    proof -
      from that d have "c \<in> set (next_names defs name d)" by (auto simp: calls_def)
      from each_visit_done [OF t this visit_mono] ok show ?thesis by (auto simp: search_ok_def)
    qed
    have "def_name d = name" using by_name_Some [OF d] by simp
    with ok new kids d show ?thesis
      unfolding s' search_ok_def by (auto simp: nth_append less_Suc_eq)
  next
    case (Some m)
    with Suc.prems show ?thesis by (cases m) simp_all
  qed
qed simp

text \<open>A cycle that is reported exists: the names being visited lead to the one just met.\<close>

lemma each_Inl:
  assumes "each f xs s = Inl e" and "I s" and "\<And>x s s'. I s \<Longrightarrow> f x s = Inr s' \<Longrightarrow> I s'"
  shows "\<exists>x u. x \<in> set xs \<and> I u \<and> f x u = Inl e"
  using assms(1,2)
proof (induction xs arbitrary: s)
  case (Cons x xs)
  show ?case
  proof (cases "f x s")
    case (Inl a)
    with Cons.prems show ?thesis by (metis and_then_simps(1) each.simps(2) list.set_intros(1))
  next
    case (Inr u)
    with Cons.prems have "each f xs u = Inl e" "I u" using assms(3) by auto
    with Cons.IH show ?thesis by (metis list.set_intros(2))
  qed
qed simp

lemma visit_cycle:
  assumes "visit n defs name s = Inl (CycleAt x)" and "\<And>v. v \<in> visiting s \<Longrightarrow> (v, name) \<in> (calls defs)\<^sup>+"
  shows "(x, x) \<in> (calls defs)\<^sup>+"
  using assms
proof (induction n arbitrary: name s)
  case (Suc n)
  show ?case
  proof (cases "map_of (fst s) name")
    case None
    then obtain d where d: "by_name defs name = Some d"
      and e: "each (visit n defs) (next_names defs name d) ((name, Visiting) # fst s, snd s) = Inl (CycleAt x)"
      using Suc.prems(1) by (auto simp: and_then_eq_Inl split: option.splits)
    let ?V = "visiting ((name, Visiting) # fst s, snd s)"
    have "\<exists>c u. c \<in> set (next_names defs name d) \<and> visiting u = ?V \<and> visit n defs c u = Inl (CycleAt x)"
      by (rule each_Inl [OF e]) (use visit_visiting in \<open>force+\<close>)
    then obtain c u where c: "c \<in> set (next_names defs name d)" "visiting u = ?V" "visit n defs c u = Inl (CycleAt x)"
      by blast
    have edge: "(name, c) \<in> calls defs" using c(1) d by (simp add: calls_def)
    show ?thesis
    proof (rule Suc.IH [OF c(3)])
      fix v assume "v \<in> visiting u"
      then have "v = name \<or> v \<in> visiting s" unfolding c(2) by (auto simp: visiting_def split: if_splits)
      with Suc.prems(2) edge show "(v, c) \<in> (calls defs)\<^sup>+" by (auto intro: trancl_into_trancl)
    qed
  next
    case (Some m)
    with Suc.prems show ?thesis by (cases m) (auto simp: visiting_def)
  qed
qed simp

text \<open>The fuel: as many as there are names without a mark.\<close>

definition unmarked :: "process_definition list \<Rightarrow> search \<Rightarrow> nat" where
  "unmarked defs s = card {b \<in> def_name ` set defs. map_of (fst s) b = None}"

definition marks_more :: "search \<Rightarrow> search \<Rightarrow> bool" where
  "marks_more s t \<longleftrightarrow> (\<forall>b. map_of (fst s) b \<noteq> None \<longrightarrow> map_of (fst t) b \<noteq> None)"

lemma marks_more_card: "marks_more s t \<Longrightarrow> unmarked defs t \<le> unmarked defs s"
  unfolding unmarked_def by (rule card_mono) (auto simp: marks_more_def)

lemma visit_marks_more: "visit n defs name s = Inr s' \<Longrightarrow> marks_more s s'"
proof (induction n arbitrary: name s s')
  case (Suc n)
  show ?case
  proof (cases "map_of (fst s) name")
    case None
    with Suc.prems obtain d t where t: "each (visit n defs) (next_names defs name d) ((name, Visiting) # fst s, snd s) = Inr t"
      "s' = ((name, Done) # fst t, snd t @ [d])"
      by (auto simp: and_then_eq_Inr split: option.splits)
    have "marks_more s t"
      by (rule each_Inr_invariant [OF t(1), where I = "marks_more s"])
        (auto simp: marks_more_def dest: Suc.IH [unfolded marks_more_def])
    with t(2) show ?thesis by (auto simp: marks_more_def)
  next
    case (Some m)
    with Suc.prems show ?thesis by (cases m) (auto simp: marks_more_def)
  qed
qed simp

lemma visit_enough:
  assumes "name \<in> def_name ` set defs" and "unmarked defs s < n"
  shows "visit n defs name s \<noteq> Inl SearchTooDeep \<and> visit n defs name s \<noteq> Inl (NoSuchName x)"
  using assms
proof (induction n arbitrary: name s)
  case (Suc n)
  show ?case
  proof (cases "map_of (fst s) name")
    case None
    from Suc.prems(1) obtain d where d: "by_name defs name = Some d" using by_name_None [of defs name] by auto
    let ?s = "((name, Visiting) # fst s, snd s)"
    have "{b \<in> def_name ` set defs. map_of (fst ?s) b = None} \<subset> {b \<in> def_name ` set defs. map_of (fst s) b = None}"
      using None Suc.prems(1) by (auto split: if_splits)
    then have "unmarked defs ?s < unmarked defs s" unfolding unmarked_def by (intro psubset_card_mono) simp_all
    with Suc.prems(2) have less: "unmarked defs ?s < n" by simp
    have "each (visit n defs) (next_names defs name d) ?s \<noteq> Inl e" if e: "e = SearchTooDeep \<or> e = NoSuchName x" for e
    proof
      assume "each (visit n defs) (next_names defs name d) ?s = Inl e"
      then have "\<exists>c u. c \<in> set (next_names defs name d) \<and> marks_more ?s u \<and> visit n defs c u = Inl e"
        by (rule each_Inl) (use visit_marks_more in \<open>force simp: marks_more_def\<close>)+
      then obtain c u where c: "c \<in> set (next_names defs name d)" "marks_more ?s u" "visit n defs c u = Inl e"
        by blast
      then have "unmarked defs u < n" using marks_more_card [OF c(2)] less by (rule_tac le_less_trans)
      moreover have "c \<in> def_name ` set defs" using c(1) by_name_None [of defs c] by (auto simp: next_names_def)
      ultimately show False using Suc.IH [of c u] c(3) e by auto
    qed
    then show ?thesis using None d by (auto simp: and_then_eq_Inl)
  next
    case (Some m)
    then show ?thesis by (cases m) simp_all
  qed
qed simp

subsection \<open>Children first, or a cycle\<close>

declare visit.simps(2) [simp del]

lemma topo_sort_cases:
  assumes "topo_sort defs = r"
  shows "(\<exists>out. r = Inr out) \<or> (\<exists>x. r = Inl (CycleAt x))"
proof (cases r)
  case (Inl e)
  let ?f = "visit (Suc (length defs)) defs" and ?s = "([], []) :: search"
  have card: "unmarked defs ?s < Suc (length defs)"
    using card_length [of "map def_name defs"] by (simp add: unmarked_def le_imp_less_Suc)
  from assms Inl have "each ?f (map def_name defs) ?s = Inl e" by (simp add: topo_sort_def and_then_eq_Inl)
  then have "\<exists>c u. c \<in> set (map def_name defs) \<and> marks_more ?s u \<and> ?f c u = Inl e"
    by (rule each_Inl) (use visit_marks_more in \<open>force simp: marks_more_def\<close>)+
  then obtain c u where c: "c \<in> def_name ` set defs" "marks_more ?s u" "?f c u = Inl e" by (metis list.set_map)
  then have "unmarked defs u < Suc (length defs)" using marks_more_card [OF c(2)] card by (rule_tac le_less_trans)
  from visit_enough [OF c(1) this] c(3) have "e \<noteq> SearchTooDeep \<and> (\<forall>x. e \<noteq> NoSuchName x)" by auto
  with Inl show ?thesis by (cases e) auto
qed auto

lemma topo_sort_sorted:
  assumes "topo_sort defs = Inr out"
  shows "distinct (map def_name out) \<and> def_name ` set out = def_name ` set defs \<and> set out \<subseteq> set defs
    \<and> (\<forall>k < length out. \<forall>c. (def_name (out ! k), c) \<in> calls defs \<longrightarrow> c \<in> def_name ` set (take k out))"
proof -
  let ?f = "visit (Suc (length defs)) defs"
  from assms obtain s where s: "each ?f (map def_name defs) ([], []) = Inr s" "out = snd s"
    by (auto simp: topo_sort_def and_then_eq_Inr)
  have "search_ok defs ([], [])" by (simp add: search_ok_def)
  with s(1) have ok: "search_ok defs s" by (rule each_Inr_invariant) (rule visit_ok)
  have out: "by_name defs (def_name d) = Some d" if "d \<in> set out" for d
    using that ok s(2) by (auto simp: search_ok_def in_set_conv_nth)
  then have sub: "set out \<subseteq> set defs" using by_name_Some by blast
  have "map_of (fst s) c = Some Done" if "c \<in> def_name ` set defs" for c
  proof (rule each_visit_done [OF s(1) _ visit_mono])
    show "c \<in> set (map def_name defs)" using that by simp
  qed
  with ok s(2) have "def_name ` set defs \<subseteq> def_name ` set out" by (auto simp: search_ok_def)
  with sub ok s(2) show ?thesis by (auto simp: search_ok_def)
qed

lemma ordered_acyclic:
  assumes "\<forall>k < length out. \<forall>c. (name (out ! k), c) \<in> E \<longrightarrow> c \<in> name ` set (take k out)"
      and "(a, b) \<in> E\<^sup>+" and "k < length out" and "name (out ! k) = a"
  shows "b \<in> name ` set (take k out)"
  using assms(2)
proof (induction rule: trancl_induct)
  case (base b)
  with assms(1,3,4) show ?case by auto
next
  case (step b c)
  then obtain j where j: "j < k" "j < length out" "name (out ! j) = b"
    by (auto simp: in_set_conv_nth)
  with assms(1) step.hyps(2) have "c \<in> name ` set (take j out)" by auto
  moreover have "set (take j out) \<subseteq> set (take k out)" using j(1) by (simp add: set_take_subset_set_take)
  ultimately show ?case by blast
qed

text \<open>
  C37: a batch is put in an order in which every definition comes after the definitions of the batch
  it calls, each name once and none missing; or a cycle is reported, and exactly when the
  definitions call each other in a cycle (a process that calls itself is none). The search always
  ends.
\<close>

theorem topo_sort_children_first:
  "(case topo_sort defs of
      Inr out \<Rightarrow> distinct (map def_name out) \<and> def_name ` set out = def_name ` set defs \<and> set out \<subseteq> set defs
        \<and> (\<forall>k < length out. \<forall>c. (def_name (out ! k), c) \<in> calls defs \<longrightarrow> c \<in> def_name ` set (take k out))
        \<and> acyclic (calls defs)
    | Inl e \<Rightarrow> (\<exists>x. e = CycleAt x \<and> (x, x) \<in> (calls defs)\<^sup>+))"
proof (cases "topo_sort defs")
  case (Inr out)
  note srt = topo_sort_sorted [OF Inr]
  have "(a, a) \<notin> (calls defs)\<^sup>+" for a
  proof
    assume cyc: "(a, a) \<in> (calls defs)\<^sup>+"
    then obtain c where "(a, c) \<in> calls defs" by (meson tranclD)
    then have "a \<in> def_name ` set defs" using by_name_None [of defs a] by (auto simp: calls_def)
    with srt have "a \<in> def_name ` set out" by blast
    then obtain k where k: "k < length out" "def_name (out ! k) = a" by (metis image_iff in_set_conv_nth)
    with srt cyc have "a \<in> def_name ` set (take k out)" by (intro ordered_acyclic [of out def_name]) auto
    then obtain j where "j < k" "def_name (out ! j) = a" using k(1) by (auto simp: in_set_conv_nth)
    with k srt show False by (auto simp: distinct_conv_nth)
  qed
  with srt Inr show ?thesis by (simp add: acyclic_def)
next
  case (Inl e)
  with topo_sort_cases [OF Inl] obtain x where x: "e = CycleAt x" by auto
  let ?f = "visit (Suc (length defs)) defs"
  from Inl have "each ?f (map def_name defs) ([], []) = Inl e" by (simp add: topo_sort_def and_then_eq_Inl)
  then have "\<exists>c u. c \<in> set (map def_name defs) \<and> visiting u = visiting ([], []) \<and> ?f c u = Inl e"
    by (rule each_Inl) (use visit_visiting in force)+
  then obtain c u where "?f c u = Inl (CycleAt x)" "visiting u = {}" using x by (auto simp: visiting_def)
  from visit_cycle [OF this(1)] this(2) Inl x show ?thesis by simp
qed

text \<open>A parent submitted before the child it calls.\<close>

definition calling :: "string \<Rightarrow> string list \<Rightarrow> process_definition" where
  "calling name kids = \<lparr>def_name = name,
     def_tasks = map (\<lambda>c. \<lparr>task_id = c,
       task_action = Some \<lparr>act_type = Child, act_endpoint = [], act_headers = [], act_accepted_status = [], act_result_schema = None,
         act_name = c, act_version = 0, act_input = None, act_children = [], act_ms = []\<rparr>,
       task_timeout_ms = 0, task_only_once = None, task_on_error = [], task_output = None, task_switch = []\<rparr>) kids,
     def_input_schema = None, def_config_schema = None, def_output = None\<rparr>"

theorem topo_sort_children_first_witness:
  "\<exists>out. topo_sort [calling ''p'' [''c'', ''p''], calling ''c'' []] = Inr out \<and> map def_name out = [''c'', ''p'']
     \<and> acyclic (calls [calling ''p'' [''c'', ''p''], calling ''c'' []])"
proof -
  let ?r = "topo_sort [calling ''p'' [''c'', ''p''], calling ''c'' []]"
  have "(case ?r of Inr out \<Rightarrow> map def_name out | Inl e \<Rightarrow> []) = [''c'', ''p'']" by code_simp
  then obtain out where "?r = Inr out" "map def_name out = [''c'', ''p'']" by (auto split: sum.splits)
  with topo_sort_children_first [of "[calling ''p'' [''c'', ''p''], calling ''c'' []]"] show ?thesis by auto
qed

end
