(* ===== verification/Registry.thy ===== *)
theory Registry
  imports Pages Rows TopoSort "HOL-Library.Product_Lexorder"
begin

section \<open>The registry of definitions (\<open>internal/db/db_registry.go\<close>)\<close>

text \<open>
  Versions of definitions with the child versions they were registered with, and channels: names
  that point at one version of a process each. A definition is stored as JSON; it is kept here as
  the value it is read back as. Statements are functions of the tables.
\<close>

record def_row =
  df_name :: string
  df_version :: int
  df_def :: process_definition
  df_hash :: string
  df_created_at :: int

record dep_row =
  dp_parent :: string
  dp_parent_version :: int
  dp_task :: string
  dp_key :: string
  dp_child :: string
  dp_child_version :: int

record channel_row =
  ch_name :: string
  ch_channel :: string
  ch_version :: int
  ch_updated_at :: int

record registry =
  g_defs :: "def_row list"
  g_deps :: "dep_row list"
  g_channels :: "channel_row list"

datatype registry_error =
    NoDefinition string int
  | NoVersions string
  | NoHash string
  | NoDependency string int string string
  | NoChannel string string
  | DuplicateDependency string string

subsection \<open>Statements\<close>

definition is_version :: "string \<Rightarrow> int \<Rightarrow> def_row \<Rightarrow> bool" where
  "is_version name v d \<longleftrightarrow> df_name d = name \<and> df_version d = v"

definition find_definition :: "registry \<Rightarrow> string \<Rightarrow> int \<Rightarrow> def_row option" where
  "find_definition g name v = find (is_version name v) (g_defs g)"

text \<open>\<open>InsertDefinition\<close>: on conflict only the definition is replaced.\<close>

definition insert_definition :: "string \<Rightarrow> int \<Rightarrow> process_definition \<Rightarrow> string \<Rightarrow> int \<Rightarrow> registry \<Rightarrow> registry" where
  "insert_definition name v d hash now g =
     (if find_definition g name v = None
      then g\<lparr>g_defs := g_defs g @ [\<lparr>df_name = name, df_version = v, df_def = d, df_hash = hash, df_created_at = now\<rparr>]\<rparr>
      else g\<lparr>g_defs := update_where (is_version name v) (\<lambda>r. r\<lparr>df_def := d\<rparr>) (g_defs g)\<rparr>)"

definition delete_dependencies :: "string \<Rightarrow> int \<Rightarrow> registry \<Rightarrow> registry" where
  "delete_dependencies name v g =
     g\<lparr>g_deps := filter (\<lambda>d. \<not> (dp_parent d = name \<and> dp_parent_version d = v)) (g_deps g)\<rparr>"

definition same_dependency :: "dep_row \<Rightarrow> dep_row \<Rightarrow> bool" where
  "same_dependency d e \<longleftrightarrow> dp_parent d = dp_parent e \<and> dp_parent_version d = dp_parent_version e
     \<and> dp_task d = dp_task e \<and> dp_key d = dp_key e"

definition insert_dependency :: "dep_row \<Rightarrow> registry \<Rightarrow> registry_error + registry" where
  "insert_dependency d g =
     (if list_ex (same_dependency d) (g_deps g) then Inl (DuplicateDependency (dp_task d) (dp_key d))
      else Inr (g\<lparr>g_deps := g_deps g @ [d]\<rparr>))"

definition is_channel :: "string \<Rightarrow> string \<Rightarrow> channel_row \<Rightarrow> bool" where
  "is_channel name c r \<longleftrightarrow> ch_name r = name \<and> ch_channel r = c"

definition upsert_channel :: "string \<Rightarrow> string \<Rightarrow> int \<Rightarrow> int \<Rightarrow> registry \<Rightarrow> registry" where
  "upsert_channel name c v now g =
     (if find (is_channel name c) (g_channels g) = None
      then g\<lparr>g_channels := g_channels g @ [\<lparr>ch_name = name, ch_channel = c, ch_version = v, ch_updated_at = now\<rparr>]\<rparr>
      else g\<lparr>g_channels := update_where (is_channel name c) (\<lambda>r. r\<lparr>ch_version := v, ch_updated_at := now\<rparr>) (g_channels g)\<rparr>)"

definition delete_channel :: "string \<Rightarrow> string \<Rightarrow> registry \<Rightarrow> registry" where
  "delete_channel name c g = g\<lparr>g_channels := filter (\<lambda>r. \<not> is_channel name c r) (g_channels g)\<rparr>"

text \<open>\<open>SELECT MAX(version)\<close>: no value when no row matches.\<close>

definition max_version :: "(def_row \<Rightarrow> bool) \<Rightarrow> registry \<Rightarrow> int option" where
  "max_version P g = (case map df_version (filter P (g_defs g)) of [] \<Rightarrow> None | v # vs \<Rightarrow> Some (fold max vs v))"

subsection \<open>Operations\<close>

definition save_definition ::
  "int \<Rightarrow> process_definition \<Rightarrow> int \<Rightarrow> dep_row list \<Rightarrow> string \<Rightarrow> string \<Rightarrow> registry \<Rightarrow> registry_error + registry" where
  "save_definition now d version deps hash channel g =
     and_then (each insert_dependency deps
        (delete_dependencies (def_name d) version (insert_definition (def_name d) version d hash now g))) (\<lambda>g1.
       Inr (if channel \<noteq> [] then upsert_channel (def_name d) channel version now g1 else g1))"

definition get_registered :: "registry \<Rightarrow> string \<Rightarrow> int \<Rightarrow> registry_error + process_definition" where
  "get_registered g name v = (case find_definition g name v of None \<Rightarrow> Inl (NoDefinition name v) | Some r \<Rightarrow> Inr (df_def r))"

definition latest_of :: "registry \<Rightarrow> string \<Rightarrow> registry_error + int" where
  "latest_of g name = (case max_version (\<lambda>r. df_name r = name) g of None \<Rightarrow> Inl (NoVersions name) | Some v \<Rightarrow> Inr v)"

definition find_version_by_hash :: "registry \<Rightarrow> string \<Rightarrow> string \<Rightarrow> registry_error + int" where
  "find_version_by_hash g name h =
     (case max_version (\<lambda>r. df_name r = name \<and> df_hash r = h) g of None \<Rightarrow> Inl (NoHash name) | Some v \<Rightarrow> Inr v)"

definition get_dependency_version :: "registry \<Rightarrow> string \<Rightarrow> int \<Rightarrow> string \<Rightarrow> string \<Rightarrow> registry_error + int" where
  "get_dependency_version g parent v t k =
     (case find (\<lambda>d. dp_parent d = parent \<and> dp_parent_version d = v \<and> dp_task d = t \<and> dp_key d = k) (g_deps g) of
        None \<Rightarrow> Inl (NoDependency parent v t k) | Some d \<Rightarrow> Inr (dp_child_version d))"

definition save_channel :: "int \<Rightarrow> string \<Rightarrow> string \<Rightarrow> int \<Rightarrow> registry \<Rightarrow> registry" where
  "save_channel now name c v g = upsert_channel name c v now g"

definition get_channel :: "registry \<Rightarrow> string \<Rightarrow> string \<Rightarrow> registry_error + int" where
  "get_channel g name c = (case find (is_channel name c) (g_channels g) of None \<Rightarrow> Inl (NoChannel name c) | Some r \<Rightarrow> Inr (ch_version r))"

type_synonym versioned_def = "int \<times> process_definition"

text \<open>The join of \<open>LoadDefinitionsOnChannel\<close>, by name.\<close>

definition load_definitions_on_channel :: "registry \<Rightarrow> string \<Rightarrow> versioned_def list" where
  "load_definitions_on_channel g c =
     concat (map (\<lambda>r. map (\<lambda>d. (ch_version r, df_def d)) (filter (is_version (ch_name r) (ch_version r)) (g_defs g)))
       (sort_key ch_name (filter (\<lambda>r. ch_channel r = c) (g_channels g))))"

record parent_ref =
  pf_parent :: string
  pf_parent_version :: int
  pf_definition :: process_definition
  pf_child :: string
  pf_baked :: int

definition parent_refs :: "registry \<Rightarrow> string \<Rightarrow> string list \<Rightarrow> parent_ref list" where
  "parent_refs g c names =
     concat (map (\<lambda>d.
       concat (map (\<lambda>r.
         map (\<lambda>f. \<lparr>pf_parent = dp_parent d, pf_parent_version = ch_version r, pf_definition = df_def f,
                   pf_child = dp_child d, pf_baked = dp_child_version d\<rparr>)
           (filter (is_version (dp_parent d) (ch_version r)) (g_defs g)))
         (filter (\<lambda>r. is_channel (dp_parent d) c r \<and> dp_parent_version d = ch_version r) (g_channels g))))
       (filter (\<lambda>d. dp_child d \<in> set names) (g_deps g)))"

text \<open>
  \<open>FindParentsOf\<close>. Its map of parents is ranged over in no fixed order; here in the order of their
  first row.
\<close>

definition stale_ref :: "(string \<times> int) list \<Rightarrow> parent_ref \<Rightarrow> bool" where
  "stale_ref versions p \<longleftrightarrow> pf_baked p \<noteq> (case map_of versions (pf_child p) of None \<Rightarrow> 0 | Some v \<Rightarrow> v)"

definition find_parents_of :: "registry \<Rightarrow> string \<Rightarrow> (string \<times> int) list \<Rightarrow> versioned_def list \<times> versioned_def list" where
  "find_parents_of g c versions =
     (if versions = [] then ([], [])
      else let refs = parent_refs g c (map fst versions);
               heads = map (\<lambda>n. the (find (\<lambda>p. pf_parent p = n) refs)) (rev (remdups (rev (map pf_parent refs))));
               stale = (\<lambda>h. \<exists>p \<in> set refs. pf_parent p = pf_parent h \<and> stale_ref versions p);
               pair = (\<lambda>h. (pf_parent_version h, pf_definition h))
           in (map pair (filter stale heads), map pair (filter (\<lambda>h. \<not> stale h) heads)))"

record stale_row =
  sr_parent :: string
  sr_parent_version :: int
  sr_task :: string
  sr_child :: string
  sr_baked :: int
  sr_channel_version :: int

definition find_stale_refs :: "registry \<Rightarrow> string \<Rightarrow> stale_row list" where
  "find_stale_refs g c =
     concat (map (\<lambda>d.
       concat (map (\<lambda>r.
         map (\<lambda>r2. \<lparr>sr_parent = dp_parent d, sr_parent_version = ch_version r, sr_task = dp_task d, sr_child = dp_child d,
                    sr_baked = dp_child_version d, sr_channel_version = ch_version r2\<rparr>)
           (filter (\<lambda>r2. is_channel (dp_child d) c r2 \<and> dp_child_version d < ch_version r2) (g_channels g)))
         (filter (\<lambda>r. is_channel (dp_parent d) c r \<and> dp_parent_version d = ch_version r) (g_channels g))))
       (g_deps g))"

subsection \<open>Listings\<close>

definition definition_paginator :: paginator where
  "definition_paginator =
     \<lparr>pg_table = ''process_definitions'', pg_columns = ''name, version, definition'', pg_base_where = [],
      pg_sorts = [(''name'', [\<lparr>kc_col = ''name'', kc_kind = KindText\<rparr>, \<lparr>kc_col = ''version'', kc_kind = KindInt\<rparr>])],
      pg_filter_cols = [], pg_def_sort = ''name'', pg_def_desc = False, pg_def_limit = 20, pg_max_limit = 100\<rparr>"

definition channel_paginator :: paginator where
  "channel_paginator =
     \<lparr>pg_table = ''process_channels'', pg_columns = ''channel, version'', pg_base_where = [],
      pg_sorts = [(''channel'', [\<lparr>kc_col = ''channel'', kc_kind = KindText\<rparr>])],
      pg_filter_cols = [''name''], pg_def_sort = ''channel'', pg_def_desc = False, pg_def_limit = 20, pg_max_limit = 100\<rparr>"

definition definition_col :: "def_row \<Rightarrow> string \<Rightarrow> key_val" where
  "definition_col r c = (if c = ''name'' then TextVal (df_name r) else if c = ''version'' then IntVal (df_version r) else TextVal [])"

definition channel_col :: "channel_row \<Rightarrow> string \<Rightarrow> key_val" where
  "channel_col r c = (if c = ''name'' then TextVal (ch_name r) else if c = ''channel'' then TextVal (ch_channel r) else TextVal [])"

definition definition_cursor_vals :: "string \<Rightarrow> versioned_def \<Rightarrow> key_val list" where
  "definition_cursor_vals srt vd = [TextVal (def_name (snd vd)), IntVal (fst vd)]"

definition channel_cursor_vals :: "string \<Rightarrow> channel_row \<Rightarrow> key_val list" where
  "channel_cursor_vals srt r = [TextVal (ch_channel r)]"

definition list_definitions ::
  "(cursor_token \<Rightarrow> string) \<Rightarrow> (string \<Rightarrow> cursor_token option) \<Rightarrow> page_req \<Rightarrow> registry \<Rightarrow>
     page_error + (versioned_def list \<times> page_info)" where
  "list_definitions enc dec req g =
     and_then (build dec (query definition_paginator req)) (\<lambda>b.
       and_then (list_page enc (\<lambda>s r. False) definition_col (\<lambda>s r. definition_cursor_vals s (df_version r, df_def r)) b (g_defs g))
         (\<lambda>(rows, info). Inr (map (\<lambda>r. (df_version r, df_def r)) rows, info)))"

definition list_channels ::
  "(cursor_token \<Rightarrow> string) \<Rightarrow> (string \<Rightarrow> cursor_token option) \<Rightarrow> string \<Rightarrow> page_req \<Rightarrow> registry \<Rightarrow>
     page_error + ((string \<times> int) list \<times> page_info)" where
  "list_channels enc dec name req g =
     and_then (build dec (eq ''name'' (TextVal name) (query channel_paginator req))) (\<lambda>b.
       and_then (list_page enc (\<lambda>s r. False) channel_col channel_cursor_vals b (g_channels g))
         (\<lambda>(rows, info). Inr (map (\<lambda>r. (ch_channel r, ch_version r)) rows, info)))"

end
