(* ===== verification/Apply.thy ===== *)
theory Apply
  imports Registry Definition
begin

section \<open>Applying definitions (\<open>internal/api/handlers.go\<close>)\<close>

text \<open>
  The batch apply: order the batch, assign versions, pin the versions of the children, reuse a
  version with the same content, validate, save, move the channel; then bring the parents of what
  changed up to date. Besides the registry it uses, as arguments, SHA-256 and the JSON text of a
  definition (standard library), the environment, and three checks of other packages of the
  repository, here yes or no: the normal form of the schemas, the data-flow check and the
  check of child inputs. A request is one function of the registry, so requests are served one at
  a time here; in the code its statements are separate transactions, which can overlap with those of
  other requests (\<open>concurrent_applies_overwrite\<close> in \<open>RegistryProps\<close>).
\<close>

datatype apply_error =
    SortError sort_error
  | Registry registry_error
  | NotOnChannel string string string string
  | BadSchema string
  | BadDefinition definition_error
  | BadDataFlow string
  | BadChildInput string
  | BadConfig definition_error
  | BadRequest string
  | CascadeTooLong

text \<open>A getter of definitions: by name and version, and the latest version of a name.\<close>

type_synonym getter = "(string \<Rightarrow> int \<Rightarrow> process_definition option) \<times> (string \<Rightarrow> int option)"

record checks =
  ck_sha :: "string \<Rightarrow> string"
  ck_json :: "process_definition \<Rightarrow> string"
  ck_normalize :: "process_definition \<Rightarrow> process_definition option"
  ck_generate :: "process_definition \<Rightarrow> bool"
  ck_children :: "process_definition \<Rightarrow> int \<Rightarrow> getter \<Rightarrow> bool"
  ck_env :: "string \<Rightarrow> string option"

definition right_or :: "('e \<Rightarrow> 'f) \<Rightarrow> 'e + 'a \<Rightarrow> 'f + 'a" where
  "right_or f r = (case r of Inl e \<Rightarrow> Inl (f e) | Inr x \<Rightarrow> Inr x)"

definition default_channel :: string where "default_channel = ''latest''"

subsection \<open>Versions of the children\<close>

definition resolve_child_version ::
  "registry \<Rightarrow> string \<Rightarrow> int \<Rightarrow> string \<Rightarrow> string \<Rightarrow> string \<Rightarrow> (string \<times> int) list \<Rightarrow> apply_error + int" where
  "resolve_child_version g child v t key channel batch =
     (if v \<noteq> 0 then Inr v
      else case map_of batch child of
             Some b \<Rightarrow> Inr b
           | None \<Rightarrow> (case get_channel g child channel of
                 Inl e \<Rightarrow> Inl (NotOnChannel t child key channel)
               | Inr c \<Rightarrow> Inr c))"

definition dependency_of ::
  "registry \<Rightarrow> process_definition \<Rightarrow> int \<Rightarrow> string \<Rightarrow> (string \<times> int) list \<Rightarrow> string \<times> string \<times> string \<times> int \<Rightarrow>
     apply_error + dep_row list" where
  "dependency_of g d self channel batch =
     (\<lambda>(t, key, child, v).
        if child = def_name d \<and> (v = 0 \<or> v = self) then Inr []
        else and_then (resolve_child_version g child v t key channel batch) (\<lambda>version.
               Inr [\<lparr>dp_parent = def_name d, dp_parent_version = self, dp_task = t, dp_key = key,
                     dp_child = child, dp_child_version = version\<rparr>]))"

text \<open>The child references of a definition: task, key, name and the version asked for.\<close>

definition child_refs :: "process_definition \<Rightarrow> (string \<times> string \<times> string \<times> int) list" where
  "child_refs d = concat (map (\<lambda>t.
     case task_action t of None \<Rightarrow> []
     | Some a \<Rightarrow> (case act_type a of
          Child \<Rightarrow> [(task_id t, [], act_name a, act_version a)]
        | ChildParallel \<Rightarrow> map (\<lambda>(k, e). (task_id t, k, ce_name e, ce_version e)) (act_children a)
        | _ \<Rightarrow> [])) (def_tasks d))"

definition build_resolved_deps ::
  "registry \<Rightarrow> process_definition \<Rightarrow> int \<Rightarrow> string \<Rightarrow> (string \<times> int) list \<Rightarrow> apply_error + dep_row list" where
  "build_resolved_deps g d self channel batch =
     and_then (traverse (dependency_of g d self channel batch) (child_refs d)) (\<lambda>rows. Inr (concat rows))"

definition deps_lookup :: "dep_row list \<Rightarrow> string \<Rightarrow> string \<Rightarrow> int option" where
  "deps_lookup deps t k = map_of (rev (map (\<lambda>d. ((dp_task d, dp_key d), dp_child_version d)) deps)) (t, k)"

definition apply_deps_to_def_copy :: "process_definition \<Rightarrow> dep_row list \<Rightarrow> process_definition" where
  "apply_deps_to_def_copy d deps =
     d\<lparr>def_tasks := map (\<lambda>t.
        case task_action t of None \<Rightarrow> t
        | Some a \<Rightarrow>
           (case act_type a of
              Child \<Rightarrow> (case deps_lookup deps (task_id t) [] of None \<Rightarrow> t
                         | Some v \<Rightarrow> t\<lparr>task_action := Some (a\<lparr>act_version := v\<rparr>)\<rparr>)
            | ChildParallel \<Rightarrow> t\<lparr>task_action := Some (a\<lparr>act_children := map (\<lambda>(k, e).
                   (k, case deps_lookup deps (task_id t) k of None \<Rightarrow> e | Some v \<Rightarrow> e\<lparr>ce_version := v\<rparr>)) (act_children a)\<rparr>)\<rparr>
            | _ \<Rightarrow> t)) (def_tasks d)\<rparr>"

text \<open>The digest of a definition with its pinned children.\<close>

definition dep_text :: "dep_row \<Rightarrow> string" where
  "dep_text d = CHR 0x00 # dp_task d @ CHR 0x00 # dp_key d @ CHR 0x00 # dp_child d @ CHR 0x00 # dec_int (dp_child_version d)"

definition content_hash :: "(string \<Rightarrow> string) \<Rightarrow> string \<Rightarrow> dep_row list \<Rightarrow> string" where
  "content_hash sha json deps = sha (json @ concat (map dep_text (sort_key (\<lambda>d. (dp_task d, dp_key d)) deps)))"

subsection \<open>One definition of a batch\<close>

text \<open>The definitions of the batch are normalized in place as their turn comes.\<close>

record apply_state =
  as_reg :: registry
  as_batch :: "process_definition list"
  as_versions :: "(string \<times> int) list"
  as_results :: "(string \<times> int \<times> bool) list"

definition batch_getter :: "process_definition list \<Rightarrow> (string \<times> int) list \<Rightarrow> registry \<Rightarrow> getter" where
  "batch_getter defs versions g =
     (\<lambda>name v. case find (\<lambda>d. def_name d = name \<and> (v = 0 \<or> (case map_of versions name of None \<Rightarrow> 0 | Some w \<Rightarrow> w) = v)) defs of
         Some d \<Rightarrow> Some d
       | None \<Rightarrow> (case get_registered g name v of Inl e \<Rightarrow> None | Inr d \<Rightarrow> Some d),
      \<lambda>name. case map_of versions name of Some v \<Rightarrow> Some v
       | None \<Rightarrow> (case latest_of g name of Inl e \<Rightarrow> None | Inr v \<Rightarrow> Some v))"

definition next_version :: "registry \<Rightarrow> string \<Rightarrow> int" where
  "next_version g name = (case latest_of g name of Inl e \<Rightarrow> 1 | Inr v \<Rightarrow> v + 1)"

definition ensure_latest_channel :: "int \<Rightarrow> string \<Rightarrow> int \<Rightarrow> registry \<Rightarrow> registry" where
  "ensure_latest_channel now name v g =
     (case get_channel g name default_channel of
        Inr c \<Rightarrow> g
      | Inl e \<Rightarrow> save_channel now name default_channel v g)"

definition applied :: "string \<Rightarrow> int \<Rightarrow> bool \<Rightarrow> registry \<Rightarrow> apply_state \<Rightarrow> apply_state" where
  "applied name v saved g s = s\<lparr>as_reg := g, as_versions := (name, v) # as_versions s, as_results := as_results s @ [(name, v, saved)]\<rparr>"

definition normalized_in :: "process_definition \<Rightarrow> apply_state \<Rightarrow> apply_state" where
  "normalized_in d s = s\<lparr>as_batch := map (\<lambda>x. if def_name x = def_name d then d else x) (as_batch s)\<rparr>"

definition apply_one ::
  "checks \<Rightarrow> int \<Rightarrow> string \<Rightarrow> process_definition \<Rightarrow> apply_state \<Rightarrow> apply_error + apply_state" where
  "apply_one ck now channel d0 s0 =
     (case ck_normalize ck d0 of
        None \<Rightarrow> Inl (BadSchema (def_name d0))
      | Some d \<Rightarrow>
        (let s = normalized_in d s0; g = as_reg s; v = next_version g (def_name d) in
         and_then (build_resolved_deps g d v channel (as_versions s)) (\<lambda>deps.
           (let hash = content_hash (ck_sha ck) (ck_json ck d) deps in
            case find_version_by_hash g (def_name d) hash of
              Inr old \<Rightarrow> Inr (applied (def_name d) old False
                (ensure_latest_channel now (def_name d) old (save_channel now (def_name d) channel old g)) s)
            | Inl e \<Rightarrow>
               (let copy = apply_deps_to_def_copy d deps in
                case validate_definition d of
                  Some err \<Rightarrow> Inl (BadDefinition err)
                | None \<Rightarrow>
                  if \<not> ck_generate ck copy then Inl (BadDataFlow (def_name d))
                  else if \<not> ck_children ck copy v (batch_getter (as_batch s) (as_versions s) g) then Inl (BadChildInput (def_name d))
                  else and_then (right_or BadConfig (resolve_config d (ck_env ck))) (\<lambda>c.
                    and_then (right_or Registry (save_definition now d v deps hash channel g)) (\<lambda>g1.
                      Inr (applied (def_name d) v True (ensure_latest_channel now (def_name d) v g1) s))))))))"

subsection \<open>Bringing the parents up to date\<close>

definition cascade_one ::
  "checks \<Rightarrow> int \<Rightarrow> string \<Rightarrow> versioned_def \<Rightarrow> apply_state \<Rightarrow> apply_error + apply_state" where
  "cascade_one ck now channel vd s =
     (let d = snd vd; g = as_reg s in
      if map_of (as_versions s) (def_name d) \<noteq> None then Inr s
      else
        let v = next_version g (def_name d) in
        and_then (build_resolved_deps g d v channel (as_versions s)) (\<lambda>deps.
          (let hash = content_hash (ck_sha ck) (ck_json ck d) deps in
           case find_version_by_hash g (def_name d) hash of
             Inr old \<Rightarrow> Inr (applied (def_name d) old False (save_channel now (def_name d) channel old g) s)
           | Inl e \<Rightarrow>
              (let copy = apply_deps_to_def_copy d deps in
               if \<not> ck_generate ck copy then Inl (BadDataFlow (def_name d))
               else if \<not> ck_children ck copy v (batch_getter [] [] g) then Inl (BadChildInput (def_name d))
               else and_then (right_or Registry (save_definition now d v deps hash channel g)) (\<lambda>g1.
                      Inr (applied (def_name d) v True g1 s))))))"

text \<open>
  An apply that fails keeps what it saved before: each definition is its own transaction. Its error
  carries the registry it leaves.
\<close>

type_synonym failed = "apply_error \<times> registry"

definition at_error :: "apply_state \<Rightarrow> apply_error + apply_state \<Rightarrow> failed + apply_state" where
  "at_error s r = right_or (\<lambda>e. (e, as_reg s)) r"

text \<open>
  Rounds until none updates anything; the parents found up to date in the last round are reported.
  Every round but the last updates a name for the first time, so one more round than there are
  channels is enough.
\<close>

fun cascade_rounds ::
  "nat \<Rightarrow> checks \<Rightarrow> int \<Rightarrow> string \<Rightarrow> apply_state \<Rightarrow> failed + (apply_state \<times> versioned_def list)" where
  "cascade_rounds 0 ck now channel s = Inl (CascadeTooLong, as_reg s)"
| "cascade_rounds (Suc n) ck now channel s =
     (let (stale, current) = find_parents_of (as_reg s) channel (as_versions s) in
      and_then (each (\<lambda>vd t. at_error t (cascade_one ck now channel vd t)) stale s) (\<lambda>s1.
        if length (as_versions s1) = length (as_versions s) then Inr (s1, current)
        else cascade_rounds n ck now channel s1))"

definition cascade_update :: "checks \<Rightarrow> int \<Rightarrow> string \<Rightarrow> apply_state \<Rightarrow> failed + apply_state" where
  "cascade_update ck now channel s =
     and_then (cascade_rounds (Suc (length (g_channels (as_reg s)))) ck now channel (s\<lparr>as_results := []\<rparr>)) (\<lambda>(s1, current).
       let reported = map fst (as_results s1);
           rest = filter (\<lambda>vd. def_name (snd vd) \<notin> set reported) current
       in Inr (s1\<lparr>as_results := as_results s @ as_results s1 @ map (\<lambda>vd. (def_name (snd vd), fst vd, False)) rest\<rparr>))"

definition apply_batch ::
  "checks \<Rightarrow> int \<Rightarrow> process_definition list \<Rightarrow> string \<Rightarrow> bool \<Rightarrow> registry \<Rightarrow> failed + apply_state" where
  "apply_batch ck now defs channel update_parents g =
     and_then (right_or (\<lambda>e. (SortError e, g)) (topo_sort defs)) (\<lambda>srt.
       and_then (each (\<lambda>d t. at_error t (apply_one ck now channel d t)) srt
                   \<lparr>as_reg = g, as_batch = srt, as_versions = [], as_results = []\<rparr>) (\<lambda>s.
         if update_parents then cascade_update ck now channel s else Inr s))"

definition put_definitions :: "checks \<Rightarrow> int \<Rightarrow> process_definition list \<Rightarrow> string \<Rightarrow> bool \<Rightarrow> registry \<Rightarrow> failed + apply_state" where
  "put_definitions ck now defs channel update_parents g =
     apply_batch ck now defs (if channel = [] then default_channel else channel) update_parents g"

subsection \<open>The other operations on the registry\<close>

definition put_definition :: "checks \<Rightarrow> int \<Rightarrow> process_definition \<Rightarrow> registry \<Rightarrow> apply_error + registry" where
  "put_definition ck now d g =
     (case validate_definition d of
        Some err \<Rightarrow> Inl (BadDefinition err)
      | None \<Rightarrow>
         let v = next_version g (def_name d) in
         if \<not> ck_generate ck d then Inl (BadDataFlow (def_name d))
         else if \<not> ck_children ck d v (batch_getter [] [] g) then Inl (BadChildInput (def_name d))
         else and_then (right_or BadConfig (resolve_config d (ck_env ck))) (\<lambda>c.
                right_or Registry (save_definition now d v [] [] default_channel g)))"

definition put_channel :: "int \<Rightarrow> string \<Rightarrow> string \<Rightarrow> int \<Rightarrow> registry \<Rightarrow> apply_error + registry" where
  "put_channel now name c v g =
     (if name = [] \<or> c = [] \<or> v < 1 then Inl (BadRequest ''name, channel, and version (>=1) are required'')
      else and_then (right_or Registry (get_registered g name v)) (\<lambda>d. Inr (save_channel now name c v g)))"

definition delete_channel_request :: "string \<Rightarrow> string \<Rightarrow> registry \<Rightarrow> apply_error + registry" where
  "delete_channel_request name c g =
     (if name = [] \<or> c = [] then Inl (BadRequest ''name and channel are required'') else Inr (delete_channel name c g))"

text \<open>The names a process reaches on a channel, by a search that skips what is not on it.\<close>

fun collect :: "nat \<Rightarrow> (string \<Rightarrow> process_definition option) \<Rightarrow> string \<Rightarrow> string list \<Rightarrow> string list" where
  "collect 0 find_def name visited = visited"
| "collect (Suc n) find_def name visited =
     (if name \<in> set visited then visited
      else case find_def name of
             None \<Rightarrow> visited
           | Some d \<Rightarrow> fold (collect n find_def) (child_names d) (name # visited))"

definition dependency_subtree :: "versioned_def list \<Rightarrow> string \<Rightarrow> versioned_def list" where
  "dependency_subtree vds start =
     (let visited = collect (Suc (length vds)) (by_name (map snd vds)) start []
      in filter (\<lambda>vd. def_name (snd vd) \<in> set visited) vds)"

definition promote_channel :: "int \<Rightarrow> string \<Rightarrow> string \<Rightarrow> string option \<Rightarrow> registry \<Rightarrow> apply_error + (registry \<times> versioned_def list)" where
  "promote_channel now src dst process g =
     (if src = [] \<or> dst = [] then Inl (BadRequest ''from and to are required'')
      else if src = dst then Inl (BadRequest ''from and to must differ'')
      else
        let all = load_definitions_on_channel g src;
            vds = (case process of None \<Rightarrow> all | Some p \<Rightarrow> dependency_subtree all p)
        in Inr (fold (\<lambda>vd. save_channel now (def_name (snd vd)) dst (fst vd)) vds g, vds))"

definition channel_status :: "string \<Rightarrow> registry \<Rightarrow> apply_error + (versioned_def \<times> stale_row list) list" where
  "channel_status c g =
     (if c = [] then Inl (BadRequest ''channel is required'')
      else Inr (map (\<lambda>vd. (vd, filter (\<lambda>r. sr_parent r = def_name (snd vd) \<and> sr_parent_version r = fst vd) (find_stale_refs g c)))
                  (load_definitions_on_channel g c)))"

definition resolve_default_version :: "registry \<Rightarrow> string \<Rightarrow> registry_error + int" where
  "resolve_default_version g process =
     (case get_channel g process default_channel of Inr v \<Rightarrow> Inr v | Inl e \<Rightarrow> latest_of g process)"

text \<open>\<open>validateDefinitions\<close>: the checks of an apply without saving; the first error is the answer.\<close>

definition validate_definitions :: "checks \<Rightarrow> process_definition list \<Rightarrow> registry \<Rightarrow> apply_error option" where
  "validate_definitions ck defs g =
     first_some (\<lambda>d. case validate_definition d of
         Some err \<Rightarrow> Some (BadDefinition err)
       | None \<Rightarrow>
          if \<not> ck_generate ck d then Some (BadDataFlow (def_name d))
          else if \<not> ck_children ck d 0 (batch_getter defs [] g) then Some (BadChildInput (def_name d))
          else None) defs"

end
