(* ===== verification/RegistryProps.thy ===== *)
theory RegistryProps
  imports Apply
begin

section \<open>The registry stays consistent\<close>

text \<open>
  Versions are written once, channels point at versions that exist, and a batch moves its channel to
  what it reports, when requests are served one at a time. The cascade over parents ends; it does
  not always reach every parent.
\<close>

definition registry_ok :: "registry \<Rightarrow> bool" where
  "registry_ok g \<longleftrightarrow>
     distinct (map (\<lambda>r. (df_name r, df_version r)) (g_defs g)) \<and>
     (\<forall>r \<in> set (g_defs g). 1 \<le> df_version r \<and> def_name (df_def r) = df_name r) \<and>
     distinct (map (\<lambda>r. (ch_name r, ch_channel r)) (g_channels g)) \<and>
     (\<forall>c \<in> set (g_channels g). find_definition g (ch_name c) (ch_version c) \<noteq> None) \<and>
     (\<forall>d \<in> set (g_deps g). find_definition g (dp_parent d) (dp_parent_version d) \<noteq> None)"

text \<open>Every version of the first is in the second, unchanged.\<close>

definition keeps_versions :: "registry \<Rightarrow> registry \<Rightarrow> bool" where
  "keeps_versions g h \<longleftrightarrow> set (g_defs g) \<subseteq> set (g_defs h)"

definition evolves :: "registry \<Rightarrow> registry \<Rightarrow> bool" where
  "evolves g h \<longleftrightarrow> (registry_ok g \<longrightarrow> registry_ok h \<and> keeps_versions g h)"

lemma evolves_refl [simp]: "evolves g g"
  by (simp add: evolves_def keeps_versions_def)

lemma evolves_trans [trans]: "evolves g h \<Longrightarrow> evolves h k \<Longrightarrow> evolves g k"
  by (auto simp: evolves_def keeps_versions_def)

lemma find_definition_None: "find_definition g n v = None \<longleftrightarrow> (\<forall>r \<in> set (g_defs g). \<not> is_version n v r)"
  by (auto simp: find_definition_def find_None_iff)

lemma fold_versions_base: "v \<le> fold max vs (v :: int)"
proof (induction vs arbitrary: v)
  case (Cons w vs)
  have "v \<le> max w v" by simp
  also have "\<dots> \<le> fold max vs (max w v)" by (rule Cons.IH)
  finally show ?case by simp
qed simp

lemma fold_versions_ge: "x \<in> set vs \<Longrightarrow> x \<le> fold max vs (v :: int)"
proof (induction vs arbitrary: v)
  case (Cons w vs)
  show ?case
  proof (cases "x = w")
    case True
    have "x \<le> max w v" using True by simp
    also have "\<dots> \<le> fold max vs (max w v)" by (rule fold_versions_base)
    finally show ?thesis by simp
  next
    case False
    with Cons show ?thesis by simp
  qed
qed simp

lemma max_version_ge:
  assumes "max_version P g = Some m" and "r \<in> set (g_defs g)" and "P r"
  shows "df_version r \<le> m"
proof -
  from assms(1) obtain v vs where v: "map df_version (filter P (g_defs g)) = v # vs" "m = fold max vs v"
    by (auto simp: max_version_def split: list.splits)
  have "df_version r \<in> set (v # vs)" using assms(2,3) unfolding v(1) [symmetric] by simp
  with fold_versions_base [of v vs] fold_versions_ge [of _ vs v] v(2) show ?thesis by (metis set_ConsD)
qed

lemma fold_versions_in: "fold max vs (v :: int) \<in> set (v # vs)"
proof (induction vs arbitrary: v)
  case (Cons w vs)
  have "max w v = w \<or> max w v = v" by linarith
  with Cons.IH [of "max w v"] show ?case by auto
qed simp

lemma max_version_in: "max_version P g = Some m \<Longrightarrow> \<exists>r \<in> set (g_defs g). P r \<and> df_version r = m"
proof -
  assume m: "max_version P g = Some m"
  then obtain v vs where v: "map df_version (filter P (g_defs g)) = v # vs" "m = fold max vs v"
    by (auto simp: max_version_def split: list.splits)
  with fold_versions_in [of vs v] have "m \<in> set (map df_version (filter P (g_defs g)))" by simp
  then show ?thesis by auto
qed

lemma next_version_new:
  assumes "r \<in> set (g_defs g)" and "df_name r = name"
  shows "df_version r < next_version g name"
proof -
  have "max_version (\<lambda>r. df_name r = name) g \<noteq> None"
    using assms by (auto simp: max_version_def filter_empty_conv split: list.splits)
  then obtain m where m: "max_version (\<lambda>r. df_name r = name) g = Some m" by blast
  from max_version_ge [OF this assms(1)] assms(2) m show ?thesis by (simp add: next_version_def latest_of_def)
qed

lemma next_version_pos: "registry_ok g \<Longrightarrow> 1 \<le> next_version g name"
proof (cases "max_version (\<lambda>r. df_name r = name) g")
  case (Some m)
  assume "registry_ok g"
  with max_version_in [OF Some] Some show ?thesis by (auto simp: next_version_def latest_of_def registry_ok_def)
qed (simp add: next_version_def latest_of_def)

lemma next_version_free: "find_definition g name (next_version g name) = None"
  using next_version_new by (fastforce simp: find_definition_None is_version_def)

text \<open>Steps on the channels.\<close>

lemma find_channel: "find (is_channel n c) rows = None \<longleftrightarrow> (n, c) \<notin> (\<lambda>r. (ch_name r, ch_channel r)) ` set rows"
  by (auto simp: find_None_iff is_channel_def)

lemma upsert_channel_simps [simp]:
  "g_defs (upsert_channel n c v now g) = g_defs g" "g_deps (upsert_channel n c v now g) = g_deps g"
  by (simp_all add: upsert_channel_def)

lemma find_definition_cong: "g_defs g = g_defs h \<Longrightarrow> find_definition g n v = find_definition h n v"
  by (simp add: find_definition_def)

lemma upsert_channel_evolves:
  assumes "find_definition g n v \<noteq> None"
  shows "evolves g (upsert_channel n c v now g)"
proof -
  let ?h = "upsert_channel n c v now g"
  have "registry_ok ?h" if ok: "registry_ok g"
  proof -
    have "distinct (map (\<lambda>r. (ch_name r, ch_channel r)) (g_channels ?h))"
    proof (cases "find (is_channel n c) (g_channels g) = None")
      case True
      with ok show ?thesis by (auto simp: upsert_channel_def registry_ok_def find_channel)
    next
      case False
      have "map (\<lambda>r. (ch_name r, ch_channel r)) (update_where (is_channel n c) (\<lambda>r. r\<lparr>ch_version := v, ch_updated_at := now\<rparr>) (g_channels g))
          = map (\<lambda>r. (ch_name r, ch_channel r)) (g_channels g)" by (rule map_update_where) simp
      moreover have "g_channels ?h = update_where (is_channel n c) (\<lambda>r. r\<lparr>ch_version := v, ch_updated_at := now\<rparr>) (g_channels g)"
        using False unfolding upsert_channel_def by (simp del: not_None_eq)
      ultimately show ?thesis using ok unfolding registry_ok_def by simp
    qed
    moreover have "find_definition g (ch_name r) (ch_version r) \<noteq> None" if "r \<in> set (g_channels ?h)" for r
      using that ok assms by (auto simp: upsert_channel_def registry_ok_def set_update_where is_channel_def split: if_splits)
    ultimately show ?thesis using ok find_definition_cong [of ?h g] by (auto simp: registry_ok_def)
  qed
  then show ?thesis by (simp add: evolves_def keeps_versions_def)
qed

lemma delete_channel_evolves: "evolves g (delete_channel n c g)"
proof -
  have "find_definition (delete_channel n c g) m v = find_definition g m v" for m v
    by (simp add: delete_channel_def find_definition_def)
  then show ?thesis
    by (auto simp: evolves_def keeps_versions_def registry_ok_def delete_channel_def distinct_map_filter)
qed

text \<open>Saving under the next version.\<close>

lemma insert_dependencies:
  assumes "each insert_dependency deps g = Inr h"
  shows "g_defs h = g_defs g \<and> g_channels h = g_channels g \<and> g_deps h = g_deps g @ deps"
  using assms by (induction deps arbitrary: g) (auto simp: and_then_eq_Inr insert_dependency_def split: if_splits)

lemma save_definition_evolves:
  assumes "save_definition now d v deps hash channel g = Inr h" and "find_definition g (def_name d) v = None"
      and "registry_ok g \<Longrightarrow> 1 \<le> v" and "\<forall>x \<in> set deps. dp_parent x = def_name d \<and> dp_parent_version x = v"
  shows "evolves g h \<and> find_definition h (def_name d) v \<noteq> None"
proof -
  let ?row = "\<lparr>df_name = def_name d, df_version = v, df_def = d, df_hash = hash, df_created_at = now\<rparr>"
  let ?g0 = "delete_dependencies (def_name d) v (insert_definition (def_name d) v d hash now g)"
  from assms(1) obtain g1 where g1: "each insert_dependency deps ?g0 = Inr g1"
    "h = (if channel \<noteq> [] then upsert_channel (def_name d) channel v now g1 else g1)"
    by (auto simp: save_definition_def and_then_eq_Inr)
  from insert_dependencies [OF g1(1)] assms(2)
  have parts: "g_defs g1 = g_defs g @ [?row]" "g_channels g1 = g_channels g" "set (g_deps g1) \<subseteq> set (g_deps g) \<union> set deps"
    by (auto simp: delete_dependencies_def insert_definition_def)
  have new: "find_definition g1 n w \<noteq> None" if "find_definition g n w \<noteq> None \<or> n = def_name d \<and> w = v" for n w
    using that by (auto simp: find_definition_None parts(1) is_version_def)
  have "registry_ok g1" if ok: "registry_ok g"
  proof -
    have "(def_name d, v) \<notin> (\<lambda>r. (df_name r, df_version r)) ` set (g_defs g)"
      using assms(2) by (auto simp: find_definition_None is_version_def)
    moreover have "find_definition g1 (dp_parent x) (dp_parent_version x) \<noteq> None" if "x \<in> set (g_deps g1)" for x
      using that parts(3) assms(4) ok by (intro new) (auto simp: registry_ok_def)
    moreover have "find_definition g1 (ch_name c) (ch_version c) \<noteq> None" if "c \<in> set (g_channels g1)" for c
      using that parts(2) ok by (intro new) (auto simp: registry_ok_def)
    ultimately show ?thesis using ok assms(3) parts(1,2) by (auto simp: registry_ok_def)
  qed
  then have ev: "evolves g g1" by (auto simp: evolves_def keeps_versions_def parts(1))
  have here: "find_definition g1 (def_name d) v \<noteq> None" by (rule new) simp
  show ?thesis
  proof (cases "channel = []")
    case True
    with ev here g1(2) show ?thesis by simp
  next
    case False
    with upsert_channel_evolves [OF here, of channel now] evolves_trans [OF ev] here g1(2)
      find_definition_cong [of h g1] show ?thesis by auto
  qed
qed


lemma find_version_by_hash_Inr: "find_version_by_hash g n h = Inr v \<Longrightarrow> find_definition g n v \<noteq> None"
  by (auto simp: find_version_by_hash_def find_definition_None is_version_def split: option.splits dest!: max_version_in)

lemma save_channel_evolves: "find_definition g n v \<noteq> None \<Longrightarrow> evolves g (save_channel now n c v g)"
  by (simp add: save_channel_def upsert_channel_evolves)

lemma ensure_latest_evolves: "find_definition g n v \<noteq> None \<Longrightarrow> evolves g (ensure_latest_channel now n v g)"
  by (auto simp: ensure_latest_channel_def save_channel_evolves split: sum.splits)

lemma save_channel_definitions [simp]: "find_definition (save_channel now n c v g) m w = find_definition g m w"
  by (rule find_definition_cong) (simp add: save_channel_def)

lemma dependency_of_rows:
  "dependency_of g d self channel batch ref = Inr rows \<Longrightarrow> x \<in> set rows \<Longrightarrow> dp_parent x = def_name d \<and> dp_parent_version x = self"
  by (auto simp: dependency_of_def and_then_eq_Inr split: prod.splits if_splits)

lemma build_resolved_deps_rows:
  assumes "build_resolved_deps g d self channel batch = Inr deps"
  shows "\<forall>x \<in> set deps. dp_parent x = def_name d \<and> dp_parent_version x = self"
proof -
  from assms obtain rows where rows: "list_all2 (\<lambda>r y. dependency_of g d self channel batch r = Inr y) (child_refs d) rows"
    "deps = concat rows" by (auto simp: build_resolved_deps_def and_then_eq_Inr traverse_Inr)
  have "dp_parent x = def_name d \<and> dp_parent_version x = self" if "x \<in> set (concat rows)" for x
  proof -
    from that obtain ys where "ys \<in> set rows" "x \<in> set ys" by auto
    with list_all2_in2 [OF rows(1)] dependency_of_rows show ?thesis by metis
  qed
  with rows(2) show ?thesis by blast
qed

lemma save_next_evolves:
  assumes "save_definition now d (next_version g (def_name d)) deps hash channel g = Inr h"
      and "\<forall>x \<in> set deps. dp_parent x = def_name d \<and> dp_parent_version x = next_version g (def_name d)"
  shows "evolves g h \<and> find_definition h (def_name d) (next_version g (def_name d)) \<noteq> None"
  by (rule save_definition_evolves [OF assms(1) next_version_free next_version_pos assms(2)])

subsection \<open>A batch\<close>

lemma right_or_Inr [simp]: "right_or f r = Inr x \<longleftrightarrow> r = Inr x"
  by (cases r) (simp_all add: right_or_def)

lemma applied_reg [simp]: "as_reg (applied n v b g s) = g"
  by (simp add: applied_def)

lemma apply_one_evolves:
  assumes "apply_one ck now channel d0 s = Inr t"
  shows "evolves (as_reg s) (as_reg t)"
proof -
  from assms obtain d where "ck_normalize ck d0 = Some d" by (auto simp: apply_one_def split: option.splits)
  with assms obtain deps where deps: "build_resolved_deps (as_reg s) d (next_version (as_reg s) (def_name d)) channel (as_versions s) = Inr deps"
    by (auto simp: apply_one_def normalized_in_def Let_def and_then_eq_Inr)
  let ?hash = "content_hash (ck_sha ck) (ck_json ck d) deps"
  show ?thesis
  proof (cases "find_version_by_hash (as_reg s) (def_name d) ?hash")
    case (Inr old)
    note have_old = find_version_by_hash_Inr [OF Inr]
    from assms deps Inr \<open>ck_normalize ck d0 = Some d\<close>
    have "as_reg t = ensure_latest_channel now (def_name d) old (save_channel now (def_name d) channel old (as_reg s))"
      by (auto simp: apply_one_def normalized_in_def Let_def)
    with evolves_trans [OF save_channel_evolves [OF have_old] ensure_latest_evolves] have_old show ?thesis by simp
  next
    case (Inl e)
    with assms deps \<open>ck_normalize ck d0 = Some d\<close> obtain g1 where
      g1: "save_definition now d (next_version (as_reg s) (def_name d)) deps ?hash channel (as_reg s) = Inr g1"
      "as_reg t = ensure_latest_channel now (def_name d) (next_version (as_reg s) (def_name d)) g1"
      by (auto simp: apply_one_def normalized_in_def Let_def and_then_eq_Inr split: option.splits if_splits)
    with save_next_evolves [OF g1(1) build_resolved_deps_rows [OF deps]] evolves_trans ensure_latest_evolves
    show ?thesis by metis
  qed
qed

lemma cascade_one_evolves:
  assumes "cascade_one ck now channel vd s = Inr t"
  shows "evolves (as_reg s) (as_reg t)"
proof (cases "map_of (as_versions s) (def_name (snd vd)) \<noteq> None")
  case True
  with assms show ?thesis by (auto simp: cascade_one_def Let_def)
next
  case False
  let ?d = "snd vd"
  let ?v = "next_version (as_reg s) (def_name ?d)"
  from False assms obtain deps where deps: "build_resolved_deps (as_reg s) ?d ?v channel (as_versions s) = Inr deps"
    by (auto simp: cascade_one_def Let_def and_then_eq_Inr)
  let ?hash = "content_hash (ck_sha ck) (ck_json ck ?d) deps"
  show ?thesis
  proof (cases "find_version_by_hash (as_reg s) (def_name ?d) ?hash")
    case (Inr old)
    with assms deps False have "as_reg t = save_channel now (def_name ?d) channel old (as_reg s)"
      by (auto simp: cascade_one_def Let_def)
    with save_channel_evolves [OF find_version_by_hash_Inr [OF Inr]] show ?thesis by simp
  next
    case (Inl e)
    with assms deps False have "save_definition now ?d ?v deps ?hash channel (as_reg s) = Inr (as_reg t)"
      by (auto simp: cascade_one_def Let_def and_then_eq_Inr split: if_splits)
    from save_next_evolves [OF this build_resolved_deps_rows [OF deps]] show ?thesis by blast
  qed
qed

text \<open>The registry that a step leaves, whether it fails or not.\<close>

definition left_reg :: "failed + apply_state \<Rightarrow> registry" where
  "left_reg r = (case r of Inl e \<Rightarrow> snd e | Inr s \<Rightarrow> as_reg s)"

lemma left_reg_simps [simp]: "left_reg (Inl e) = snd e" "left_reg (Inr s) = as_reg s"
  by (simp_all add: left_reg_def)

lemma each_evolves:
  assumes "\<And>x s t. f x s = Inr t \<Longrightarrow> evolves (as_reg s) (as_reg t)"
  shows "evolves (as_reg s) (left_reg (each (\<lambda>x t. at_error t (f x t)) xs s))"
proof (induction xs arbitrary: s)
  case (Cons x xs)
  show ?case
  proof (cases "f x s")
    case (Inr t)
    then show ?thesis using evolves_trans [OF assms [OF Inr] Cons.IH] by (simp add: at_error_def right_or_def)
  qed (simp add: at_error_def right_or_def)
qed simp

lemma cascade_rounds_evolves:
  "case cascade_rounds n ck now channel s of Inl e \<Rightarrow> evolves (as_reg s) (snd e) | Inr r \<Rightarrow> evolves (as_reg s) (as_reg (fst r))"
proof (induction n arbitrary: s)
  case (Suc n)
  obtain stale current where parents: "find_parents_of (as_reg s) channel (as_versions s) = (stale, current)" by force
  note round = each_evolves [where f = "cascade_one ck now channel" and xs = stale and s = s, OF cascade_one_evolves]
  show ?case
  proof (cases "each (\<lambda>vd t. at_error t (cascade_one ck now channel vd t)) stale s")
    case (Inl e)
    with round parents show ?thesis by simp
  next
    case (Inr s1)
    with round have s1: "evolves (as_reg s) (as_reg s1)" by simp
    from Suc.IH [of s1] have "case cascade_rounds n ck now channel s1 of Inl e \<Rightarrow> evolves (as_reg s) (snd e)
        | Inr r \<Rightarrow> evolves (as_reg s) (as_reg (fst r))" by (auto split: sum.splits intro: evolves_trans [OF s1])
    with Inr parents s1 show ?thesis by simp
  qed
qed simp

lemma cascade_update_evolves: "evolves (as_reg s) (left_reg (cascade_update ck now channel s))"
  using cascade_rounds_evolves [where n = "Suc (length (g_channels (as_reg s)))" and ck = ck and now = now
    and channel = channel and s = "s\<lparr>as_results := []\<rparr>"]
  by (auto simp: cascade_update_def Let_def split: sum.splits prod.splits)

lemma apply_batch_evolves: "evolves g (left_reg (apply_batch ck now defs channel upd g))"
proof (cases "topo_sort defs")
  case (Inl e)
  then show ?thesis by (simp add: apply_batch_def right_or_def)
next
  case (Inr srt)
  let ?s = "\<lparr>as_reg = g, as_batch = srt, as_versions = [], as_results = []\<rparr>"
  let ?run = "each (\<lambda>d t. at_error t (apply_one ck now channel d t)) srt ?s"
  have batch: "evolves g (left_reg ?run)"
    using each_evolves [where f = "apply_one ck now channel" and xs = srt and s = ?s, OF apply_one_evolves] by simp
  have "apply_batch ck now defs channel upd g
      = and_then ?run (\<lambda>s. if upd then cascade_update ck now channel s else Inr s)"
    by (simp only: apply_batch_def Inr right_or_def sum.case and_then_simps)
  with batch show ?thesis
    by (cases ?run) (auto intro: evolves_trans [OF _ cascade_update_evolves])
qed

subsection \<open>Every operation of the registry\<close>

datatype registry_op =
    ApplyBatch "process_definition list" string bool
  | PutDefinition process_definition
  | PutChannel string string int
  | DropChannel string string
  | Promote string string "string option"

text \<open>The registry an operation leaves, whether it succeeds or not.\<close>

definition or_same :: "registry \<Rightarrow> apply_error + registry \<Rightarrow> registry" where
  "or_same g r = (case r of Inl e \<Rightarrow> g | Inr h \<Rightarrow> h)"

fun run_op :: "checks \<Rightarrow> int \<times> registry_op \<Rightarrow> registry \<Rightarrow> registry" where
  "run_op ck (now, ApplyBatch defs channel upd) g = left_reg (put_definitions ck now defs channel upd g)"
| "run_op ck (now, PutDefinition d) g = or_same g (put_definition ck now d g)"
| "run_op ck (now, PutChannel name c v) g = or_same g (put_channel now name c v g)"
| "run_op ck (now, DropChannel name c) g = or_same g (delete_channel_request name c g)"
| "run_op ck (now, Promote src dst process) g = (case promote_channel now src dst process g of Inl e \<Rightarrow> g | Inr r \<Rightarrow> fst r)"

lemma put_definition_evolves: "evolves g (or_same g (put_definition ck now d g))"
proof (cases "put_definition ck now d g")
  case (Inr h)
  then have "save_definition now d (next_version g (def_name d)) [] [] default_channel g = Inr h"
    by (auto simp: put_definition_def Let_def and_then_eq_Inr split: option.splits if_splits)
  from save_next_evolves [OF this] Inr show ?thesis by (simp add: or_same_def)
qed (simp add: or_same_def)

lemma put_channel_evolves: "evolves g (or_same g (put_channel now name c v g))"
proof (cases "put_channel now name c v g")
  case (Inr h)
  then have "find_definition g name v \<noteq> None" and "h = save_channel now name c v g"
    by (auto simp: put_channel_def and_then_eq_Inr get_registered_def split: if_splits option.splits)
  with save_channel_evolves Inr show ?thesis by (simp add: or_same_def)
qed (simp add: or_same_def)

lemma loaded_exists:
  assumes "registry_ok g" and "vd \<in> set (load_definitions_on_channel g c)"
  shows "find_definition g (def_name (snd vd)) (fst vd) \<noteq> None"
proof -
  from assms(2) obtain r :: channel_row and d where "d \<in> set (g_defs g)" "is_version (ch_name r) (ch_version r) d" "vd = (ch_version r, df_def d)"
    by (fastforce simp: load_definitions_on_channel_def)
  with assms(1) show ?thesis by (auto simp: find_definition_None is_version_def registry_ok_def)
qed

lemma save_channels_evolve:
  assumes "\<forall>vd \<in> set vds. find_definition g (def_name (snd vd)) (fst vd) \<noteq> None"
  shows "evolves g (fold (\<lambda>vd. save_channel now (def_name (snd vd)) dst (fst vd)) vds g)"
  using assms
proof (induction vds arbitrary: g)
  case (Cons vd vds)
  then have "evolves g (save_channel now (def_name (snd vd)) dst (fst vd) g)" by (simp add: save_channel_evolves)
  from evolves_trans [OF this Cons.IH] Cons.prems show ?case by simp
qed simp

lemma promote_evolves: "evolves g (run_op ck (now, Promote src dst process) g)"
proof (cases "registry_ok g")
  case True
  show ?thesis
  proof (cases "promote_channel now src dst process g")
    case (Inr r)
    then obtain vds where vds: "fst r = fold (\<lambda>vd. save_channel now (def_name (snd vd)) dst (fst vd)) vds g"
        "set vds \<subseteq> set (load_definitions_on_channel g src)"
      by (auto simp: promote_channel_def Let_def dependency_subtree_def split: if_splits option.splits)
    have "evolves g (fst r)"
      unfolding vds(1) by (rule save_channels_evolve) (use vds(2) loaded_exists [OF True] in blast)
    with Inr show ?thesis by simp
  qed simp
qed (simp add: evolves_def)

lemma run_op_evolves: "evolves g (run_op ck timed g)"
proof (cases "(ck, timed, g)" rule: run_op.cases)
  case (1 ck now defs channel upd g)
  then show ?thesis by (simp add: put_definitions_def apply_batch_evolves)
next
  case (4 ck now name c g)
  then show ?thesis by (simp add: or_same_def delete_channel_request_def delete_channel_evolves)
qed (auto simp: put_definition_evolves put_channel_evolves simp del: run_op.simps(5) intro: promote_evolves)

lemma run_ops_evolve: "evolves g (fold (run_op ck) ops g)"
proof (induction ops arbitrary: g)
  case (Cons x ops)
  show ?case using evolves_trans [OF run_op_evolves Cons.IH] by simp
qed simp

definition no_registry :: registry where
  "no_registry = \<lparr>g_defs = [], g_deps = [], g_channels = []\<rparr>"

lemma no_registry_ok: "registry_ok no_registry"
  by (simp add: no_registry_def registry_ok_def)

text \<open>
  C36: What the registry keeps, when requests are served one at a time. Whatever applies, registrations,
  channel moves, deletions and promotions have run on an empty registry, failed ones included, and
  whatever runs after them: no name has two rows with one version, every channel points at a version
  that exists, a version written once is there later with the same definition, hash and time.
\<close>

theorem registry_keeps_versions:
  "let g = fold (run_op ck) before no_registry; h = fold (run_op ck) after g
   in registry_ok h \<and> set (g_defs g) \<subseteq> set (g_defs h)"
proof -
  have "registry_ok (fold (run_op ck) before no_registry)"
    using run_ops_evolve [of no_registry] no_registry_ok by (simp add: evolves_def)
  with run_ops_evolve [of "fold (run_op ck) before no_registry"] show ?thesis
    by (auto simp: evolves_def keeps_versions_def Let_def)
qed

text \<open>
  Requests run in transactions of their own, without a lock over a request: the latest version is
  read first, and the definition saved under the next version later. Two applies that read before
  either saves choose the same version, and the save that comes second replaces the definition of
  the first, whose hash stays: the version of that hash is then one with another definition.
\<close>

definition race_definition :: "string \<Rightarrow> process_definition" where
  "race_definition t = \<lparr>def_name = ''pay'',
     def_tasks = [\<lparr>task_id = t, task_action = None, task_timeout_ms = 0, task_only_once = None,
       task_on_error = [], task_output = None, task_switch = [\<lparr>case_when = [], case_goto = ''end''\<rparr>]\<rparr>],
     def_input_schema = None, def_config_schema = None, def_output = None\<rparr>"

lemma concurrent_applies_overwrite:
  "let v = (case latest_of no_registry ''pay'' of Inl _ \<Rightarrow> 0 | Inr n \<Rightarrow> n) + 1;
       g1 = projr (save_definition 5 (race_definition ''a'') v [] ''hash a'' ''latest'' no_registry);
       g2 = projr (save_definition 6 (race_definition ''b'') v [] ''hash b'' ''latest'' g1)
   in get_registered g1 ''pay'' v = Inr (race_definition ''a'')
    \<and> get_registered g2 ''pay'' v = Inr (race_definition ''b'')
    \<and> find_version_by_hash g2 ''pay'' ''hash a'' = Inr v"
  by code_simp

subsection \<open>The cascade ends\<close>

definition channel_names :: "registry \<Rightarrow> string set" where
  "channel_names g = ch_name ` set (g_channels g)"

lemma channel_names_save: "n \<in> channel_names g \<Longrightarrow> channel_names (save_channel now n c v g) = channel_names g"
proof (cases "find (is_channel n c) (g_channels g) = None")
  case False
  have "map ch_name (update_where (is_channel n c) (\<lambda>r. r\<lparr>ch_version := v, ch_updated_at := now\<rparr>) (g_channels g)) = map ch_name (g_channels g)"
    by (rule map_update_where) simp
  then have "ch_name ` set (update_where (is_channel n c) (\<lambda>r. r\<lparr>ch_version := v, ch_updated_at := now\<rparr>) (g_channels g)) = ch_name ` set (g_channels g)"
    by (metis list.set_map)
  with False show ?thesis unfolding channel_names_def save_channel_def upsert_channel_def by (simp del: not_None_eq)
qed (auto simp: channel_names_def save_channel_def upsert_channel_def)

lemma channel_names_saved:
  assumes "save_definition now d v deps hash channel g = Inr h" and "def_name d \<in> channel_names g"
  shows "channel_names h = channel_names g"
proof -
  from assms(1) obtain g1 where g1: "each insert_dependency deps
      (delete_dependencies (def_name d) v (insert_definition (def_name d) v d hash now g)) = Inr g1"
    "h = (if channel \<noteq> [] then save_channel now (def_name d) channel v g1 else g1)"
    by (auto simp: save_definition_def and_then_eq_Inr save_channel_def)
  from insert_dependencies [OF g1(1)] have "channel_names g1 = channel_names g"
    by (auto simp: channel_names_def delete_dependencies_def insert_definition_def)
  with channel_names_save [of "def_name d" g1] g1(2) assms(2) show ?thesis by simp
qed

lemma stale_on_channel:
  assumes "registry_ok g" and "find_parents_of g c vs = (stale, current)" and "vd \<in> set stale"
  shows "def_name (snd vd) \<in> channel_names g"
proof -
  define refs where "refs = parent_refs g c (map fst vs)"
  define heads where "heads = map (\<lambda>n. the (find (\<lambda>p. pf_parent p = n) refs)) (rev (remdups (rev (map pf_parent refs))))"
  have "snd vd \<in> pf_definition ` set heads"
    using assms(2,3) unfolding find_parents_of_def refs_def [symmetric]
    by (auto simp: Let_def heads_def [symmetric] split: if_splits)
  then obtain h where h: "h \<in> set heads" and vd: "snd vd = pf_definition h" by auto
  from h obtain n where n: "n \<in> pf_parent ` set refs" "h = the (find (\<lambda>p. pf_parent p = n) refs)" by (auto simp: heads_def)
  from n(1) obtain p where p: "find (\<lambda>p. pf_parent p = n) refs = Some p"
    by (cases "find (\<lambda>p. pf_parent p = n) refs") (auto simp: find_None_iff)
  with find_SomeD n(2) have "p \<in> set (parent_refs g c (map fst vs))" "h = p" by (fastforce simp: refs_def)+
  then obtain d :: dep_row and r f where "r \<in> set (g_channels g)" "is_channel (dp_parent d) c r" "f \<in> set (g_defs g)"
    "is_version (dp_parent d) (ch_version r) f" "pf_definition p = df_def f"
    by (auto simp: parent_refs_def)
  with assms(1) vd \<open>h = p\<close> have "def_name (snd vd) = ch_name r" by (auto simp: registry_ok_def is_version_def is_channel_def)
  with \<open>r \<in> set (g_channels g)\<close> show ?thesis by (auto simp: channel_names_def)
qed

text \<open>The channel names not yet brought up to date.\<close>

definition waiting_names :: "apply_state \<Rightarrow> string set" where
  "waiting_names s = channel_names (as_reg s) - fst ` set (as_versions s)"

definition progresses :: "apply_state \<Rightarrow> apply_state \<Rightarrow> bool" where
  "progresses s t \<longleftrightarrow> (registry_ok (as_reg s) \<longrightarrow> registry_ok (as_reg t)) \<and> channel_names (as_reg t) = channel_names (as_reg s) \<and>
     (as_versions t = as_versions s \<or> card (waiting_names t) < card (waiting_names s))"

lemma progresses_trans: "progresses s t \<Longrightarrow> progresses t u \<Longrightarrow> progresses s u"
  by (auto simp: progresses_def waiting_names_def)

lemma applied_progresses:
  assumes "evolves (as_reg s) g" and "channel_names g = channel_names (as_reg s)"
      and "n \<in> channel_names (as_reg s)" and "n \<notin> fst ` set (as_versions s)"
  shows "progresses s (applied n v b g s)"
proof -
  have "waiting_names (applied n v b g s) = waiting_names s - {n}"
    using assms(2) by (auto simp: waiting_names_def applied_def)
  moreover have "n \<in> waiting_names s" "finite (waiting_names s)"
    using assms(3,4) by (auto simp: waiting_names_def channel_names_def)
  ultimately have "card (waiting_names (applied n v b g s)) < card (waiting_names s)"
    by (simp only: card_Diff1_less)
  with assms(1,2) show ?thesis by (simp add: progresses_def evolves_def)
qed

lemma build_resolved_deps_error: "build_resolved_deps g d v c vs = Inl e \<Longrightarrow> \<exists>t k n. e = NotOnChannel t n k c"
  by (auto simp: build_resolved_deps_def and_then_eq_Inl dependency_of_def resolve_child_version_def
      split: if_splits option.splits sum.splits dest!: traverse_Inl)

lemma cascade_one_progresses:
  assumes n: "def_name (snd vd) \<in> channel_names (as_reg s)"
  shows "case cascade_one ck now channel vd s of Inl e \<Rightarrow> e \<noteq> CascadeTooLong | Inr t \<Rightarrow> progresses s t"
proof (cases "map_of (as_versions s) (def_name (snd vd)) \<noteq> None")
  case True
  then show ?thesis by (auto simp: cascade_one_def Let_def progresses_def)
next
  case False
  let ?d = "snd vd" let ?g = "as_reg s"
  let ?v = "next_version ?g (def_name ?d)"
  from False have new: "def_name ?d \<notin> fst ` set (as_versions s)" by (simp add: map_of_eq_None_iff)
  show ?thesis
  proof (cases "build_resolved_deps ?g ?d ?v channel (as_versions s)")
    case (Inl e)
    with False build_resolved_deps_error [OF Inl] show ?thesis by (auto simp: cascade_one_def Let_def)
  next
    case (Inr deps)
    note deps = Inr
    let ?hash = "content_hash (ck_sha ck) (ck_json ck ?d) deps"
    show ?thesis
    proof (cases "find_version_by_hash ?g (def_name ?d) ?hash")
      case (Inr old)
      have "progresses s (applied (def_name ?d) old False (save_channel now (def_name ?d) channel old ?g) s)"
        by (rule applied_progresses [OF save_channel_evolves [OF find_version_by_hash_Inr [OF Inr]] channel_names_save [OF n] n new])
      with Inr deps False show ?thesis by (auto simp: cascade_one_def Let_def)
    next
      case (Inl e)
      show ?thesis
      proof (cases "save_definition now ?d ?v deps ?hash channel ?g")
        case (Inr g1)
        have "progresses s (applied (def_name ?d) ?v True g1 s)"
          using applied_progresses [OF _ channel_names_saved [OF Inr n] n new] save_next_evolves [OF Inr build_resolved_deps_rows [OF deps]]
          by blast
        with Inr \<open>find_version_by_hash ?g (def_name ?d) ?hash = Inl e\<close> deps False show ?thesis
          by (auto simp: cascade_one_def Let_def right_or_def)
      qed (use Inl deps False in \<open>auto simp: cascade_one_def Let_def right_or_def\<close>)
    qed
  qed
qed

lemma round_progresses:
  assumes "\<forall>vd \<in> set stale. def_name (snd vd) \<in> channel_names (as_reg s)"
  shows "case each (\<lambda>vd t. at_error t (cascade_one ck now channel vd t)) stale s of
           Inl e \<Rightarrow> fst e \<noteq> CascadeTooLong | Inr t \<Rightarrow> progresses s t"
  using assms
proof (induction stale arbitrary: s)
  case (Cons vd stale)
  from Cons.prems have one: "case cascade_one ck now channel vd s of Inl e \<Rightarrow> e \<noteq> CascadeTooLong | Inr t \<Rightarrow> progresses s t"
    by (simp add: cascade_one_progresses)
  show ?case
  proof (cases "cascade_one ck now channel vd s")
    case (Inl e)
    with one show ?thesis by (simp add: at_error_def right_or_def)
  next
    case (Inr t)
    with one have st: "progresses s t" by simp
    with Cons.prems have "\<forall>vd \<in> set stale. def_name (snd vd) \<in> channel_names (as_reg t)" by (auto simp: progresses_def)
    from Cons.IH [OF this] have "case each (\<lambda>vd t. at_error t (cascade_one ck now channel vd t)) stale t of
           Inl e \<Rightarrow> fst e \<noteq> CascadeTooLong | Inr u \<Rightarrow> progresses s u"
      by (auto split: sum.splits intro: progresses_trans [OF st])
    with Inr show ?thesis by (simp add: at_error_def right_or_def)
  qed
qed (simp add: progresses_def)

lemma cascade_rounds_end:
  "registry_ok (as_reg s) \<Longrightarrow> card (waiting_names s) < n \<Longrightarrow> cascade_rounds n ck now channel s \<noteq> Inl (CascadeTooLong, h)"
proof (induction n arbitrary: s)
  case (Suc n)
  obtain stale current where parents: "find_parents_of (as_reg s) channel (as_versions s) = (stale, current)" by force
  from stale_on_channel [OF Suc.prems(1) parents] have on: "\<forall>vd \<in> set stale. def_name (snd vd) \<in> channel_names (as_reg s)" by blast
  note round = round_progresses [where s = s and stale = stale and ck = ck and now = now and channel = channel, OF on]
  show ?case
  proof (cases "each (\<lambda>vd t. at_error t (cascade_one ck now channel vd t)) stale s")
    case (Inl e)
    with round parents show ?thesis by auto
  next
    case (Inr s1)
    with round have p: "progresses s s1" by simp
    show ?thesis
    proof (cases "length (as_versions s1) = length (as_versions s)")
      case False
      with p Suc.prems have "registry_ok (as_reg s1)" "card (waiting_names s1) < n" by (auto simp: progresses_def)
      from Suc.IH [OF this] Inr parents False show ?thesis by simp
    qed (use Inr parents in simp)
  qed
qed simp

lemma cascade_update_ends: "registry_ok (as_reg s) \<Longrightarrow> cascade_update ck now channel s \<noteq> Inl (CascadeTooLong, h)"
proof -
  assume ok: "registry_ok (as_reg s)"
  let ?s = "s\<lparr>as_results := []\<rparr>"
  have "card (waiting_names ?s) \<le> card (channel_names (as_reg s))"
    by (rule card_mono) (auto simp: waiting_names_def channel_names_def)
  also have "\<dots> \<le> length (g_channels (as_reg s))"
    unfolding channel_names_def by (rule order_trans [OF card_image_le card_length]) simp
  finally have "card (waiting_names ?s) < Suc (length (g_channels (as_reg s)))" by simp
  from cascade_rounds_end [where s = ?s, OF _ this, of ck now channel h] ok show ?thesis
    by (auto simp: cascade_update_def Let_def and_then_eq_Inl)
qed

lemma apply_one_not_too_long: "apply_one ck now channel d s \<noteq> Inl CascadeTooLong"
  by (auto simp: apply_one_def Let_def and_then_eq_Inl right_or_def dest!: build_resolved_deps_error
      split: option.splits sum.splits if_splits)

lemma batch_not_too_long:
  "each (\<lambda>d t. at_error t (apply_one ck now channel d t)) ds s \<noteq> Inl (CascadeTooLong, h)"
proof (induction ds arbitrary: s)
  case (Cons d ds)
  show ?case using Cons.IH apply_one_not_too_long [of ck now channel d s]
    by (cases "apply_one ck now channel d s") (auto simp: at_error_def right_or_def)
qed simp

text \<open>
  C38: The cascade over parents ends, whatever the registry has been through: no apply runs out of
  rounds. Every round but the last brings up to date a channel name that no earlier round did.
\<close>

theorem cascade_ends:
  "put_definitions ck now defs channel upd (fold (run_op ck) before no_registry) \<noteq> Inl (CascadeTooLong, h)"
proof
  let ?g = "fold (run_op ck) before no_registry"
  assume "put_definitions ck now defs channel upd ?g = Inl (CascadeTooLong, h)"
  then obtain srt s c where run: "each (\<lambda>d t. at_error t (apply_one ck now c d t)) srt
      \<lparr>as_reg = ?g, as_batch = srt, as_versions = [], as_results = []\<rparr> = Inr s"
    and last: "cascade_update ck now c s = Inl (CascadeTooLong, h)"
    unfolding put_definitions_def apply_batch_def and_then_eq_Inl using batch_not_too_long
    by (auto simp: right_or_def split: sum.splits if_splits)
  have "registry_ok ?g" using run_ops_evolve [of no_registry] no_registry_ok by (simp add: evolves_def)
  moreover have "evolves ?g (as_reg s)"
    using each_evolves [where f = "apply_one ck now c" and xs = srt
      and s = "\<lparr>as_reg = ?g, as_batch = srt, as_versions = [], as_results = []\<rparr>", OF apply_one_evolves] run by simp
  ultimately have "registry_ok (as_reg s)" by (simp add: evolves_def)
  with cascade_update_ends last show False by blast
qed

subsection \<open>The cascade does not reach every parent\<close>

text \<open>
  A process updated once is skipped in later rounds, although the round in which another of its
  children changed comes after it: \<open>a\<close> calls \<open>b\<close> and \<open>c\<close>, and \<open>b\<close> calls \<open>c\<close>. Applying a new \<open>c\<close>
  with its parents updates \<open>a\<close> first, then \<open>b\<close>, and leaves \<open>a\<close> with the \<open>b\<close> of before.
\<close>

definition demo_task :: "string \<Rightarrow> string option \<Rightarrow> task" where
  "demo_task t kid = \<lparr>task_id = t,
     task_action = Some \<lparr>act_type = (case kid of None \<Rightarrow> Delay | Some c \<Rightarrow> Child), act_endpoint = [], act_headers = [],
       act_accepted_status = [], act_result_schema = None, act_name = (case kid of None \<Rightarrow> [] | Some c \<Rightarrow> c), act_version = 0,
       act_input = None, act_children = [], act_ms = (if kid = None then ''5'' else [])\<rparr>,
     task_timeout_ms = 0, task_only_once = None, task_on_error = [], task_output = None,
     task_switch = [\<lparr>case_when = [], case_goto = ''end''\<rparr>]\<rparr>"

definition demo_process :: "string \<Rightarrow> task list \<Rightarrow> process_definition" where
  "demo_process name ts = \<lparr>def_name = name, def_tasks = ts, def_input_schema = None, def_config_schema = None, def_output = None\<rparr>"

definition demo_checks :: checks where
  "demo_checks = \<lparr>ck_sha = id, ck_json = (\<lambda>d. concat (map (\<lambda>t. '' '' @ task_id t) (def_tasks d))), ck_normalize = Some,
     ck_generate = (\<lambda>d. True), ck_children = (\<lambda>d v g. True), ck_env = (\<lambda>x. None)\<rparr>"

definition demo_history :: "(int \<times> registry_op) list" where
  "demo_history =
     (let one = demo_task ''one'' None; b = demo_task ''b'' (Some ''b''); c = demo_task ''c'' (Some ''c'')
      in [(0, ApplyBatch [demo_process ''c'' [one]] [] True), (1, ApplyBatch [demo_process ''b'' [one]] [] True),
          (2, ApplyBatch [demo_process ''a'' [b, c]] [] True), (3, ApplyBatch [demo_process ''b'' [c]] [] False),
          (4, ApplyBatch [demo_process ''c'' [demo_task ''two'' None]] [] True)])"

lemma cascade_leaves_stale_parent:
  "map (\<lambda>r. (sr_parent r, sr_child r, sr_baked r, sr_channel_version r))
     (find_stale_refs (fold (run_op demo_checks) demo_history no_registry) default_channel) = [(''a'', ''b'', 2, 3)]"
  by code_simp

end
