(* ===== verification/SchemaNav.thy ===== *)
theory SchemaNav
  imports SchemaValidate
begin

section \<open>Navigation and secrets (\<open>internal/schema/navigate.go\<close>, \<open>schema.go\<close>)\<close>

text \<open>
  The type at a path of a schema, and what is secret along it. Looking up a member of a union looks
  it up in every variant and joins the results; a result no variant has is an error, one that some
  variants lack becomes nullable. The recursion over unions and references has fuel; \<open>OutOfFuel\<close>
  stands for a recursion that goes on and \<open>NilSchema\<close> for the nil dereference of Go, which unlike
  an error cannot be caught by a caller.
\<close>

subsection \<open>Paths\<close>

record path_step =
  st_prop :: string
  st_index :: int

text \<open>\<open>strings.Split\<close> by one character.\<close>

fun split_char :: "char \<Rightarrow> string \<Rightarrow> string list" where
  "split_char c [] = [[]]"
| "split_char c (d # s) =
     (if d = c then [] # split_char c s
      else case split_char c s of [] \<Rightarrow> [[d]] | w # ws \<Rightarrow> (d # w) # ws)"

text \<open>One segment: names and indices up to its end.\<close>

lemma str_index_less: "str_index s sub = Some i \<Longrightarrow> sub \<noteq> [] \<Longrightarrow> i < length s"
  using str_index_Some_split [of s sub i] by (cases sub) auto

function segment_steps :: "string \<Rightarrow> path_step list option" where
  "segment_steps seg =
     (case str_index seg ''['' of
        None \<Rightarrow> Some (if seg = [] then [] else [\<lparr>st_prop = seg, st_index = 0\<rparr>])
      | Some op \<Rightarrow>
         (case str_index seg '']'' of
            None \<Rightarrow> None
          | Some cl \<Rightarrow>
              if cl < op then None
              else (case parse_int64 (drop (Suc op) (take cl seg)) of
                     None \<Rightarrow> None
                   | Some idx \<Rightarrow>
                       map_option (\<lambda>rest. (if take op seg = [] then [] else [\<lparr>st_prop = take op seg, st_index = 0\<rparr>])
                           @ [\<lparr>st_prop = [], st_index = idx\<rparr>] @ rest)
                         (segment_steps (drop (Suc cl) seg)))))"
  by pat_completeness auto

termination
proof (relation "measure length", goal_cases)
  case (2 seg op cl idx)
  with str_index_less [of seg "'']''" cl] show ?case by simp
qed simp

declare segment_steps.simps [simp del]

fun all_segments :: "string list \<Rightarrow> path_step list option" where
  "all_segments [] = Some []"
| "all_segments (seg # segs) =
     (if seg = [] then None
      else case segment_steps seg of None \<Rightarrow> None
         | Some steps \<Rightarrow> map_option ((@) steps) (all_segments segs))"

definition parse_path :: "string \<Rightarrow> path_step list option" where
  "parse_path path =
     (if path = [] then None
      else case all_segments (split_char (CHR ''.'') path) of
             None \<Rightarrow> None
           | Some steps \<Rightarrow> if steps = [] then None else Some steps)"

subsection \<open>The JSON text of a node\<close>

text \<open>
  Nodes are compared by their JSON text. The text determines the node up to fields that are left
  out when empty and the order of map entries, so two texts are equal when these normal forms are.
\<close>

fun sorted_val :: "gval \<Rightarrow> gval" where
  "sorted_val (GObj kvs) = GObj (sort_key fst (map (\<lambda>(k, v). (k, sorted_val v)) kvs))"
| "sorted_val (GArr vs) = GArr (map sorted_val vs)"
| "sorted_val v = v"

definition filled :: "'a list option \<Rightarrow> 'a list option" where
  "filled l = (case l of Some [] \<Rightarrow> None | _ \<Rightarrow> l)"

fun text_form :: "node \<Rightarrow> node" where
  "text_form (Node t pr rq it oo an al en mi ma ml xl mt xt rf df ac i d s) =
     Node t (filled (map_option (sort_key fst \<circ> map (\<lambda>(k, q). (k, map_option text_form q))) pr)) (filled rq)
       (map_option text_form it)
       (filled (map_option (map (map_option text_form)) oo))
       (filled (map_option (map (map_option text_form)) an))
       (filled (map_option (map (map_option text_form)) al))
       (filled (map_option (map sorted_val) en)) mi ma ml xl mt xt rf
       (filled (map_option (sort_key fst \<circ> map (\<lambda>(k, q). (k, map_option text_form q))) df)) ac i (sorted_val d) s"

definition same_text :: "node option \<Rightarrow> node option \<Rightarrow> bool" where
  "same_text a b \<longleftrightarrow> map_option text_form a = map_option text_form b"

definition all_same :: "node option list \<Rightarrow> bool" where
  "all_same rs = (case rs of [] \<Rightarrow> True | r # rest \<Rightarrow> list_all (same_text r) rest)"

subsection \<open>Looking up a property and an element\<close>

definition with_null_opt :: "node option \<Rightarrow> node option" where
  "with_null_opt p = map_option with_null p"

text \<open>What one variant of a union gives.\<close>

datatype branch = Null_branch | Miss_branch | No_branch | Got "node option"

fun got :: "branch list \<Rightarrow> node option list" where
  "got [] = []"
| "got (Got r # bs) = r # got bs"
| "got (b # bs) = got bs"

definition fatal :: "schema_error \<Rightarrow> bool" where
  "fatal e \<longleftrightarrow> e = OutOfFuel \<or> e = NilSchema"

definition branch_result :: "schema_error + node option \<Rightarrow> branch \<Rightarrow> schema_error + branch" where
  "branch_result r b = (case r of Inl e \<Rightarrow> if fatal e then Inl e else Inr b | Inr x \<Rightarrow> Inr (Got x))"

type_synonym lookup = "node option \<Rightarrow> schema_error + node option"

definition property_branch :: "lookup \<Rightarrow> node option \<Rightarrow> schema_error + branch" where
  "property_branch rec v =
     (if v = None then Inl (NilVariant [])
      else if is_null_type v then Inr Null_branch
      else branch_result (rec v) Miss_branch)"

definition union_property ::
  "(node option list \<Rightarrow> node) \<Rightarrow> lookup \<Rightarrow> string \<Rightarrow> node option list \<Rightarrow> schema_error + node option" where
  "union_property mk rec name vs =
     and_then (traverse (property_branch rec) vs) (\<lambda>bs.
       if got bs = [] then
         (if Miss_branch \<in> set bs then Inl (NotInVariants name) else Inr (Some (typed [''null''])))
       else
         let res = (if all_same (got bs) then hd (got bs) else Some (mk (got bs)))
         in Inr (if Null_branch \<in> set bs \<or> Miss_branch \<in> set bs then with_null_opt res else res))"

definition deref_opt :: "node option \<Rightarrow> node_defs \<Rightarrow> schema_error + node option" where
  "deref_opt p defs = (case p of None \<Rightarrow> Inr None | Some s \<Rightarrow> and_then (deref s defs) (\<lambda>r. Inr (Some r)))"

definition plain_property :: "node \<Rightarrow> string \<Rightarrow> node_defs \<Rightarrow> schema_error + node option" where
  "plain_property r name defs =
     (case n_properties r of
        None \<Rightarrow> Inl (NoProperties name)
      | Some ps \<Rightarrow>
         (case map_of ps name of
            None \<Rightarrow> Inl (FieldNotFound name)
          | Some p \<Rightarrow> and_then (deref_opt p defs) (\<lambda>res.
               Inr (if is_required r name then res else with_null_opt res))))"

definition property_step :: "lookup \<Rightarrow> string \<Rightarrow> node_defs \<Rightarrow> node \<Rightarrow> schema_error + node option" where
  "property_step rec name defs r =
     (case n_any_of r of
        Some vs \<Rightarrow> union_property any_of_node rec name vs
      | None \<Rightarrow>
         (case n_one_of r of
            Some vs \<Rightarrow> union_property one_of_node rec name vs
          | None \<Rightarrow> plain_property r name defs))"

fun lookup_property :: "nat \<Rightarrow> node_defs \<Rightarrow> string \<Rightarrow> lookup" where
  "lookup_property 0 defs name p = Inl OutOfFuel"
| "lookup_property (Suc n) defs name p =
     (case p of None \<Rightarrow> Inl NilSchema
      | Some s \<Rightarrow> and_then (deref s defs) (property_step (lookup_property n defs name) name defs))"

definition index_branch :: "lookup \<Rightarrow> node option \<Rightarrow> schema_error + branch" where
  "index_branch rec v =
     (if v = None then Inr No_branch
      else if is_null_type v then Inr Null_branch
      else branch_result (rec v) Miss_branch)"

definition has_null_opt :: "node option \<Rightarrow> bool" where
  "has_null_opt p = (case p of None \<Rightarrow> False | Some s \<Rightarrow> has_null_type s)"

definition union_index :: "lookup \<Rightarrow> node option list \<Rightarrow> schema_error + node option" where
  "union_index rec vs =
     and_then (traverse (index_branch rec) vs) (\<lambda>bs.
       if got bs = [] then Inr (Some (typed [''null'']))
       else
         let res = (if all_same (got bs) then hd (got bs) else Some (any_of_node (got bs)))
         in Inr (if (Null_branch \<in> set bs \<or> Miss_branch \<in> set bs) \<and> \<not> has_null_opt res then with_null_opt res else res))"

definition plain_index :: "node \<Rightarrow> schema_error + node option" where
  "plain_index r =
     (if ''array'' \<notin> set (n_type r) then Inl (NotAnArray (case n_type r of [] \<Rightarrow> [] | t # ts \<Rightarrow> t))
      else Inr (case n_items r of None \<Rightarrow> Some empty_node | Some q \<Rightarrow> Some (with_null q)))"

definition index_step :: "lookup \<Rightarrow> node \<Rightarrow> schema_error + node option" where
  "index_step rec r0 =
     (case strip_null r0 of
        None \<Rightarrow> Inl NilSchema
      | Some r \<Rightarrow>
         (case n_any_of r of
            Some vs \<Rightarrow> union_index rec vs
          | None \<Rightarrow>
             (case n_one_of r of
                Some vs \<Rightarrow> union_index rec vs
              | None \<Rightarrow> plain_index r)))"

fun infer_index :: "nat \<Rightarrow> node_defs \<Rightarrow> lookup" where
  "infer_index 0 defs p = Inl OutOfFuel"
| "infer_index (Suc n) defs p =
     (case p of None \<Rightarrow> Inl NilSchema
      | Some s \<Rightarrow> and_then (deref s defs) (index_step (infer_index n defs)))"

definition step_into :: "nat \<Rightarrow> node_defs \<Rightarrow> path_step \<Rightarrow> lookup" where
  "step_into n defs st = (if st_prop st \<noteq> [] then lookup_property n defs (st_prop st) else infer_index n defs)"

fun navigate_schema :: "nat \<Rightarrow> node_defs \<Rightarrow> path_step list \<Rightarrow> lookup" where
  "navigate_schema n defs [] p = Inr p"
| "navigate_schema n defs (st # steps) p = and_then (step_into n defs st p) (navigate_schema n defs steps)"

definition navigate :: "nat \<Rightarrow> node_defs \<Rightarrow> string \<Rightarrow> lookup" where
  "navigate n defs path p = (case parse_path path of None \<Rightarrow> Inl (BadPath path) | Some steps \<Rightarrow> navigate_schema n defs steps p)"

subsection \<open>Schemas: a node with its definitions\<close>

text \<open>
  \<open>Schema\<close>: the definitions of its root node are the ones every reference below resolves against;
  navigation carries them over. The depth \<open>n\<close> of unions and references stays an argument: once
  it is enough for a lookup, the answer does not depend on it (\<open>lookup_property_enough\<close>).
\<close>

definition wrap_node :: "node option \<Rightarrow> node_defs \<Rightarrow> node" where
  "wrap_node p defs = set_defs defs (case p of None \<Rightarrow> empty_node | Some s \<Rightarrow> s)"

definition sub_schema :: "node_defs \<Rightarrow> schema_error + node option \<Rightarrow> schema_error + node" where
  "sub_schema defs r = and_then r (\<lambda>p. Inr (wrap_node p defs))"

definition schema_property :: "nat \<Rightarrow> node \<Rightarrow> string \<Rightarrow> schema_error + node" where
  "schema_property n s name = sub_schema (n_defs s) (lookup_property n (n_defs s) name (Some s))"

definition schema_index :: "nat \<Rightarrow> node \<Rightarrow> schema_error + node" where
  "schema_index n s = sub_schema (n_defs s) (infer_index n (n_defs s) (Some s))"

definition schema_infer :: "nat \<Rightarrow> node \<Rightarrow> string \<Rightarrow> schema_error + node" where
  "schema_infer n s path = sub_schema (n_defs s) (navigate n (n_defs s) path (Some s))"

text \<open>\<open>WithDefs\<close>: a nil handle changes nothing.\<close>

definition with_defs :: "node_defs \<Rightarrow> node \<Rightarrow> node" where
  "with_defs defs s = (if defs = None then s else set_defs defs s)"

definition schema_strip_null :: "node \<Rightarrow> node" where
  "schema_strip_null s = wrap_node (strip_null s) (n_defs s)"

definition schema_with_null :: "node \<Rightarrow> node" where
  "schema_with_null s = wrap_node (Some (with_null s)) (n_defs s)"

definition schema_taint :: "node \<Rightarrow> node" where
  "schema_taint s = wrap_node (Some (taint_node s)) (n_defs s)"

fun strip_defs_deep :: "node \<Rightarrow> node" where
  "strip_defs_deep (Node t pr rq it oo an al en mi ma ml xl mt xt rf df ac i d s) =
     Node t (map_option (map (\<lambda>(k, q). (k, map_option strip_defs_deep q))) pr) rq (map_option strip_defs_deep it)
       (map_option (map (map_option strip_defs_deep)) oo) (map_option (map (map_option strip_defs_deep)) an)
       (map_option (map (map_option strip_defs_deep)) al) en mi ma ml xl mt xt rf None ac i d s"

text \<open>\<open>Variants\<close>: the members of a union, the \<open>anyOf\<close> list first; a nil member stays nil.\<close>

definition schema_variants :: "node \<Rightarrow> node option list option" where
  "schema_variants s =
     map_option (map (map_option (set_defs (n_defs s)))) (case n_any_of s of Some vs \<Rightarrow> Some vs | None \<Rightarrow> n_one_of s)"

fun node_is_type :: "string \<Rightarrow> node \<Rightarrow> bool" where
  "node_is_type typ s =
     (if n_type s \<noteq> [] then list_all (\<lambda>t. t = typ) (n_type s)
      else case n_one_of s of
             Some vs \<Rightarrow> vs \<noteq> [] \<and> list_all (\<lambda>v. case v of None \<Rightarrow> False | Some q \<Rightarrow> node_is_type typ q) (variants_of (n_one_of s))
           | None \<Rightarrow>
              (case n_any_of s of
                 Some vs \<Rightarrow> vs \<noteq> [] \<and> list_all (\<lambda>v. case v of None \<Rightarrow> False | Some q \<Rightarrow> node_is_type typ q) (variants_of (n_any_of s))
               | None \<Rightarrow> False))"

declare node_is_type.simps [simp del]

subsection \<open>Secrets\<close>

fun hits_secret :: "nat \<Rightarrow> node_defs \<Rightarrow> path_step list \<Rightarrow> node option \<Rightarrow> bool" where
  "hits_secret n defs [] cur = False"
| "hits_secret n defs (st # steps) cur =
     (case step_into n defs st cur of
        Inl e \<Rightarrow> False
      | Inr c \<Rightarrow> (case c of None \<Rightarrow> False | Some s \<Rightarrow> is_secret s) \<or> hits_secret n defs steps c)"

definition path_hits_secret :: "nat \<Rightarrow> node_defs \<Rightarrow> node \<Rightarrow> string \<Rightarrow> bool" where
  "path_hits_secret n defs s path =
     (case parse_path path of
        None \<Rightarrow> False
      | Some steps \<Rightarrow>
         (case deref s defs of
            Inl e \<Rightarrow> False
          | Inr r \<Rightarrow> is_secret r \<or> hits_secret n defs steps (Some r)))"

text \<open>\<open>SecretString\<close>; the values are decoded JSON, whose encoding does not fail.\<close>

definition secret_string :: "gval \<Rightarrow> string" where
  "secret_string v = (case v of GStr s \<Rightarrow> s | _ \<Rightarrow> (case marshal v of Some t \<Rightarrow> t | None \<Rightarrow> []))"

definition masked :: gval where "masked = GStr ''***''"

fun collect_secrets :: "nat \<Rightarrow> node_defs \<Rightarrow> node option \<Rightarrow> gval \<Rightarrow> string list" where
  "collect_secrets n defs p v =
     (case p of
        None \<Rightarrow> []
      | Some s \<Rightarrow>
         if v = GNil then []
         else (case deref s defs of
           Inl e \<Rightarrow> []
         | Inr r \<Rightarrow>
             if is_secret r then (if secret_string v = [] then [] else [secret_string v])
             else (case v of
               GObj kvs \<Rightarrow> concat (map (\<lambda>(k, x). (case lookup_property n defs k (Some r) of
                              Inr child \<Rightarrow> collect_secrets n defs child x | Inl e \<Rightarrow> [])) kvs)
             | GArr xs \<Rightarrow> (case infer_index n defs (Some r) of
                              Inl e \<Rightarrow> []
                            | Inr child \<Rightarrow> concat (map (collect_secrets n defs child) xs))
             | _ \<Rightarrow> [])))"

declare collect_secrets.simps [simp del]

fun redact :: "nat \<Rightarrow> node_defs \<Rightarrow> node option \<Rightarrow> gval \<Rightarrow> gval" where
  "redact n defs p v =
     (case p of
        None \<Rightarrow> v
      | Some s \<Rightarrow>
         if v = GNil then v
         else (case deref s defs of
           Inl e \<Rightarrow> v
         | Inr r \<Rightarrow>
             if is_secret r then masked
             else (case v of
               GObj kvs \<Rightarrow> GObj (map (\<lambda>(k, x). (k, case lookup_property n defs k (Some r) of
                              Inr child \<Rightarrow> redact n defs child x | Inl e \<Rightarrow> x)) kvs)
             | GArr xs \<Rightarrow> (case infer_index n defs (Some r) of
                              Inl e \<Rightarrow> v
                            | Inr child \<Rightarrow> GArr (map (redact n defs child) xs))
             | _ \<Rightarrow> v)))"

declare redact.simps [simp del]

definition schema_redact :: "nat \<Rightarrow> node \<Rightarrow> gval \<Rightarrow> gval" where
  "schema_redact n s v = redact n (n_defs s) (Some s) v"

definition schema_collect_secrets :: "nat \<Rightarrow> node \<Rightarrow> gval \<Rightarrow> string list" where
  "schema_collect_secrets n s v = collect_secrets n (n_defs s) (Some s) v"

definition secret_at :: "nat \<Rightarrow> node \<Rightarrow> string \<Rightarrow> bool" where
  "secret_at n s path = path_hits_secret n (n_defs s) s path"

end
