(* ===== verification/Reached.thy ===== *)
theory Reached
  imports SchemaNav
begin

section \<open>The nodes navigation reaches\<close>

text \<open>
  Everything a lookup returns is a node of the document, such a node with null added or removed, or
  a union of such nodes. What holds of the nodes of the document and is kept by these changes holds
  of every type navigation gives.
\<close>

lemma set_type_simps [simp]:
  "n_type (set_type t x) = t" "n_properties (set_type t x) = n_properties x" "n_required (set_type t x) = n_required x"
  "n_items (set_type t x) = n_items x" "n_one_of (set_type t x) = n_one_of x" "n_any_of (set_type t x) = n_any_of x"
  "n_ref (set_type t x) = n_ref x" "n_secret (set_type t x) = n_secret x" "n_defs (set_type t x) = n_defs x"
  "n_all_of (set_type t x) = n_all_of x" "n_enum (set_type t x) = n_enum x"
  by (cases x, simp)+

lemma set_one_of_simps [simp]:
  "n_type (set_one_of vs x) = n_type x" "n_properties (set_one_of vs x) = n_properties x" "n_required (set_one_of vs x) = n_required x"
  "n_items (set_one_of vs x) = n_items x" "n_one_of (set_one_of vs x) = vs" "n_any_of (set_one_of vs x) = n_any_of x"
  "n_ref (set_one_of vs x) = n_ref x" "n_secret (set_one_of vs x) = n_secret x" "n_defs (set_one_of vs x) = n_defs x"
  "n_all_of (set_one_of vs x) = n_all_of x" "n_enum (set_one_of vs x) = n_enum x"
  by (cases x, simp)+

lemma set_any_of_simps [simp]:
  "n_type (set_any_of vs x) = n_type x" "n_properties (set_any_of vs x) = n_properties x" "n_required (set_any_of vs x) = n_required x"
  "n_items (set_any_of vs x) = n_items x" "n_one_of (set_any_of vs x) = n_one_of x" "n_any_of (set_any_of vs x) = vs"
  "n_ref (set_any_of vs x) = n_ref x" "n_secret (set_any_of vs x) = n_secret x" "n_defs (set_any_of vs x) = n_defs x"
  "n_all_of (set_any_of vs x) = n_all_of x" "n_enum (set_any_of vs x) = n_enum x"
  by (cases x, simp)+

lemma set_defs_simps [simp]:
  "n_type (set_defs df x) = n_type x" "n_properties (set_defs df x) = n_properties x" "n_required (set_defs df x) = n_required x"
  "n_items (set_defs df x) = n_items x" "n_one_of (set_defs df x) = n_one_of x" "n_any_of (set_defs df x) = n_any_of x"
  "n_ref (set_defs df x) = n_ref x" "n_secret (set_defs df x) = n_secret x" "n_defs (set_defs df x) = df"
  "n_all_of (set_defs df x) = n_all_of x" "n_enum (set_defs df x) = n_enum x"
  by (cases x, simp)+

inductive reached :: "node set \<Rightarrow> node \<Rightarrow> bool" for D where
  doc: "x \<in> D \<Longrightarrow> reached D x"
| scalar: "reached D (typed ts)"
| empty: "reached D empty_node"
| retyped: "reached D x \<Longrightarrow> n_type x \<noteq> [] \<Longrightarrow> n_properties x = None \<or> ts = filter (\<lambda>u. u \<noteq> ''null'') (n_type x) \<Longrightarrow> reached D (set_type ts x)"
| one_of: "vs \<noteq> [] \<Longrightarrow> (\<forall>q. Some q \<in> set vs \<longrightarrow> reached D q) \<Longrightarrow> reached D (one_of_node vs)"
| any_of: "vs \<noteq> [] \<Longrightarrow> (\<forall>q. Some q \<in> set vs \<longrightarrow> reached D q) \<Longrightarrow> reached D (any_of_node vs)"
| fewer_one_of: "reached D x \<Longrightarrow> set (variants_of vs) \<subseteq> set (variants_of (n_one_of x)) \<Longrightarrow> vs \<noteq> Some [] \<Longrightarrow>
    reached D (set_one_of vs x)"
| fewer_any_of: "reached D x \<Longrightarrow> set (variants_of vs) \<subseteq> set (variants_of (n_any_of x)) \<Longrightarrow> vs \<noteq> Some [] \<Longrightarrow>
    reached D (set_any_of vs x)"
| with_context: "reached D x \<Longrightarrow> reached D (set_defs df x)"

text \<open>A set of nodes with everything below it and every definition.\<close>

definition closed :: "node_defs \<Rightarrow> node set \<Rightarrow> bool" where
  "closed defs D \<longleftrightarrow>
     (\<forall>x \<in> D. (\<forall>k q. (k, Some q) \<in> set (entries_of (n_properties x)) \<longrightarrow> q \<in> D)
        \<and> (\<forall>q. n_items x = Some q \<longrightarrow> q \<in> D)
        \<and> (\<forall>q. Some q \<in> set (variants_of (n_one_of x)) \<union> set (variants_of (n_any_of x)) \<longrightarrow> q \<in> D))
   \<and> (\<forall>k q. def_node defs k = Some q \<longrightarrow> q \<in> D)"

lemma variants_simps [simp]: "variants_of None = []" "variants_of (Some l) = l"
  by (simp_all add: variants_of_def)

lemma reached_child:
  assumes "closed defs D" and "reached D x"
  shows "(\<forall>k q. (k, Some q) \<in> set (entries_of (n_properties x)) \<longrightarrow> reached D q)
        \<and> (\<forall>q. n_items x = Some q \<longrightarrow> reached D q)
        \<and> (\<forall>q. Some q \<in> set (variants_of (n_one_of x)) \<union> set (variants_of (n_any_of x)) \<longrightarrow> reached D q)"
  using assms(2)
proof (induction rule: reached.induct)
  case (doc x)
  with assms(1) show ?case unfolding closed_def by (blast intro: reached.doc)
next
  case (fewer_one_of x vs)
  then show ?case by auto
next
  case (fewer_any_of x vs)
  then show ?case by auto
qed (auto simp: entries_of_def)

lemmas reached_property = reached_child [THEN conjunct1, rule_format]
lemmas reached_items = reached_child [THEN conjunct2, THEN conjunct1, rule_format]
lemmas reached_variant = reached_child [THEN conjunct2, THEN conjunct2, rule_format]

lemma deref_target: "deref x defs = Inr r \<Longrightarrow> r = x \<or> (\<exists>k. def_node defs k = Some r)"
  unfolding deref_def by (auto split: if_splits option.splits)

lemma reached_deref: "closed defs D \<Longrightarrow> reached D x \<Longrightarrow> deref x defs = Inr r \<Longrightarrow> reached D r"
  using deref_target [of x defs r] reached.doc [of r D] unfolding closed_def by blast

lemma reached_or_null:
  assumes x: "reached D x"
  shows "reached D (one_of_node [Some x, Some (typed [''null''])])"
proof -
  have "reached D q" if "q = x \<or> q = typed [''null'']" for q
    using that by (elim disjE) (simp_all only: x reached.scalar)
  then have "\<forall>q. Some q \<in> set [Some x, Some (typed [''null''])] \<longrightarrow> reached D q" by simp
  then show ?thesis by (intro reached.one_of) simp_all
qed

lemma reached_with_null:
  assumes "reached D x"
  shows "reached D (with_null x)"
proof -
  have "with_null x = x \<or> n_properties x = None \<and> n_type x \<noteq> [] \<and> with_null x = set_type (n_type x @ [''null'']) x
      \<or> with_null x = one_of_node [Some x, Some (typed [''null''])]"
    unfolding with_null_def by (simp split: if_split)
  with assms reached_or_null reached.retyped show ?thesis by metis
qed

lemma reached_strip_null:
  assumes "closed defs D" and x: "reached D x" and s: "strip_null x = Some y"
  shows "reached D y"
proof -
  have v: "reached D q" if "Some q \<in> set (variants_of (n_one_of x)) \<union> set (variants_of (n_any_of x))" for q
    using reached_variant [OF assms(1) x] that by blast
  have sub: "set (non_null vs) \<subseteq> set vs" for vs by (auto simp: non_null_def)
  show ?thesis
  proof (cases "n_type x = []")
    case False
    with s x show ?thesis by (auto simp: strip_null_def Let_def split: if_splits intro: reached.retyped)
  next
    case True
    have one: "non_null vs = [Some q] \<Longrightarrow> Some q \<in> set vs" for vs q
      using sub [of vs] by auto
    show ?thesis
      using s True x v sub [of "variants_of (n_one_of x)"] sub [of "variants_of (n_any_of x)"]
        one [of "variants_of (n_one_of x)" y] one [of "variants_of (n_any_of x)" y]
      by (auto simp: strip_null_def Let_def split: if_splits list.splits
          intro!: reached.fewer_one_of reached.fewer_any_of)
  qed
qed

text \<open>Results of lookups.\<close>

definition reached_opt :: "node set \<Rightarrow> node option \<Rightarrow> bool" where
  "reached_opt D p \<longleftrightarrow> (\<forall>x. p = Some x \<longrightarrow> reached D x)"

lemma reached_opt_simps [simp]: "reached_opt D None" "reached_opt D (Some x) \<longleftrightarrow> reached D x"
  by (simp_all add: reached_opt_def)

lemma set_got: "r \<in> set (got bs) \<longleftrightarrow> Got r \<in> set bs"
  by (induction bs rule: got.induct) auto

lemma branch_result_Got: "branch_result r b = Inr (Got x) \<Longrightarrow> b \<noteq> Got x \<Longrightarrow> r = Inr x"
  by (auto simp: branch_result_def split: sum.splits if_splits)

lemma with_null_opt_reached: "reached_opt D p \<Longrightarrow> reached_opt D (with_null_opt p)"
  by (cases p) (auto simp: with_null_opt_def reached_with_null)

lemma union_property_got:
  assumes "traverse (property_branch rec) vs = Inr bs" and "r \<in> set (got bs)"
  shows "\<exists>v \<in> set vs. v \<noteq> None \<and> \<not> is_null_type v \<and> rec v = Inr r"
proof -
  from assms(2) have "Got r \<in> set bs" by (simp add: set_got)
  from traverse_set [OF assms(1) this] show ?thesis
    by (auto simp: property_branch_def split: if_splits dest!: branch_result_Got)
qed

lemma union_index_got:
  assumes "traverse (index_branch rec) vs = Inr bs" and "r \<in> set (got bs)"
  shows "\<exists>v \<in> set vs. v \<noteq> None \<and> \<not> is_null_type v \<and> rec v = Inr r"
proof -
  from assms(2) have "Got r \<in> set bs" by (simp add: set_got)
  from traverse_set [OF assms(1) this] show ?thesis
    by (auto simp: index_branch_def split: if_splits dest!: branch_result_Got)
qed

lemma union_property_reached:
  assumes "union_property mk rec name vs = Inr r"
      and "\<And>v r. v \<in> set vs \<Longrightarrow> v \<noteq> None \<Longrightarrow> rec v = Inr r \<Longrightarrow> reached_opt D r"
      and mk: "\<And>ws. ws \<noteq> [] \<Longrightarrow> (\<forall>q. Some q \<in> set ws \<longrightarrow> reached D q) \<Longrightarrow> reached D (mk ws)"
  shows "reached_opt D r"
proof -
  from assms(1) obtain bs where bs: "traverse (property_branch rec) vs = Inr bs"
    and r: "(if got bs = [] then (if Miss_branch \<in> set bs then Inl (NotInVariants name) else Inr (Some (typed [''null''])))
       else Inr (let res = (if all_same (got bs) then hd (got bs) else Some (mk (got bs)))
                 in if Null_branch \<in> set bs \<or> Miss_branch \<in> set bs then with_null_opt res else res)) = Inr r"
    unfolding union_property_def and_then_eq_Inr Let_def by blast
  have g: "\<forall>p \<in> set (got bs). reached_opt D p"
    using union_property_got [OF bs] assms(2) by blast
  have "reached_opt D (if all_same (got bs) then hd (got bs) else Some (mk (got bs)))" if "got bs \<noteq> []"
  proof (cases "all_same (got bs)")
    case True
    with that have "hd (got bs) \<in> set (got bs)" by simp
    with g True show ?thesis by simp
  next
    case False
    with g mk [of "got bs"] that show ?thesis by (auto simp: reached_opt_def)
  qed
  with r show ?thesis by (auto simp: Let_def split: if_splits intro: reached.scalar with_null_opt_reached)
qed

lemma union_index_reached:
  assumes "union_index rec vs = Inr r"
      and "\<And>v r. v \<in> set vs \<Longrightarrow> v \<noteq> None \<Longrightarrow> rec v = Inr r \<Longrightarrow> reached_opt D r"
  shows "reached_opt D r"
proof -
  from assms(1) obtain bs where bs: "traverse (index_branch rec) vs = Inr bs"
    and r: "(if got bs = [] then Some (typed [''null''])
       else (let res = (if all_same (got bs) then hd (got bs) else Some (any_of_node (got bs)))
             in if (Null_branch \<in> set bs \<or> Miss_branch \<in> set bs) \<and> \<not> has_null_opt res then with_null_opt res else res)) = r"
    by (auto simp: union_index_def and_then_eq_Inr Let_def split: if_splits)
  have g: "\<forall>p \<in> set (got bs). reached_opt D p"
    using union_index_got [OF bs] assms(2) by blast
  have "reached_opt D (if all_same (got bs) then hd (got bs) else Some (any_of_node (got bs)))" if "got bs \<noteq> []"
  proof (cases "all_same (got bs)")
    case True
    with that have "hd (got bs) \<in> set (got bs)" by simp
    with g True show ?thesis by simp
  next
    case False
    with g that show ?thesis by (auto simp: reached_opt_def intro: reached.any_of)
  qed
  with r show ?thesis by (auto simp: Let_def split: if_splits intro: reached.scalar with_null_opt_reached)
qed

lemma plain_property_reached:
  assumes "closed defs D" and "reached D r" and "plain_property r name defs = Inr p"
  shows "reached_opt D p"
proof -
  from assms(3) obtain ps q res where "n_properties r = Some ps" "map_of ps name = Some q" "deref_opt q defs = Inr res"
    and p: "p = (if is_required r name then res else with_null_opt res)"
    by (auto simp: plain_property_def and_then_eq_Inr split: option.splits)
  moreover have "(name, q) \<in> set (entries_of (n_properties r))"
    using calculation(1,2) by (auto simp: entries_of_def dest: map_of_SomeD)
  ultimately have "reached_opt D res"
  proof (cases q)
    case (Some a)
    with \<open>(name, q) \<in> _\<close> have "reached D a" using reached_property [OF assms(1,2)] by blast
    with \<open>deref_opt q defs = Inr res\<close> Some show ?thesis
      by (auto simp: deref_opt_def and_then_eq_Inr dest: reached_deref [OF assms(1)])
  qed (simp add: deref_opt_def)
  with p show ?thesis by (simp add: with_null_opt_reached)
qed

lemma lookup_property_reached:
  "closed defs D \<Longrightarrow> reached_opt D p \<Longrightarrow> lookup_property n defs name p = Inr r \<Longrightarrow> reached_opt D r"
proof (induction n arbitrary: p r)
  case (Suc n)
  then obtain s t where s: "p = Some s" "deref s defs = Inr t"
    by (cases p) (auto simp: and_then_eq_Inr)
  with Suc.prems have t: "reached D t" by (simp add: reached_deref [OF Suc.prems(1)])
  note v = reached_variant [OF Suc.prems(1) t]
  show ?case
  proof (cases "n_any_of t")
    case (Some vs)
    with s Suc.prems have u: "union_property any_of_node (lookup_property n defs name) name vs = Inr r" by (simp add: property_step_def)
    show ?thesis
    proof (rule union_property_reached [OF u])
      fix w q assume "w \<in> set vs" "w \<noteq> None" "lookup_property n defs name w = Inr q"
      moreover have "reached_opt D w" unfolding reached_opt_def using v Some \<open>w \<in> set vs\<close> by auto
      ultimately show "reached_opt D q" using Suc.IH [OF Suc.prems(1)] by blast
    qed (rule reached.any_of)
  next
    case None
    show ?thesis
    proof (cases "n_one_of t")
      case (Some vs)
      with None s Suc.prems have u: "union_property one_of_node (lookup_property n defs name) name vs = Inr r" by (simp add: property_step_def)
      show ?thesis
      proof (rule union_property_reached [OF u])
        fix w q assume "w \<in> set vs" "w \<noteq> None" "lookup_property n defs name w = Inr q"
        moreover have "reached_opt D w" unfolding reached_opt_def using v Some \<open>w \<in> set vs\<close> by auto
        ultimately show "reached_opt D q" using Suc.IH [OF Suc.prems(1)] by blast
      qed (rule reached.one_of)
    next
      case none: None
      with None s Suc.prems have "plain_property t name defs = Inr r" by (simp add: property_step_def)
      with plain_property_reached [OF Suc.prems(1) t] show ?thesis by blast
    qed
  qed
qed simp

lemma plain_index_reached:
  assumes "closed defs D" and "reached D r" and "plain_index r = Inr p"
  shows "reached_opt D p"
  using assms reached_items [OF assms(1,2)]
  by (auto simp: plain_index_def split: if_splits option.splits intro: reached.empty reached_with_null)

lemma infer_index_reached:
  "closed defs D \<Longrightarrow> reached_opt D p \<Longrightarrow> infer_index n defs p = Inr r \<Longrightarrow> reached_opt D r"
proof (induction n arbitrary: p r)
  case (Suc n)
  then obtain s t0 where s0: "p = Some s" "deref s defs = Inr t0" by (cases p) (auto simp: and_then_eq_Inr)
  with Suc.prems obtain t where st: "strip_null t0 = Some t" by (cases "strip_null t0") (auto simp: index_step_def)
  note s = s0 st
  with Suc.prems have "reached D t0" by (simp add: reached_deref [OF Suc.prems(1)])
  from reached_strip_null [OF Suc.prems(1) this s(3)] have t: "reached D t" .
  note v = reached_variant [OF Suc.prems(1) t]
  have union: "reached_opt D r" if u: "union_index (infer_index n defs) ws = Inr r"
    and vs: "n_any_of t = Some ws \<or> n_one_of t = Some ws" for ws
  proof (rule union_index_reached [OF u])
    fix w q assume "w \<in> set ws" "w \<noteq> None" "infer_index n defs w = Inr q"
    moreover have "reached_opt D w" unfolding reached_opt_def using v vs \<open>w \<in> set ws\<close> by auto
    ultimately show "reached_opt D q" using Suc.IH [OF Suc.prems(1)] by blast
  qed
  from Suc.prems(3) have "(case n_any_of t of Some vs \<Rightarrow> union_index (infer_index n defs) vs
      | None \<Rightarrow> (case n_one_of t of Some vs \<Rightarrow> union_index (infer_index n defs) vs | None \<Rightarrow> plain_index t)) = Inr r"
    by (simp add: s index_step_def)
  then consider vs where "n_any_of t = Some vs" "union_index (infer_index n defs) vs = Inr r"
    | vs where "n_one_of t = Some vs" "union_index (infer_index n defs) vs = Inr r"
    | "plain_index t = Inr r" by (cases "n_any_of t"; cases "n_one_of t") simp_all
  then show ?case
    by cases (use union plain_index_reached [OF Suc.prems(1) t] in blast)+
qed simp

lemma step_into_reached:
  assumes "closed defs D" and "reached_opt D p" and "step_into n defs st p = Inr r"
  shows "reached_opt D r"
proof (cases "st_prop st = []")
  case True
  with assms(3) infer_index_reached [OF assms(1,2)] show ?thesis by (simp add: step_into_def)
next
  case False
  with assms(3) lookup_property_reached [OF assms(1,2)] show ?thesis by (simp add: step_into_def)
qed

lemma closed_subnodes: "closed (n_defs s) (set (subnodes s))"
proof -
  have "q \<in> set (subnodes s)" if "def_node (n_defs s) k = Some q" for k q
  proof -
    from that have "(k, Some q) \<in> set (entries_of (n_defs s))"
      by (auto simp: def_node_def entries_of_def split: option.splits dest: map_of_SomeD)
    then have "q \<in> set (children s)" unfolding set_children by blast
    then show ?thesis by (rule subnodes_child [OF subnodes_self])
  qed
  moreover have "q \<in> set (subnodes s)" if "x \<in> set (subnodes s)" "q \<in> set (children x)" for x q
    using that by (rule subnodes_child)
  ultimately show ?thesis
    unfolding closed_def set_children by blast
qed

subsection \<open>Enough depth\<close>

text \<open>A lookup that does not run out of depth gives the same answer at every greater depth.\<close>

definition extends_lookup :: "lookup \<Rightarrow> lookup \<Rightarrow> bool" where
  "extends_lookup f g \<longleftrightarrow> (\<forall>p. f p \<noteq> Inl OutOfFuel \<longrightarrow> g p = f p)"

lemma property_branch_extends:
  "extends_lookup f g \<Longrightarrow> property_branch f v \<noteq> Inl OutOfFuel \<Longrightarrow> property_branch g v = property_branch f v"
  by (auto simp: extends_lookup_def property_branch_def branch_result_def fatal_def split: sum.splits if_splits)

lemma index_branch_extends:
  "extends_lookup f g \<Longrightarrow> index_branch f v \<noteq> Inl OutOfFuel \<Longrightarrow> index_branch g v = index_branch f v"
  by (auto simp: extends_lookup_def index_branch_def branch_result_def fatal_def split: sum.splits if_splits)

lemma union_property_extends:
  assumes "extends_lookup f g" and "union_property mk f name vs \<noteq> Inl OutOfFuel"
  shows "union_property mk g name vs = union_property mk f name vs"
proof -
  have "traverse (property_branch f) vs \<noteq> Inl OutOfFuel" using assms(2) by (auto simp: union_property_def)
  then have "traverse (property_branch g) vs = traverse (property_branch f) vs"
    by (rule traverse_refines [rotated]) (rule property_branch_extends [OF assms(1)])
  then show ?thesis by (simp add: union_property_def)
qed

lemma union_index_extends:
  assumes "extends_lookup f g" and "union_index f vs \<noteq> Inl OutOfFuel"
  shows "union_index g vs = union_index f vs"
proof -
  have "traverse (index_branch f) vs \<noteq> Inl OutOfFuel" using assms(2) by (auto simp: union_index_def)
  then have "traverse (index_branch g) vs = traverse (index_branch f) vs"
    by (rule traverse_refines [rotated]) (rule index_branch_extends [OF assms(1)])
  then show ?thesis by (simp add: union_index_def)
qed

lemma property_step_extends:
  "extends_lookup f g \<Longrightarrow> property_step f name defs r \<noteq> Inl OutOfFuel \<Longrightarrow> property_step g name defs r = property_step f name defs r"
  by (cases "n_any_of r"; cases "n_one_of r") (simp_all add: property_step_def union_property_extends)

lemma index_step_extends:
  "extends_lookup f g \<Longrightarrow> index_step f r \<noteq> Inl OutOfFuel \<Longrightarrow> index_step g r = index_step f r"
proof (cases "strip_null r")
  case (Some t)
  assume "extends_lookup f g" "index_step f r \<noteq> Inl OutOfFuel"
  with Some show ?thesis by (cases "n_any_of t"; cases "n_one_of t") (simp_all add: index_step_def union_index_extends)
qed (simp add: index_step_def)

lemma lookup_property_Suc: "extends_lookup (lookup_property n defs name) (lookup_property (Suc n) defs name)"
proof (induction n)
  case (Suc n)
  have "lookup_property (Suc (Suc n)) defs name (Some s) = lookup_property (Suc n) defs name (Some s)"
    if "lookup_property (Suc n) defs name (Some s) \<noteq> Inl OutOfFuel" for s
  proof (cases "deref s defs")
    case (Inr r)
    with that property_step_extends [OF Suc.IH, of name defs r] show ?thesis
      unfolding lookup_property.simps(2) [of "Suc n"] lookup_property.simps(2) [of n] by simp
  qed simp
  moreover have "lookup_property (Suc (Suc n)) defs name None = lookup_property (Suc n) defs name None" by simp
  ultimately show ?case unfolding extends_lookup_def by (metis not_None_eq)
qed (simp add: extends_lookup_def)

lemma infer_index_Suc: "extends_lookup (infer_index n defs) (infer_index (Suc n) defs)"
proof (induction n)
  case (Suc n)
  have "infer_index (Suc (Suc n)) defs (Some s) = infer_index (Suc n) defs (Some s)"
    if "infer_index (Suc n) defs (Some s) \<noteq> Inl OutOfFuel" for s
  proof (cases "deref s defs")
    case (Inr r)
    with that index_step_extends [OF Suc.IH, of r] show ?thesis
      unfolding infer_index.simps(2) [of "Suc n"] infer_index.simps(2) [of n] by simp
  qed simp
  moreover have "infer_index (Suc (Suc n)) defs None = infer_index (Suc n) defs None" by simp
  ultimately show ?case unfolding extends_lookup_def by (metis not_None_eq)
qed (simp add: extends_lookup_def)

lemma lookup_property_enough:
  "n \<le> m \<Longrightarrow> lookup_property n defs name p \<noteq> Inl OutOfFuel \<Longrightarrow> lookup_property m defs name p = lookup_property n defs name p"
proof (induction m rule: dec_induct)
  case (step m)
  then show ?case using lookup_property_Suc [of m defs name] unfolding extends_lookup_def by metis
qed simp

lemma infer_index_enough:
  "n \<le> m \<Longrightarrow> infer_index n defs p \<noteq> Inl OutOfFuel \<Longrightarrow> infer_index m defs p = infer_index n defs p"
proof (induction m rule: dec_induct)
  case (step m)
  then show ?case using infer_index_Suc [of m defs] unfolding extends_lookup_def by metis
qed simp

end
