(* ===== verification/Infer.thy ===== *)
theory Infer
  imports SchemaNav Expr
begin

section \<open>Type inference of expressions (\<open>internal/expression\<close>: \<open>infer.go\<close>, \<open>ops.go\<close>)\<close>

text \<open>
  The schema of an expression's value, from the schema of its context. A condition that compares a
  path with a literal narrows the path in the branches: \<open>guards\<close> holds the narrowed types by path.
  \<open>n\<close> is the depth allowed to schema lookups.
\<close>

datatype infer_error =
    NilUnsupported
  | NotSupported string
  | BadLookup schema_error
  | Nullable
  | AmbiguousOperand
  | WrongOperand

type_synonym guards = "(string \<times> node) list"

definition lookup_result :: "schema_error + node \<Rightarrow> infer_error + node" where
  "lookup_result r = (case r of Inl e \<Rightarrow> Inl (BadLookup e) | Inr s \<Rightarrow> Inr s)"

subsection \<open>Helpers on types\<close>

definition is_numeric :: "string \<Rightarrow> bool" where
  "is_numeric t \<longleftrightarrow> t = ''integer'' \<or> t = ''number''"

text \<open>The one type of a variant, \<open>None\<close> when there is none or it is null.\<close>

definition variant_type :: "node option \<Rightarrow> string option" where
  "variant_type v =
     (case v of None \<Rightarrow> None
      | Some q \<Rightarrow> if is_null_type v then None else (case n_type q of [t] \<Rightarrow> Some t | _ \<Rightarrow> None))"

fun all_of :: "'a option list \<Rightarrow> 'a list option" where
  "all_of [] = Some []"
| "all_of (None # xs) = None"
| "all_of (Some x # xs) = map_option ((#) x) (all_of xs)"

definition concrete_type_of :: "node \<Rightarrow> string option" where
  "concrete_type_of s =
     (case n_type s of
        [t] \<Rightarrow> Some t
      | _ \<Rightarrow>
         (case schema_variants s of
            None \<Rightarrow> None
          | Some vs \<Rightarrow>
             (case all_of (map variant_type vs) of
                None \<Rightarrow> None
              | Some [] \<Rightarrow> None
              | Some (t # ts) \<Rightarrow>
                  if list_all (\<lambda>u. u = t) ts then Some t
                  else if list_all is_numeric (t # ts) then Some ''number''
                  else None)))"

definition unwrap_single_variant :: "node \<Rightarrow> node" where
  "unwrap_single_variant s =
     (case schema_variants s of
        None \<Rightarrow> s
      | Some vs \<Rightarrow>
          if list_ex (\<lambda>v. v = None \<or> is_null_type v) vs then s
          else (case vs of [Some q] \<Rightarrow> q | _ \<Rightarrow> s))"

definition schemas_equal :: "node \<Rightarrow> node \<Rightarrow> bool" where
  "schemas_equal a b \<longleftrightarrow> same_text (Some (strip_defs_deep a)) (Some (strip_defs_deep b))"

definition has_properties :: "node \<Rightarrow> bool" where
  "has_properties s \<longleftrightarrow> entries_of (n_properties s) \<noteq> []"

definition try_nullable :: "node \<Rightarrow> node \<Rightarrow> node option" where
  "try_nullable self other =
     (if \<not> is_null_type (Some other) then None
      else if has_null_type self then Some self
      else if has_properties self then None
      else case n_type self of
             [t] \<Rightarrow> if t \<noteq> ''null'' then Some (schema_with_null self) else None
           | _ \<Rightarrow> None)"

definition nullable_schema :: "node \<Rightarrow> node \<Rightarrow> node option" where
  "nullable_schema a b = (case try_nullable a b of Some s \<Rightarrow> Some s | None \<Rightarrow> try_nullable b a)"

definition union_type :: "node \<Rightarrow> node \<Rightarrow> node" where
  "union_type a b = one_of_node [Some a, Some b]"

subsection \<open>Operators\<close>

text \<open>Both operands non-nullable and of one type each.\<close>

definition concrete_operands :: "node \<Rightarrow> node \<Rightarrow> infer_error + string \<times> string" where
  "concrete_operands l r =
     (if has_null_type l \<or> has_null_type r then Inl Nullable
      else case (concrete_type_of l, concrete_type_of r) of
             (Some a, Some b) \<Rightarrow> Inr (a, b)
           | _ \<Rightarrow> Inl AmbiguousOperand)"

definition infer_ordering_cmp :: "node \<Rightarrow> node \<Rightarrow> infer_error + node" where
  "infer_ordering_cmp l r =
     and_then (concrete_operands l r) (\<lambda>(a, b).
       if \<not> is_numeric a \<or> \<not> is_numeric b then Inl WrongOperand else Inr (typed [''boolean'']))"

definition infer_logical :: "node \<Rightarrow> node \<Rightarrow> infer_error + node" where
  "infer_logical l r =
     and_then (concrete_operands l r) (\<lambda>(a, b).
       if a \<noteq> ''boolean'' \<or> b \<noteq> ''boolean'' then Inl WrongOperand else Inr (typed [''boolean'']))"

definition infer_arith :: "node \<Rightarrow> node \<Rightarrow> infer_error + node" where
  "infer_arith l r =
     and_then (concrete_operands l r) (\<lambda>(a, b).
       if \<not> is_numeric a \<or> \<not> is_numeric b then Inl WrongOperand
       else if a = ''integer'' \<and> b = ''integer'' then Inr (typed [''integer''])
       else Inr (typed [''number'']))"

definition infer_add :: "node \<Rightarrow> node \<Rightarrow> infer_error + node" where
  "infer_add l r =
     and_then (concrete_operands l r) (\<lambda>(a, b).
       if a = ''string'' \<and> b = ''string'' then Inr (typed [''string'']) else infer_arith l r)"

definition infer_mod :: "node \<Rightarrow> node \<Rightarrow> infer_error + node" where
  "infer_mod l r =
     and_then (concrete_operands l r) (\<lambda>(a, b).
       if a \<noteq> ''integer'' \<or> b \<noteq> ''integer'' then Inl WrongOperand else Inr (typed [''integer'']))"

definition infer_div :: "node \<Rightarrow> node \<Rightarrow> infer_error + node" where
  "infer_div l r =
     and_then (concrete_operands l r) (\<lambda>(a, b).
       if \<not> is_numeric a \<or> \<not> is_numeric b then Inl WrongOperand else Inr (typed [''number'']))"

definition infer_null_coalesce :: "node \<Rightarrow> node \<Rightarrow> infer_error + node" where
  "infer_null_coalesce l r =
     (if is_null_type (Some l) then Inr r
      else
        let nn = schema_strip_null l in
        if schemas_equal l nn then Inr l
        else if schemas_equal nn r then Inr nn
        else case (concrete_type_of nn, concrete_type_of r) of
               (Some a, Some b) \<Rightarrow>
                 if is_numeric a \<and> is_numeric b then Inr (typed [if a = b then a else ''number''])
                 else Inr (union_type nn r)
             | _ \<Rightarrow> Inr (union_type nn r))"

definition infer_not :: "node \<Rightarrow> infer_error + node" where
  "infer_not s =
     (if has_null_type s then Inl Nullable
      else case concrete_type_of s of
             None \<Rightarrow> Inl AmbiguousOperand
           | Some t \<Rightarrow> if t \<noteq> ''boolean'' then Inl WrongOperand else Inr (typed [''boolean'']))"

definition numeric_passthrough :: "node \<Rightarrow> infer_error + node" where
  "numeric_passthrough s =
     (if has_null_type s then Inl Nullable
      else case concrete_type_of s of
             None \<Rightarrow> Inl AmbiguousOperand
           | Some t \<Rightarrow> if \<not> is_numeric t then Inl WrongOperand else Inr s)"

definition binary_infer :: "string \<Rightarrow> (node \<Rightarrow> node \<Rightarrow> infer_error + node) option" where
  "binary_infer s =
     (if s = ''=='' \<or> s = ''!='' then Some (\<lambda>l r. Inr (typed [''boolean'']))
      else if s \<in> {''<'', ''>'', ''<='', ''>=''} then Some infer_ordering_cmp
      else if s = ''&&'' \<or> s = ''||'' then Some infer_logical
      else if s = ''+'' then Some infer_add
      else if s = ''-'' \<or> s = ''*'' then Some infer_arith
      else if s = ''/'' then Some infer_div
      else if s = ''%'' then Some infer_mod
      else if s = ''??'' then Some infer_null_coalesce
      else None)"

definition unary_infer :: "string \<Rightarrow> (node \<Rightarrow> infer_error + node) option" where
  "unary_infer s =
     (if s = ''!'' then Some infer_not
      else if s = ''-'' \<or> s = ''+'' then Some numeric_passthrough
      else None)"

subsection \<open>Paths and narrowing\<close>

fun node_path :: "expr \<Rightarrow> string" where
  "node_path (EIdent x) = x"
| "node_path (EMember e p) =
     (if node_path e = [] then []
      else case p of
             EStr k \<Rightarrow> node_path e @ ''.'' @ k
           | EInt i \<Rightarrow> node_path e @ ''['' @ dec_int i @ '']''
           | _ \<Rightarrow> [])"
| "node_path e = []"

fun is_literal :: "expr \<Rightarrow> bool" where
  "is_literal (EBool b) = True"
| "is_literal (EStr s) = True"
| "is_literal (EInt i) = True"
| "is_literal (EFloat f) = True"
| "is_literal (EIdent x) = (x = ''null'')"
| "is_literal e = False"

definition is_null_literal :: "expr \<Rightarrow> bool" where
  "is_null_literal e \<longleftrightarrow> e = EIdent ''null''"

text \<open>An equality condition with a literal on one side and a path on the other.\<close>

definition narrowing :: "expr \<Rightarrow> (bool \<times> expr \<times> expr) option" where
  "narrowing c =
     (case c of
        EBinary s l r \<Rightarrow>
          if s \<noteq> ''=='' \<and> s \<noteq> ''!='' then None
          else if is_literal r then (if node_path l = [] then None else Some (s = ''=='', l, r))
          else if is_literal l then (if node_path r = [] then None else Some (s = ''=='', r, l))
          else None
      | _ \<Rightarrow> None)"

lemma narrowing_smaller [termination_simp]:
  "Some (e, subj, lit) = narrowing c \<Longrightarrow> size subj < Suc (size c + j + k)"
  "Some (e, subj, lit) = narrowing c \<Longrightarrow> size lit < Suc (size c + j + k)"
  "narrowing c = Some (e, subj, lit) \<Longrightarrow> size subj < Suc (size c + j + k)"
  "narrowing c = Some (e, subj, lit) \<Longrightarrow> size lit < Suc (size c + j + k)"
  by (auto simp: narrowing_def split: expr.splits if_splits)

text \<open>\<open>withGuard\<close> for the branch where the equality holds and for the one where it does not.\<close>

definition equal_guard :: "guards \<Rightarrow> string \<Rightarrow> infer_error + node \<Rightarrow> guards" where
  "equal_guard g path lt = (case lt of Inl e \<Rightarrow> g | Inr t \<Rightarrow> (path, t) # g)"

definition differ_guard :: "guards \<Rightarrow> string \<Rightarrow> expr \<Rightarrow> infer_error + node \<Rightarrow> infer_error + node \<Rightarrow> guards" where
  "differ_guard g path lit lt st =
     (case (lt, st) of
        (Inr t, Inr s) \<Rightarrow> if is_null_literal lit then (path, schema_strip_null s) # g else g
      | _ \<Rightarrow> g)"

definition narrowed :: "bool \<Rightarrow> string \<Rightarrow> expr \<Rightarrow> infer_error + node \<Rightarrow> infer_error + node \<Rightarrow> guards \<Rightarrow> guards" where
  "narrowed equal path lit lt st g = (if equal then equal_guard g path lt else differ_guard g path lit lt st)"

subsection \<open>Inference\<close>

definition branch_types :: "infer_error + node \<Rightarrow> infer_error + node \<Rightarrow> infer_error + node" where
  "branch_types rt rf =
     and_then rt (\<lambda>t. and_then rf (\<lambda>f.
       if schemas_equal t f then Inr t
       else case nullable_schema t f of Some u \<Rightarrow> Inr u | None \<Rightarrow> Inr (union_type t f)))"

fun infer :: "nat \<Rightarrow> node \<Rightarrow> guards \<Rightarrow> expr \<Rightarrow> infer_error + node" where
  "infer n s g (EInt i) = Inr (typed [''integer''])"
| "infer n s g (EFloat f) = Inr (typed [''number''])"
| "infer n s g (EStr x) = Inr (typed [''string''])"
| "infer n s g (EBool b) = Inr (typed [''boolean''])"
| "infer n s g ENil = Inl NilUnsupported"
| "infer n s g (EIdent x) =
     (if x = ''null'' then Inr (typed [''null''])
      else case map_of g x of Some t \<Rightarrow> Inr t | None \<Rightarrow> lookup_result (schema_property n s x))"
| "infer n s g (EMember e p) =
     (case (if node_path (EMember e p) = [] then None else map_of g (node_path (EMember e p))) of
        Some t \<Rightarrow> Inr t
      | None \<Rightarrow>
          and_then (infer n s g e) (\<lambda>base.
            if is_null_type (Some base) then Inr (typed [''null''])
            else case p of
                   EStr k \<Rightarrow> lookup_result (schema_property n (with_defs (n_defs s) base) k)
                 | EInt i \<Rightarrow> lookup_result (schema_index n (with_defs (n_defs s) base))
                 | _ \<Rightarrow> Inl (NotSupported ''computed member access [expr]'')))"
| "infer n s g (EBinary op l r) =
     (case binary_infer op of
        None \<Rightarrow> Inl (NotSupported op)
      | Some f \<Rightarrow> and_then (infer n s g l) (\<lambda>a. and_then (infer n s g r) (\<lambda>b.
          f (unwrap_single_variant a) (unwrap_single_variant b))))"
| "infer n s g (EUnary op e) =
     (case unary_infer op of
        None \<Rightarrow> Inl (NotSupported op)
      | Some f \<Rightarrow> and_then (infer n s g e) (\<lambda>a. f (unwrap_single_variant a)))"
| "infer n s g (ECond c a b) =
     (case narrowing c of
        None \<Rightarrow> and_then (infer n s g c) (\<lambda>_. branch_types (infer n s g a) (infer n s g b))
      | Some (holds, subj, lit) \<Rightarrow>
          and_then (infer n s g c) (\<lambda>_. branch_types
            (infer n s (narrowed holds (node_path subj) lit (infer n s g lit) (infer n s g subj) g) a)
            (infer n s (narrowed (\<not> holds) (node_path subj) lit (infer n s g lit) (infer n s g subj) g) b)))"
| "infer n s g (EOther k) = Inl (NotSupported k)"

text \<open>\<open>InferType\<close> of a parsed expression.\<close>

definition infer_type :: "nat \<Rightarrow> node \<Rightarrow> expr \<Rightarrow> infer_error + node" where
  "infer_type n s e = infer n s [] e"

subsection \<open>Secrets an expression reads\<close>

fun walk_secret_refs :: "nat \<Rightarrow> node \<Rightarrow> expr \<Rightarrow> bool" where
  "walk_secret_refs n s (EMember e p) \<longleftrightarrow>
     (node_path (EMember e p) \<noteq> [] \<and> secret_at n s (node_path (EMember e p)))
   \<or> walk_secret_refs n s e \<or> walk_secret_refs n s p"
| "walk_secret_refs n s (EIdent x) \<longleftrightarrow> x \<noteq> [] \<and> secret_at n s x"
| "walk_secret_refs n s (EBinary op l r) \<longleftrightarrow> walk_secret_refs n s l \<or> walk_secret_refs n s r"
| "walk_secret_refs n s (EUnary op e) \<longleftrightarrow> walk_secret_refs n s e"
| "walk_secret_refs n s (ECond c a b) \<longleftrightarrow>
     walk_secret_refs n s c \<or> walk_secret_refs n s a \<or> walk_secret_refs n s b"
| "walk_secret_refs n s e \<longleftrightarrow> False"

end
