(* ===== verification/Shape.thy ===== *)
theory Shape
  imports Reached Infer
begin

section \<open>The shape a type promises\<close>

text \<open>
  \<open>has_shape\<close> is what type inference speaks about: kinds and structure, without the bounds, lengths
  and enums of a schema. It is implied by \<open>fits\<close>. An integer that arithmetic has driven out of range
  is a float infinity or NaN; it counts as an integer here, and as nothing in a document.
\<close>

definition of_kind :: "gval \<Rightarrow> string \<Rightarrow> bool" where
  "of_kind v t \<longleftrightarrow> value_has_type v t \<or>
     (t = ''integer'' \<and> (case v of GFloat (Fin q) \<Rightarrow> False | GFloat f \<Rightarrow> True | _ \<Rightarrow> False))"

definition kind_ok :: "node \<Rightarrow> gval \<Rightarrow> bool" where
  "kind_ok r v \<longleftrightarrow> n_type r = [] \<or> list_ex (of_kind v) (n_type r)"

inductive has_shape :: "node_defs \<Rightarrow> node option \<Rightarrow> gval \<Rightarrow> bool" for defs where
  nothing: "has_shape defs None v"
| unconstrained: "deref s defs = Inr r \<Longrightarrow> is_empty_schema r \<Longrightarrow> has_shape defs (Some s) v"
| variant: "deref s defs = Inr r \<Longrightarrow> b \<in> set (branches r) \<Longrightarrow> has_shape defs b v \<Longrightarrow> has_shape defs (Some s) v"
| flat: "deref s defs = Inr r \<Longrightarrow> branches r = [] \<Longrightarrow> kind_ok r v \<Longrightarrow> (\<forall>m. v \<noteq> GObj m) \<Longrightarrow> (\<forall>vs. v \<noteq> GArr vs) \<Longrightarrow>
    has_shape defs (Some s) v"
| object: "deref s defs = Inr r \<Longrightarrow> branches r = [] \<Longrightarrow> kind_ok r (GObj m) \<Longrightarrow>
    (\<forall>k v. (k, v) \<in> set m \<longrightarrow> (\<exists>p. declared r k p \<and> has_shape defs p v)) \<Longrightarrow>
    (\<forall>k p. declared r k p \<longrightarrow> is_required r k \<longrightarrow> k \<in> fst ` set m) \<Longrightarrow> has_shape defs (Some s) (GObj m)"
| any_object: "deref s defs = Inr r \<Longrightarrow> branches r = [] \<Longrightarrow> kind_ok r (GObj m) \<Longrightarrow> \<not> is_object_schema r \<Longrightarrow>
    has_shape defs (Some s) (GObj m)"
| array: "deref s defs = Inr r \<Longrightarrow> branches r = [] \<Longrightarrow> kind_ok r (GArr vs) \<Longrightarrow>
    (\<forall>v \<in> set vs. has_shape defs (n_items r) v) \<Longrightarrow> has_shape defs (Some s) (GArr vs)"

lemma check_type_kind_ok: "check_type r v \<Longrightarrow> kind_ok r v"
  by (auto simp: check_type_def kind_ok_def of_kind_def list_ex_iff)

lemma fits_has_shape: "fits defs p v \<Longrightarrow> has_shape defs p v"
proof (induction rule: fits.induct)
  case (any_array s r vs)
  then show ?case by (intro has_shape.array) (auto simp: check_type_kind_ok has_shape.nothing)
qed (blast intro: has_shape.intros check_type_kind_ok)+

text \<open>Kinds.\<close>

lemma of_kind_simps [simp]:
  "of_kind GNil t \<longleftrightarrow> t = ''null''"
  "of_kind (GBool b) t \<longleftrightarrow> t = ''boolean''"
  "of_kind (GStr x) t \<longleftrightarrow> t = ''string''"
  "of_kind (GObj m) t \<longleftrightarrow> t = ''object''"
  "of_kind (GArr vs) t \<longleftrightarrow> t = ''array''"
  "of_kind (GInt i) t \<longleftrightarrow> t = ''number'' \<or> t = ''integer''"
  by (auto simp: of_kind_def value_has_type_def as_float_def is_integral_def)

lemma of_kind_float: "of_kind (GFloat f) t \<longleftrightarrow> t = ''number'' \<or> t = ''integer'' \<and> (case f of Fin q \<Rightarrow> q = of_int \<lfloor>q\<rfloor> | _ \<Rightarrow> True)"
  by (auto simp: of_kind_def value_has_type_def as_float_def is_integral_def split: f64.splits)

lemma of_kind_ref [simp]: "\<not> of_kind (GRef r) t"
  by (auto simp: of_kind_def value_has_type_def as_float_def is_integral_def)

lemma of_kind_cases:
  "of_kind v ''null'' \<longleftrightarrow> v = GNil"
  "of_kind v ''boolean'' \<longleftrightarrow> (\<exists>b. v = GBool b)"
  "of_kind v ''string'' \<longleftrightarrow> (\<exists>x. v = GStr x)"
  "of_kind v ''object'' \<longleftrightarrow> (\<exists>m. v = GObj m)"
  "of_kind v ''array'' \<longleftrightarrow> (\<exists>vs. v = GArr vs)"
  by (cases v; simp add: of_kind_float)+

lemma of_kind_number: "of_kind v ''integer'' \<Longrightarrow> of_kind v ''number''" "of_kind v ''number'' \<longleftrightarrow> to_f64 v \<noteq> None"
  by (cases v; simp add: of_kind_float)+

subsection \<open>Plain documents\<close>

text \<open>
  Nodes whose parts do not get in each other's way: properties come with the type object, a union
  has nothing beside its variants and a reference nothing beside it, lists given are not empty and
  names are not repeated. No definition is itself a reference.
\<close>

definition plain_node :: "node \<Rightarrow> bool" where
  "plain_node x \<longleftrightarrow>
     (n_properties x \<noteq> None \<longrightarrow> n_type x = [''object''] \<and> entries_of (n_properties x) \<noteq> [] \<and> distinct (map fst (entries_of (n_properties x))))
   \<and> (n_required x \<noteq> None \<longrightarrow> n_properties x \<noteq> None)
   \<and> n_any_of x \<noteq> Some [] \<and> n_one_of x \<noteq> Some [] \<and> (n_any_of x = None \<or> n_one_of x = None)
   \<and> (n_any_of x \<noteq> None \<or> n_one_of x \<noteq> None \<longrightarrow> n_type x = [] \<and> n_ref x = [] \<and> n_items x = None)
   \<and> (n_ref x \<noteq> [] \<longrightarrow> n_type x = [] \<and> n_items x = None)
   \<and> n_enum x \<noteq> Some [] \<and> n_all_of x \<noteq> Some []"

definition plain_defs :: "node_defs \<Rightarrow> bool" where
  "plain_defs defs \<longleftrightarrow> (\<forall>(k, q) \<in> set (entries_of defs). case q of None \<Rightarrow> True | Some x \<Rightarrow> n_ref x = [])"

definition plain_doc :: "node \<Rightarrow> bool" where
  "plain_doc s \<longleftrightarrow> list_all plain_node (subnodes s) \<and> plain_defs (n_defs s)"

lemma plain_empty [simp]: "plain_node (typed ts)" "plain_node empty_node"
  by (simp_all add: plain_node_def entries_of_def)

lemma reached_plain:
  assumes "\<forall>x \<in> D. plain_node x" and "reached D x"
  shows "plain_node x"
  using assms(2)
proof (induction rule: reached.induct)
  case (retyped x ts)
  then show ?case by (auto simp: plain_node_def)
next
  case (fewer_one_of x vs)
  then show ?case by (auto simp: plain_node_def)
next
  case (fewer_any_of x vs)
  then show ?case by (auto simp: plain_node_def)
qed (use assms(1) in \<open>auto simp: plain_node_def entries_of_def\<close>)

lemma branches_one: "plain_node r \<Longrightarrow> n_any_of r = Some vs \<Longrightarrow> branches r = vs"
  "plain_node r \<Longrightarrow> n_one_of r = Some vs \<Longrightarrow> branches r = vs"
  by (auto simp: branches_def plain_node_def)

lemma no_branches: "plain_node r \<Longrightarrow> branches r = [] \<longleftrightarrow> n_any_of r = None \<and> n_one_of r = None"
  by (auto simp: branches_def plain_node_def variants_of_def split: option.splits)

lemma not_empty: "n_type r \<noteq> [] \<or> n_any_of r \<noteq> None \<or> n_one_of r \<noteq> None \<Longrightarrow> \<not> is_empty_schema r"
  by (auto simp: is_empty_schema_def)

lemma plain_deref_ref:
  assumes "plain_defs defs" and "deref x defs = Inr r"
  shows "n_ref r = []"
proof (cases "n_ref x = []")
  case False
  with assms(2) obtain k where "def_node defs k = Some r" by (auto simp: deref_def split: if_splits option.splits)
  then have "(k, Some r) \<in> set (entries_of defs)"
    by (auto simp: def_node_def entries_of_def split: option.splits dest: map_of_SomeD)
  with assms(1) show ?thesis by (auto simp: plain_defs_def)
qed (use assms(2) in \<open>simp add: deref_def\<close>)

lemma deref_self_plain [simp]: "n_ref x = [] \<Longrightarrow> deref x defs = Inr x"
  by (simp add: deref_def)

lemma has_shape_deref:
  assumes "plain_defs defs" and "deref x defs = Inr r"
  shows "has_shape defs (Some x) v \<longleftrightarrow> has_shape defs (Some r) v"
proof -
  have self: "deref r defs = Inr r" using plain_deref_ref [OF assms] by simp
  have "deref x defs = Inr q \<longleftrightarrow> deref r defs = Inr q" for q using assms(2) self by auto
  then show ?thesis by (subst (1 2) has_shape.simps) simp
qed

text \<open>What has the shape of a node with a type, or of a union.\<close>

lemma has_shape_typed:
  assumes "plain_node r" and "n_type r \<noteq> []"
  shows "has_shape defs (Some r) v \<longleftrightarrow> list_ex (of_kind v) (n_type r) \<and>
     (\<forall>m. v = GObj m \<longrightarrow>
        (\<not> is_object_schema r \<or> ((\<forall>k u. (k, u) \<in> set m \<longrightarrow> (\<exists>p. declared r k p \<and> has_shape defs p u))
          \<and> (\<forall>k p. declared r k p \<longrightarrow> is_required r k \<longrightarrow> k \<in> fst ` set m)))) \<and>
     (\<forall>vs. v = GArr vs \<longrightarrow> (\<forall>u \<in> set vs. has_shape defs (n_items r) u))"
proof -
  have r: "deref r defs = Inr r" "branches r = []" "\<not> is_empty_schema r"
    using assms by (auto simp: plain_node_def no_branches is_empty_schema_def)
  show ?thesis
    by (subst has_shape.simps) (use r assms(2) in \<open>auto simp: kind_ok_def\<close>)
qed

lemma has_shape_union:
  assumes "plain_node r" and "branches r \<noteq> []"
  shows "has_shape defs (Some r) v \<longleftrightarrow> (\<exists>b \<in> set (branches r). has_shape defs b v)"
proof -
  have r: "deref r defs = Inr r" "\<not> is_empty_schema r"
    using assms by (auto simp: plain_node_def no_branches is_empty_schema_def)
  show ?thesis
    by (subst has_shape.simps) (use r assms(2) in auto)
qed

lemma has_shape_null:
  assumes "plain_node q" and "is_null_type (Some q)"
  shows "has_shape defs (Some q) v \<longleftrightarrow> v = GNil"
  using assms has_shape_typed [OF assms(1), of defs v] by (auto simp: is_null_type_def of_kind_cases)

lemma has_shape_typed_node [simp]: "has_shape defs (Some (typed [t])) v \<longleftrightarrow> of_kind v t \<and> (t = ''object'' \<longrightarrow> v = GObj [])"
proof -
  have "is_object_schema (typed [t]) \<longleftrightarrow> t = ''object''" by (auto simp: is_object_schema_def)
  moreover have "\<not> declared (typed [t]) k p" for k p by (simp add: declared_def entries_of_def)
  ultimately show ?thesis
    by (subst has_shape_typed) (auto simp: has_shape.nothing of_kind_cases, metis ex_in_conv set_empty surj_pair)
qed

subsection \<open>Adding and removing null\<close>

lemma list_ex_null: "list_ex is_null_type bs \<Longrightarrow> \<exists>q. Some q \<in> set bs \<and> is_null_type (Some q)"
  by (auto simp: list_ex_iff is_null_type_def split: option.splits)

lemma null_variant:
  assumes "\<forall>x \<in> D. plain_node x" and "closed defs D" and "reached D q" and "list_ex is_null_type (branches q)"
  shows "has_shape defs (Some q) GNil"
proof -
  from list_ex_null [OF assms(4)] obtain b where b: "Some b \<in> set (branches q)" "is_null_type (Some b)" by blast
  have "reached D b" using reached_variant [OF assms(2,3), of b] b(1) by (auto simp: branches_def split: if_splits)
  then have "has_shape defs (Some b) GNil" using has_shape_null reached_plain [OF assms(1)] b(2) by blast
  with b(1) has_shape_union [OF reached_plain [OF assms(1,3)]] show ?thesis by fastforce
qed

lemma list_ex_branches:
  assumes "plain_node q"
  shows "list_ex P (variants_of (n_one_of q)) \<or> list_ex P (variants_of (n_any_of q)) \<longleftrightarrow> list_ex P (branches q)"
  using assms by (cases "n_any_of q"; cases "n_one_of q") (simp_all add: branches_def plain_node_def)

lemma has_null_shape:
  assumes "\<forall>x \<in> D. plain_node x" and "closed defs D" and "reached D q" and "has_null_type q"
  shows "has_shape defs (Some q) GNil"
proof -
  note pl = reached_plain [OF assms(1,3)]
  from assms(4) consider "''null'' \<in> set (n_type q)" | "list_ex is_null_type (branches q)"
    unfolding has_null_type_def list_ex_branches [OF pl] by blast
  then show ?thesis
  proof cases
    case 1
    then show ?thesis by (subst has_shape_typed [OF pl]) (auto simp: list_ex_iff)
  qed (rule null_variant [OF assms(1-3)])
qed

lemma has_shape_with_null:
  assumes D: "\<forall>x \<in> D. plain_node x" "closed defs D" and q: "reached D q"
  shows "has_shape defs (Some q) v \<Longrightarrow> has_shape defs (Some (with_null q)) v" and "has_shape defs (Some (with_null q)) GNil"
proof -
  note pl = reached_plain [OF D(1) q]
  have wrap: "has_shape defs (Some (one_of_node [Some q, Some (typed [''null''])])) v" if "v = GNil \<or> has_shape defs (Some q) v" for v
    by (subst has_shape_union) (use that in \<open>auto simp: plain_node_def branches_def entries_of_def\<close>)
  have wide: "has_shape defs (Some (set_type (n_type q @ [''null'']) q)) v" if "v = GNil \<or> has_shape defs (Some q) v" "n_type q \<noteq> []" "n_properties q = None" for v
  proof -
    have "plain_node (set_type (n_type q @ [''null'']) q)" using pl that(2,3) by (auto simp: plain_node_def)
    with that pl show ?thesis
      by (auto simp: has_shape_typed is_object_schema_def declared_def is_required_def entries_of_def plain_node_def)
  qed
  have "(has_shape defs (Some q) v \<longrightarrow> has_shape defs (Some (with_null q)) v) \<and> has_shape defs (Some (with_null q)) GNil" for v
  proof (cases "is_empty_schema q")
    case True
    then have "with_null q = q" "n_ref q = []" by (simp_all add: with_null_def is_empty_schema_def)
    then show ?thesis using has_shape.unconstrained [of q defs q] True by simp
  next
    case ne: False
    show ?thesis
    proof (cases "has_null_type q")
      case True
      then have "with_null q = q" using ne by (auto simp: with_null_def has_null_type_def)
      with has_null_shape [OF D q True] show ?thesis by simp
    next
      case False
      with ne have "with_null q = (if n_type q \<noteq> [] \<and> n_properties q = None then set_type (n_type q @ [''null'']) q
          else one_of_node [Some q, Some (typed [''null''])])" by (simp add: with_null_def has_null_type_def)
      with wrap [of v] wrap [of GNil] wide [of v] wide [of GNil] show ?thesis by (simp split: if_split)
    qed
  qed
  then show "has_shape defs (Some q) v \<Longrightarrow> has_shape defs (Some (with_null q)) v" "has_shape defs (Some (with_null q)) GNil" by blast+
qed

lemma has_shape_with_null_opt:
  assumes "\<forall>x \<in> D. plain_node x" "closed defs D" and "reached_opt D p"
  shows "v = GNil \<or> has_shape defs p v \<Longrightarrow> has_shape defs (with_null_opt p) v"
  using has_shape_with_null [OF assms(1,2)] assms(3) by (cases p) (auto simp: with_null_opt_def has_shape.nothing)

lemma has_shape_strip_null:
  assumes D: "\<forall>x \<in> D. plain_node x" "closed defs D" and q: "reached D q"
      and v: "has_shape defs (Some q) v" "v \<noteq> GNil"
  shows "has_shape defs (strip_null q) v"
proof -
  note pl = reached_plain [OF D(1) q]
  have nonnull: "\<exists>b \<in> set (non_null (branches q)). has_shape defs b v" if "branches q \<noteq> []"
  proof -
    from v(1) that obtain b where b: "b \<in> set (branches q)" "has_shape defs b v" by (auto simp: has_shape_union [OF pl])
    have "\<not> is_null_type b"
    proof
      assume nb: "is_null_type b"
      then obtain x where x: "b = Some x" by (cases b) (auto simp: is_null_type_def)
      have "reached D x" using reached_variant [OF D(2) q, of x] b(1) x by (auto simp: branches_def split: if_splits)
      with has_shape_null [OF reached_plain [OF D(1)]] b(2) nb x v(2) show False by blast
    qed
    with b show ?thesis by (auto simp: non_null_def)
  qed
  have fewer: "has_shape defs (case nn of [b] \<Rightarrow> b | [] \<Rightarrow> Some (f None) | _ \<Rightarrow> Some (f (Some nn))) v"
    if "\<exists>b \<in> set nn. has_shape defs b v" and f: "\<And>l. l \<noteq> [] \<Longrightarrow> plain_node (f (Some l)) \<and> branches (f (Some l)) = l" for f nn
  proof (cases nn)
    case (Cons b rest)
    with that(1) have "rest \<noteq> [] \<Longrightarrow> has_shape defs (Some (f (Some nn))) v"
      using f [of nn] by (auto simp: has_shape_union)
    with that(1) Cons show ?thesis by (cases rest) auto
  qed (use that(1) in simp)
  show ?thesis
  proof (cases "n_type q = []")
    case False
    define ts where "ts = filter (\<lambda>t. t \<noteq> ''null'') (n_type q)"
    have "plain_node (set_type ts q)" using pl False by (auto simp: plain_node_def ts_def)
    moreover have ts: "list_ex (of_kind v) ts"
      using v False has_shape_typed [OF pl False] by (auto simp: list_ex_iff of_kind_cases ts_def)
    moreover have "ts \<noteq> []" using ts by auto
    moreover have "''object'' \<in> set ts \<longleftrightarrow> ''object'' \<in> set (n_type q)" by (simp add: ts_def)
    ultimately have "has_shape defs (Some (set_type (filter (\<lambda>t. t \<noteq> ''null'') (n_type q)) q)) v"
      using v(1) has_shape_typed [OF pl False, of defs v] unfolding ts_def [symmetric]
      by (simp add: has_shape_typed is_object_schema_def declared_def is_required_def)
    with v(1) False show ?thesis by (simp add: strip_null_def Let_def)
  next
    case True
    show ?thesis
    proof (cases "branches q = []")
      case True
      then show ?thesis using v(1) \<open>n_type q = []\<close> by (auto simp: strip_null_def branches_def split: if_splits)
    next
      case False
      from no_branches [OF pl] False consider vs where "n_one_of q = Some vs" "n_any_of q = None" "branches q = vs" "vs \<noteq> []"
        | vs where "n_any_of q = Some vs" "n_one_of q = None" "branches q = vs" "vs \<noteq> []"
        using pl by (auto simp: plain_node_def branches_def)
      then show ?thesis
      proof cases
        case 1
        have "plain_node (set_one_of (Some l) q) \<and> branches (set_one_of (Some l) q) = l" if "l \<noteq> []" for l
          using pl 1 that by (auto simp: plain_node_def branches_def)
        from fewer [of _ "\<lambda>x. set_one_of x q", OF nonnull [OF False] this] 1 v(1) True show ?thesis
          by (simp add: strip_null_def Let_def split: list.splits)
      next
        case 2
        have "plain_node (set_any_of (Some l) q) \<and> branches (set_any_of (Some l) q) = l" if "l \<noteq> []" for l
          using pl 2 that by (auto simp: plain_node_def branches_def)
        from fewer [of _ "\<lambda>x. set_any_of x q", OF nonnull [OF False] this] 2 v(1) True show ?thesis
          by (simp add: strip_null_def Let_def split: list.splits)
      qed
    qed
  qed
qed

subsection \<open>Nodes that say the same\<close>

text \<open>
  Two nodes related by \<open>R\<close> agree on everything a shape depends on, with \<open>R\<close> again between their
  parts.
\<close>

definition same_part :: "(node \<Rightarrow> node \<Rightarrow> bool) \<Rightarrow> node \<Rightarrow> node \<Rightarrow> bool" where
  "same_part R x y \<longleftrightarrow>
     n_ref x = n_ref y \<and> n_type x = n_type y \<and> (is_empty_schema x \<longrightarrow> is_empty_schema y)
   \<and> is_object_schema x = is_object_schema y
   \<and> (\<forall>k. is_required y k \<longrightarrow> is_required x k)
   \<and> (\<forall>k p. declared x k p \<longrightarrow> (\<exists>q. declared y k q \<and> rel_option R p q))
   \<and> (\<forall>k q. declared y k q \<longrightarrow> (\<exists>p. declared x k p))
   \<and> rel_option R (n_items x) (n_items y)
   \<and> (branches x = [] \<longleftrightarrow> branches y = [])
   \<and> (\<forall>b \<in> set (branches x). \<exists>c \<in> set (branches y). rel_option R b c)"

lemma deref_same_ref: "n_ref x = n_ref y \<Longrightarrow> n_ref x \<noteq> [] \<Longrightarrow> deref x defs = deref y defs"
  unfolding deref_def by (auto split: option.split)

lemma same_part_shape:
  assumes R: "\<And>x y. R x y \<Longrightarrow> same_part R x y"
  shows "has_shape defs p v \<Longrightarrow> rel_option R p q \<Longrightarrow> has_shape defs q v"
proof (induction arbitrary: q rule: has_shape.induct)
  case nothing
  then show ?case by (simp add: has_shape.nothing)
next
  case (unconstrained s r v)
  from \<open>rel_option R (Some s) q\<close> obtain y where y: "q = Some y" "R s y" by (cases q) auto
  note sp = R [OF y(2), unfolded same_part_def]
  show ?case
  proof (cases "n_ref s = []")
    case True
    with unconstrained sp have "deref y defs = Inr y" "is_empty_schema y" by (auto simp: deref_def)
    with y show ?thesis by (simp add: has_shape.unconstrained)
  next
    case False
    with sp have "deref y defs = deref s defs" using deref_same_ref [of s y defs] by simp
    with unconstrained y show ?thesis by (simp add: has_shape.unconstrained)
  qed
next
  case (variant s r b v)
  from \<open>rel_option R (Some s) q\<close> obtain y where y: "q = Some y" "R s y" by (cases q) auto
  note sp = R [OF y(2), unfolded same_part_def]
  show ?case
  proof (cases "n_ref s = []")
    case True
    with variant sp have d: "deref y defs = Inr y" "r = s" by (auto simp: deref_def)
    with variant sp obtain c where "c \<in> set (branches y)" "rel_option R b c" by blast
    with variant.IH d(1) y show ?thesis by (auto intro: has_shape.variant)
  next
    case False
    with sp have "deref y defs = deref s defs" using deref_same_ref [of s y defs] by simp
    with variant y show ?thesis by (auto intro: has_shape.variant)
  qed
next
  case (flat s r v)
  from \<open>rel_option R (Some s) q\<close> obtain y where y: "q = Some y" "R s y" by (cases q) auto
  note sp = R [OF y(2), unfolded same_part_def]
  show ?case
  proof (cases "n_ref s = []")
    case True
    with flat sp have "deref y defs = Inr y" "branches y = []" "kind_ok y v" by (auto simp: deref_def kind_ok_def)
    with flat y show ?thesis by (auto intro: has_shape.flat)
  next
    case False
    with sp have "deref y defs = deref s defs" using deref_same_ref [of s y defs] by simp
    with flat y show ?thesis by (auto intro: has_shape.flat)
  qed
next
  case (object s r m)
  from \<open>rel_option R (Some s) q\<close> obtain y where y: "q = Some y" "R s y" by (cases q) auto
  note sp = R [OF y(2), unfolded same_part_def]
  show ?case
  proof (cases "n_ref s = []")
    case True
    with object sp have d: "deref y defs = Inr y" "branches y = []" "kind_ok y (GObj m)" "r = s" by (auto simp: deref_def kind_ok_def)
    have 1: "\<exists>p. declared y k p \<and> has_shape defs p u" if "(k, u) \<in> set m" for k u
    proof -
      from object.IH that d(4) obtain p where "declared s k p" "\<forall>x. rel_option R p x \<longrightarrow> has_shape defs x u" by metis
      moreover from this(1) sp obtain p' where "declared y k p'" "rel_option R p p'" by metis
      ultimately show ?thesis by blast
    qed
    have 2: "k \<in> fst ` set m" if "declared y k p" "is_required y k" for k p
      using object.hyps(4) that d(4) sp by metis
    show ?thesis unfolding y(1) by (rule has_shape.object [OF d(1-3)]) (use 1 2 in blast)+
  next
    case False
    with sp have dy: "deref y defs = Inr r" using object(1) deref_same_ref [of s y defs] by simp
    show ?thesis unfolding y(1) by (rule has_shape.object [OF dy object.hyps(2,3)]) (use object.IH object.hyps(4) in blast)+
  qed
next
  case (any_object s r m)
  from \<open>rel_option R (Some s) q\<close> obtain y where y: "q = Some y" "R s y" by (cases q) auto
  note sp = R [OF y(2), unfolded same_part_def]
  show ?case
  proof (cases "n_ref s = []")
    case True
    with any_object sp have "deref y defs = Inr y" "branches y = []" "kind_ok y (GObj m)" "\<not> is_object_schema y"
      by (auto simp: deref_def kind_ok_def)
    with y show ?thesis by (auto intro: has_shape.any_object)
  next
    case False
    with sp have "deref y defs = deref s defs" using deref_same_ref [of s y defs] by simp
    with any_object y show ?thesis by (auto intro: has_shape.any_object)
  qed
next
  case (array s r vs)
  from \<open>rel_option R (Some s) q\<close> obtain y where y: "q = Some y" "R s y" by (cases q) auto
  note sp = R [OF y(2), unfolded same_part_def]
  show ?case
  proof (cases "n_ref s = []")
    case True
    with array sp have d: "deref y defs = Inr y" "branches y = []" "kind_ok y (GArr vs)" "r = s" by (auto simp: deref_def kind_ok_def)
    have "\<forall>v \<in> set vs. has_shape defs (n_items y) v" using array.IH d(4) sp by blast
    with d y show ?thesis by (auto intro: has_shape.array)
  next
    case False
    with sp have dy: "deref y defs = Inr r" using array(1) deref_same_ref [of s y defs] by simp
    show ?thesis unfolding y(1) by (rule has_shape.array [OF dy array.hyps(2,3)]) (use array.IH in blast)
  qed
qed

text \<open>The definitions a node carries play no role.\<close>

lemma same_part_set_defs:
  "(x = y \<or> (\<exists>d. y = set_defs d x) \<or> (\<exists>d. x = set_defs d y)) \<Longrightarrow>
   same_part (\<lambda>x y. x = y \<or> (\<exists>d. y = set_defs d x) \<or> (\<exists>d. x = set_defs d y)) x y"
proof -
  let ?R = "\<lambda>x y. x = y \<or> (\<exists>d. y = set_defs d x) \<or> (\<exists>d. x = set_defs d y)"
  assume a: "?R x y"
  have fields: "n_ref x = n_ref y" "n_type x = n_type y" "is_empty_schema x = is_empty_schema y" "is_object_schema x = is_object_schema y"
    "is_required x = is_required y" "declared x = declared y" "n_items x = n_items y" "branches x = branches y"
    using a by (cases x; cases y; auto simp: is_empty_schema_def is_object_schema_def is_required_def fun_eq_iff declared_def branches_def)+
  have "rel_option ?R p p" for p by (cases p) auto
  then show ?thesis unfolding same_part_def fields by blast
qed

lemma has_shape_set_defs [simp]: "has_shape defs (Some (set_defs d x)) v \<longleftrightarrow> has_shape defs (Some x) v"
  using same_part_shape [OF same_part_set_defs, of defs "Some x" v "Some (set_defs d x)"]
    same_part_shape [OF same_part_set_defs, of defs "Some (set_defs d x)" v "Some x"] by auto

text \<open>Nor does what the JSON text leaves out, whether definitions are kept in it or not.\<close>

definition text_like :: "(node \<Rightarrow> node) \<Rightarrow> bool" where
  "text_like f \<longleftrightarrow> (\<forall>t pr rq it oo an al en mi ma ml xl mt xt rf df ac i d se. \<exists>df'.
     f (Node t pr rq it oo an al en mi ma ml xl mt xt rf df ac i d se) =
     Node t (filled (map_option (\<lambda>ps. sort_key fst (map (\<lambda>(k, q). (k, map_option f q)) ps)) pr)) (filled rq)
       (map_option f it) (filled (map_option (map (map_option f)) oo))
       (filled (map_option (map (map_option f)) an)) (filled (map_option (map (map_option f)) al))
       (filled (map_option (map sorted_val) en)) mi ma ml xl mt xt rf df' ac i (sorted_val d) se)"

lemma text_like_text_form: "text_like text_form"
  by (simp add: text_like_def comp_def)

lemma text_like_stored: "text_like (\<lambda>x. text_form (strip_defs_deep x))"
  by (simp add: text_like_def option.map_comp comp_def case_prod_unfold filled_def [of None])

lemma filled_eq: "l \<noteq> Some [] \<Longrightarrow> filled l = l"
  by (simp add: filled_def split: option.split list.split)

lemma text_like_fields:
  assumes "text_like f" and "plain_node x"
  shows "n_ref (f x) = n_ref x" "n_type (f x) = n_type x"
    "is_empty_schema (f x) = is_empty_schema x" "is_object_schema (f x) = is_object_schema x"
    "is_required (f x) = is_required x"
    "n_items (f x) = map_option f (n_items x)"
    "branches (f x) = map (map_option f) (branches x)"
    "declared (f x) k q \<longleftrightarrow> (\<exists>p. declared x k p \<and> q = map_option f p)"
proof -
  obtain t pr rq it oo an al en mi ma ml xl mt xt rf df ac i d se where
    x: "x = Node t pr rq it oo an al en mi ma ml xl mt xt rf df ac i d se" by (cases x)
  from assms(2) have ne: "pr \<noteq> Some []" "oo \<noteq> Some []" "an \<noteq> Some []" "al \<noteq> Some []" "en \<noteq> Some []"
    by (auto simp: plain_node_def x entries_of_def)
  have sk: "sort_key fst l = [] \<longleftrightarrow> l = []" for l :: "(string \<times> 'a) list" by (simp flip: set_empty)
  from assms(1) obtain df' where
    "f x = Node t (filled (map_option (\<lambda>ps. sort_key fst (map (\<lambda>(k, q). (k, map_option f q)) ps)) pr)) (filled rq)
       (map_option f it) (filled (map_option (map (map_option f)) oo))
       (filled (map_option (map (map_option f)) an)) (filled (map_option (map (map_option f)) al))
       (filled (map_option (map sorted_val) en)) mi ma ml xl mt xt rf df' ac i (sorted_val d) se"
    unfolding x using assms(1) [unfolded text_like_def, rule_format, of t pr rq it oo an al en mi ma ml xl mt xt rf df ac i d se] by blast
  with ne have st: "f x = Node t (map_option (\<lambda>ps. sort_key fst (map (\<lambda>(k, q). (k, map_option f q)) ps)) pr) (filled rq)
      (map_option f it) (map_option (map (map_option f)) oo) (map_option (map (map_option f)) an)
      (map_option (map (map_option f)) al) (map_option (map sorted_val) en) mi ma ml xl mt xt rf df' ac i (sorted_val d) se"
    by (auto simp: sk filled_eq)
  show "n_ref (f x) = n_ref x" "n_type (f x) = n_type x" "n_items (f x) = map_option f (n_items x)"
    unfolding st unfolding x by simp_all
  show "branches (f x) = map (map_option f) (branches x)"
    unfolding st unfolding x by (cases oo; cases an) (simp_all add: branches_def)
  show "declared (f x) k q \<longleftrightarrow> (\<exists>p. declared x k p \<and> q = map_option f p)"
    unfolding st unfolding x by (cases pr) (auto simp: declared_def entries_of_def)
  have rq: "rq \<noteq> None \<longrightarrow> pr \<noteq> None" using assms(2) by (simp add: plain_node_def x)
  show "is_required (f x) = is_required x"
    unfolding st unfolding x by (simp add: is_required_def fun_eq_iff filled_def split: option.split list.split)
  show "is_empty_schema (f x) = is_empty_schema x" "is_object_schema (f x) = is_object_schema x"
    unfolding st unfolding x using rq by (auto simp: is_empty_schema_def is_object_schema_def filled_def split: option.split list.split)
qed

lemma same_part_text:
  assumes f: "text_like f" and D: "\<forall>x \<in> D. plain_node x" "closed defs D"
  shows "reached D x \<Longrightarrow> same_part (\<lambda>x y. reached D x \<and> y = f x) x (f x)"
    and "reached D x \<Longrightarrow> same_part (\<lambda>y x. reached D x \<and> y = f x) (f x) x"
proof -
  assume x: "reached D x"
  note f = text_like_fields [OF f reached_plain [OF D(1) x]]
  have rel: "rel_option (\<lambda>x y. reached D x \<and> y = f x) p (map_option f p)"
    "rel_option (\<lambda>y x. reached D x \<and> y = f x) (map_option f p) p" if "\<forall>q. p = Some q \<longrightarrow> reached D q" for p
    using that by (cases p; simp)+
  have pr: "declared x k p \<Longrightarrow> \<forall>q. p = Some q \<longrightarrow> reached D q" for k p
    using reached_property [OF D(2) x] by (auto simp: declared_def)
  have br: "b \<in> set (branches x) \<Longrightarrow> \<forall>q. b = Some q \<longrightarrow> reached D q" for b
    using reached_variant [OF D(2) x] by (auto simp: branches_def split: if_splits)
  have it: "\<forall>q. n_items x = Some q \<longrightarrow> reached D q" using reached_items [OF D(2) x] by blast
  show "same_part (\<lambda>x y. reached D x \<and> y = f x) x (f x)"
    unfolding same_part_def f
  proof (intro conjI allI impI ballI)
    show "\<exists>c \<in> set (map (map_option f) (branches x)). rel_option (\<lambda>x y. reached D x \<and> y = f x) b c"
      if "b \<in> set (branches x)" for b using that rel(1) [OF br [OF that]] by auto
  qed (use rel(1) pr it in auto)
  show "same_part (\<lambda>y x. reached D x \<and> y = f x) (f x) x"
    unfolding same_part_def f
  proof (intro conjI allI impI ballI)
    show "\<exists>c \<in> set (branches x). rel_option (\<lambda>y x. reached D x \<and> y = f x) b c"
      if "b \<in> set (map (map_option f) (branches x))" for b using that rel(2) [OF br] by auto
  qed (use rel(2) pr it in auto)
qed

lemma same_text_like_shape:
  assumes f: "text_like f" and D: "\<forall>x \<in> D. plain_node x" "closed defs D" and ab: "reached D a" "reached D b" "f a = f b"
  shows "has_shape defs (Some a) v \<longleftrightarrow> has_shape defs (Some b) v"
proof -
  have store: "has_shape defs (Some (f x)) v \<longleftrightarrow> has_shape defs (Some x) v" if "reached D x" for x
    using same_part_shape [where R = "\<lambda>x y. reached D x \<and> y = f x" and p = "Some x" and q = "Some (f x)" and defs = defs and v = v]
      same_part_shape [where R = "\<lambda>y x. reached D x \<and> y = f x" and p = "Some (f x)" and q = "Some x" and defs = defs and v = v]
      same_part_text [OF f D] that by auto
  from store [OF ab(1)] store [OF ab(2)] ab(3) show ?thesis by simp
qed

lemma schemas_equal_shape:
  assumes "\<forall>x \<in> D. plain_node x" "closed defs D" and "reached D a" "reached D b" "schemas_equal a b"
  shows "has_shape defs (Some a) v \<longleftrightarrow> has_shape defs (Some b) v"
  using same_text_like_shape [OF text_like_stored assms(1-4)] assms(5) by (simp add: schemas_equal_def same_text_def)

lemma same_text_shape:
  assumes "\<forall>x \<in> D. plain_node x" "closed defs D" and "reached_opt D a" "reached_opt D b" "same_text a b"
  shows "has_shape defs a v \<longleftrightarrow> has_shape defs b v"
proof (cases a)
  case None
  with assms(5) show ?thesis by (simp add: same_text_def)
next
  case a: (Some x)
  with assms(5) obtain y where b: "b = Some y" and t: "text_form x = text_form y" by (cases b) (auto simp: same_text_def)
  from assms(3,4) a b have "reached D x" "reached D y" by simp_all
  from same_text_like_shape [OF text_like_text_form assms(1,2) this t] show ?thesis by (simp only: a b)
qed

end
