(* ===== verification/ShapeNav.thy ===== *)
theory ShapeNav
  imports Shape
begin

section \<open>What a lookup returns describes the value there\<close>

text \<open>
  A value of the shape of a type has, at a property or an element, a value of the shape that lookup
  finds, and null where lookup misses. Variants must be \<open>shut\<close>: a variant without a type admits
  values whose members lookup knows nothing of.
\<close>

definition field_of :: "gval \<Rightarrow> string \<Rightarrow> gval" where
  "field_of v k = (case v of GObj m \<Rightarrow> (case map_of m k of None \<Rightarrow> GNil | Some x \<Rightarrow> x) | _ \<Rightarrow> GNil)"

definition elem_of :: "gval \<Rightarrow> int \<Rightarrow> gval" where
  "elem_of v i = (case v of GArr vs \<Rightarrow> (if 0 \<le> i \<and> i < int (length vs) then vs ! nat i else GNil) | _ \<Rightarrow> GNil)"

lemma field_of_simps [simp]: "field_of GNil k = GNil" "field_of (GObj m) k = (case map_of m k of None \<Rightarrow> GNil | Some x \<Rightarrow> x)"
  by (simp_all add: field_of_def)

lemma elem_of_GNil [simp]: "elem_of GNil i = GNil"
  by (simp add: elem_of_def)

lemma field_of_other: "(\<forall>m. v \<noteq> GObj m) \<Longrightarrow> field_of v k = GNil"
  by (cases v) (simp_all add: field_of_def)

lemma elem_of_cases: "(\<exists>vs. v = GArr vs \<and> elem_of v i \<in> set vs) \<or> elem_of v i = GNil"
  by (cases v) (auto simp: elem_of_def)

fun shut :: "nat \<Rightarrow> node_defs \<Rightarrow> node option \<Rightarrow> bool" where
  "shut 0 defs p = False"
| "shut (Suc n) defs p =
     (case p of None \<Rightarrow> False
      | Some s \<Rightarrow> (case deref s defs of Inl e \<Rightarrow> True
                   | Inr r \<Rightarrow> n_type r \<noteq> [] \<or> (branches r \<noteq> [] \<and> list_all (shut n defs) (branches r))))"

text \<open>For elements lookup first takes null off, which can leave a bare reference.\<close>

fun shut_items :: "nat \<Rightarrow> node_defs \<Rightarrow> node option \<Rightarrow> bool" where
  "shut_items 0 defs p = False"
| "shut_items (Suc n) defs p =
     (case p of None \<Rightarrow> False
      | Some s \<Rightarrow> (case deref s defs of Inl e \<Rightarrow> True
                   | Inr q \<Rightarrow> (case strip_null q of None \<Rightarrow> False
                               | Some r \<Rightarrow> n_type r \<noteq> [] \<or> (branches r \<noteq> [] \<and> list_all (shut_items n defs) (branches r)))))"

lemma shut_some: "shut n defs p \<Longrightarrow> p \<noteq> None" "shut_items n defs p \<Longrightarrow> p \<noteq> None"
  by (cases n; cases p; simp)+

lemma no_shape_bad_ref: "deref s defs = Inl e \<Longrightarrow> \<not> has_shape defs (Some s) v"
  by (subst has_shape.simps) simp

lemma joined_shape:
  assumes D: "\<forall>x \<in> D. plain_node x" "closed defs D"
    and mk: "plain_node (mk qs)" "branches (mk qs) = qs"
    and qs: "\<forall>q \<in> set qs. reached_opt D q" "q \<in> set qs" "has_shape defs q w"
  shows "has_shape defs (if all_same qs then hd qs else Some (mk qs)) w"
proof (cases "all_same qs")
  case True
  from qs(2) obtain r rest where l: "qs = r # rest" by (cases qs) auto
  have "q = r \<or> same_text r q" using True qs(2) by (auto simp: l all_same_def list_all_iff)
  with qs l same_text_shape [OF D, of r q w] show ?thesis using True by auto
next
  case False
  have "branches (mk qs) \<noteq> []" using mk qs(2) by auto
  with qs(2,3) mk has_shape_union [OF mk(1), of defs w] show ?thesis using False by auto
qed

lemma joined_reached:
  assumes "\<forall>q \<in> set qs. reached_opt D q" and "qs \<noteq> []"
    and "(\<forall>q. Some q \<in> set qs \<longrightarrow> reached D q) \<Longrightarrow> reached D (mk qs)"
  shows "reached_opt D (if all_same qs then hd qs else Some (mk qs))"
  using assms by (cases qs) (auto simp: reached_opt_def)

lemma branch_errors:
  "property_branch rec b = Inl e \<Longrightarrow> b \<noteq> None \<Longrightarrow> fatal e" "index_branch rec b = Inl e \<Longrightarrow> fatal e"
  by (cases "rec b"; auto simp: property_branch_def index_branch_def branch_result_def split: if_splits)+

lemma plain_unions: "vs \<noteq> [] \<Longrightarrow> plain_node (one_of_node vs)" "vs \<noteq> [] \<Longrightarrow> plain_node (any_of_node vs)"
  "branches (one_of_node vs) = vs" "branches (any_of_node vs) = vs"
  by (auto simp: plain_node_def branches_def entries_of_def)

lemma null_shape: "\<forall>x \<in> D. plain_node x \<Longrightarrow> reached_opt D b \<Longrightarrow> is_null_type b \<Longrightarrow> has_shape defs b v \<Longrightarrow> v = GNil"
  using has_shape_null reached_plain by (cases b) (auto simp: is_null_type_def)

lemma traverse_value: "traverse f xs = Inr ys \<Longrightarrow> x \<in> set xs \<Longrightarrow> \<exists>y \<in> set ys. f x = Inr y"
  using list_all2_in1 [of "\<lambda>x y. f x = Inr y" xs ys x] traverse_Inr [of f xs ys] by simp

text \<open>The contract a lookup keeps at a type \<open>p\<close>: \<open>sel\<close> reads the value.\<close>

definition describes :: "node_defs \<Rightarrow> (gval \<Rightarrow> gval) \<Rightarrow> schema_error + node option \<Rightarrow> gval \<Rightarrow> bool" where
  "describes defs sel res v \<longleftrightarrow> (case res of Inr q \<Rightarrow> has_shape defs q (sel v) | Inl e \<Rightarrow> fatal e \<or> sel v = GNil)"

lemma union_property_shape:
  assumes D: "\<forall>x \<in> D. plain_node x" "closed defs D"
    and mk: "mk = one_of_node \<or> mk = any_of_node"
    and vs: "\<forall>b \<in> set vs. b \<noteq> None \<and> reached_opt D b"
    and rec: "\<And>b q. b \<in> set vs \<Longrightarrow> rec b = Inr q \<Longrightarrow> reached_opt D q"
      "\<And>b. b \<in> set vs \<Longrightarrow> has_shape defs b v \<Longrightarrow> describes defs sel (rec b) v"
    and b: "b \<in> set vs" "has_shape defs b v" and nil: "sel GNil = GNil"
  shows "describes defs sel (union_property mk rec name vs) v"
proof (cases "traverse (property_branch rec) vs")
  case (Inl e)
  from traverse_Inl [OF this] vs branch_errors(1) have "fatal e" by blast
  with Inl show ?thesis by (simp add: union_property_def describes_def)
next
  case (Inr bs)
  let ?res = "if all_same (got bs) then hd (got bs) else Some (mk (got bs))"
  from traverse_value [OF Inr b(1)] obtain y where y: "y \<in> set bs" "property_branch rec b = Inr y" by blast
  have g: "\<forall>q \<in> set (got bs). reached_opt D q"
    using union_property_got [OF Inr] rec(1) by blast
  have mk': "got bs \<noteq> [] \<Longrightarrow> plain_node (mk (got bs))" "branches (mk (got bs)) = got bs"
    using mk by (elim disjE; simp add: plain_unions)+
  have rr: "reached_opt D ?res" if "got bs \<noteq> []"
    by (rule joined_reached [OF g that], use mk that in \<open>elim disjE\<close>) (simp_all add: reached.one_of reached.any_of)
  note null = has_shape_with_null_opt [OF D rr]
  have out: "union_property mk rec name vs =
     (if got bs = [] then (if Miss_branch \<in> set bs then Inl (NotInVariants name) else Inr (Some (typed [''null''])))
      else Inr (if Null_branch \<in> set bs \<or> Miss_branch \<in> set bs then with_null_opt ?res else ?res))"
    by (simp add: union_property_def Inr Let_def)
  show ?thesis
  proof (cases "\<exists>q. y = Got q")
    case True
    then obtain q where q: "y = Got q" by blast
    with y(2) have "rec b = Inr q" by (auto simp: property_branch_def split: if_splits dest!: branch_result_Got)
    with rec(2) [OF b] have sh: "has_shape defs q (sel v)" by (simp add: describes_def)
    have qg: "q \<in> set (got bs)" using y(1) q by (simp add: set_got)
    then have ne: "got bs \<noteq> []" by auto
    have "has_shape defs ?res (sel v)" by (rule joined_shape [where mk = mk, OF D mk'(1) [OF ne] mk'(2) g qg sh])
    with null [OF ne] ne show ?thesis by (simp add: out describes_def)
  next
    case False
    have missing: "y = Null_branch \<or> y = Miss_branch" and "sel v = GNil"
    proof -
      from y(2) False show m: "y = Null_branch \<or> y = Miss_branch"
        by (auto simp: property_branch_def branch_result_def split: if_splits sum.splits)
      show "sel v = GNil"
      proof (cases "is_null_type b")
        case True
        with null_shape [OF D(1) _ True b(2)] vs b(1) nil show ?thesis by simp
      next
        case False
        with y(2) m obtain e where "rec b = Inl e" "\<not> fatal e"
          by (auto simp: property_branch_def branch_result_def split: if_splits sum.splits)
        with rec(2) [OF b] show ?thesis by (simp add: describes_def)
      qed
    qed
    with y(1) null show ?thesis by (auto simp: out describes_def fatal_def)
  qed
qed

lemma union_index_shape:
  assumes D: "\<forall>x \<in> D. plain_node x" "closed defs D"
    and vs: "\<forall>b \<in> set vs. b \<noteq> None \<and> reached_opt D b"
    and rec: "\<And>b q. b \<in> set vs \<Longrightarrow> rec b = Inr q \<Longrightarrow> reached_opt D q \<and> has_shape defs q GNil"
      "\<And>b. b \<in> set vs \<Longrightarrow> has_shape defs b v \<Longrightarrow> describes defs sel (rec b) v"
    and nil: "sel GNil = GNil" and u: "union_index rec vs = Inr r"
  shows "has_shape defs r GNil" and "b \<in> set vs \<Longrightarrow> has_shape defs b v \<Longrightarrow> has_shape defs r (sel v)"
proof -
  from u obtain bs where bs: "traverse (index_branch rec) vs = Inr bs" by (auto simp: union_index_def and_then_eq_Inr)
  let ?res = "if all_same (got bs) then hd (got bs) else Some (any_of_node (got bs))"
  have r: "r = (if got bs = [] then Some (typed [''null''])
      else if (Null_branch \<in> set bs \<or> Miss_branch \<in> set bs) \<and> \<not> has_null_opt ?res then with_null_opt ?res else ?res)"
  proof -
    have "union_index rec vs = Inr (if got bs = [] then Some (typed [''null''])
      else if (Null_branch \<in> set bs \<or> Miss_branch \<in> set bs) \<and> \<not> has_null_opt ?res then with_null_opt ?res else ?res)"
      by (simp add: union_index_def bs Let_def)
    with u show ?thesis by (simp only: sum.inject)
  qed
  have g: "\<forall>q \<in> set (got bs). reached_opt D q \<and> has_shape defs q GNil"
    using union_index_got [OF bs] rec(1) by blast
  then have gr: "\<forall>q \<in> set (got bs). reached_opt D q" by blast
  have rr: "reached_opt D ?res" if "got bs \<noteq> []"
    using gr that by (intro joined_reached) (auto intro: reached.any_of)
  have joined: "has_shape defs ?res w" if "q \<in> set (got bs)" "has_shape defs q w" for q w
    using that by (intro joined_shape [OF D _ _ gr]) (auto intro: plain_unions)
  have lift: "has_shape defs r w" if "q \<in> set (got bs)" "has_shape defs q w" for q w
    using joined [OF that] that(1) has_shape_with_null_opt [OF D rr, of w] by (auto simp: r)
  show n: "has_shape defs r GNil"
  proof (cases "got bs")
    case (Cons q rest)
    with g lift [of q GNil] show ?thesis by simp
  qed (simp add: r)
  show "has_shape defs r (sel v)" if b: "b \<in> set vs" "has_shape defs b v"
  proof -
    from traverse_value [OF bs b(1)] obtain y where y: "y \<in> set bs" "index_branch rec b = Inr y" by blast
    show ?thesis
    proof (cases "is_null_type b")
      case True
      with null_shape [OF D(1) _ True b(2)] vs b(1) nil n show ?thesis by simp
    next
      case False
      with y(2) vs b(1) have "branch_result (rec b) Miss_branch = Inr y" by (auto simp: index_branch_def)
      then consider q where "rec b = Inr q" "y = Got q" | e where "rec b = Inl e" "\<not> fatal e"
        by (auto simp: branch_result_def split: sum.splits if_splits)
      then show ?thesis
      proof cases
        case 1
        with rec(2) [OF b] y(1) lift show ?thesis by (simp add: describes_def set_got)
      next
        case 2
        with rec(2) [OF b] n show ?thesis by (simp add: describes_def)
      qed
    qed
  qed
qed

text \<open>A property of a plain object.\<close>

lemma plain_property_shape:
  assumes D: "\<forall>x \<in> D. plain_node x" "closed defs D" and pd: "plain_defs defs" and r: "reached D r"
    and nb: "branches r = []" "n_type r \<noteq> []" and v: "has_shape defs (Some r) v"
  shows "describes defs (\<lambda>u. field_of u name) (plain_property r name defs) v"
proof (cases "\<exists>m. v = GObj m")
  case False
  then have gone: "field_of v name = GNil" by (simp add: field_of_other)
  have "v = GObj m" if "n_type r = [''object'']" for m
    using v that False has_shape_typed [OF reached_plain [OF D(1) r] nb(2), of defs v] by (auto simp: of_kind_cases)
  moreover have "n_type r = [''object'']" if "plain_property r name defs = Inr q" for q
    using that reached_plain [OF D(1) r] by (auto simp: plain_property_def plain_node_def split: option.splits)
  ultimately show ?thesis using gone False by (auto simp: describes_def split: sum.split)
next
  case True
  then obtain m where m: "v = GObj m" by blast
  note pl = reached_plain [OF D(1) r]
  have obj: "is_object_schema r"
    using v m has_shape_typed [OF pl nb(2), of defs v] by (auto simp: is_object_schema_def list_ex_iff)
  have fields: "\<exists>p. declared r k p \<and> has_shape defs p u" if "(k, u) \<in> set m" for k u
    using that v m obj has_shape_typed [OF pl nb(2), of defs v] by auto
  have req: "k \<in> fst ` set m" if "declared r k p" "is_required r k" for k p
    using that v m obj has_shape_typed [OF pl nb(2), of defs v] by auto
  have dist: "distinct (map fst (entries_of (n_properties r)))"
    using pl by (cases "n_properties r") (auto simp: plain_node_def entries_of_def)
  have uniq: "declared r k p \<Longrightarrow> map_of (entries_of (n_properties r)) k = Some p" for k p
    using dist by (simp add: declared_def)
  show ?thesis
  proof (cases "plain_property r name defs")
    case (Inl e)
    have "field_of v name = GNil"
    proof (cases "map_of m name")
      case (Some u)
      from fields [OF map_of_SomeD [OF Some]] obtain p where p: "declared r name p" "has_shape defs p u" by blast
      from uniq [OF p(1)] have mp: "map_of (entries_of (n_properties r)) name = Some p" .
      then have "n_properties r = Some (entries_of (n_properties r))" by (auto simp: entries_of_def split: option.splits)
      with Inl mp have bad: "deref_opt p defs = Inl e"
        by (auto simp: plain_property_def and_then_eq_Inl split: option.splits)
      with p(2) show ?thesis
        by (cases p) (auto simp: deref_opt_def and_then_eq_Inl dest: no_shape_bad_ref)
    qed (simp add: m)
    then show ?thesis by (simp add: describes_def Inl)
  next
    case (Inr q)
    then obtain ps p res where ps: "n_properties r = Some ps" "map_of ps name = Some p" "deref_opt p defs = Inr res"
      and q: "q = (if is_required r name then res else with_null_opt res)"
      by (auto simp: plain_property_def and_then_eq_Inr split: option.splits)
    have dec: "declared r name p" using ps(1,2) by (auto simp: declared_def entries_of_def dest: map_of_SomeD)
    have pr: "reached_opt D p" using reached_property [OF D(2) r] dec by (auto simp: declared_def reached_opt_def)
    have rr: "reached_opt D res"
      using ps(3) pr by (cases p) (auto simp: deref_opt_def and_then_eq_Inr intro: reached_deref [OF D(2)])
    have same: "has_shape defs p u \<longleftrightarrow> has_shape defs res u" for u
      using ps(3) has_shape_deref [OF pd] by (cases p) (auto simp: deref_opt_def and_then_eq_Inr)
    note null = has_shape_with_null_opt [OF D rr]
    have "has_shape defs q (field_of v name)"
    proof (cases "map_of m name")
      case None
      then have "name \<notin> fst ` set m" by (simp add: map_of_eq_None_iff)
      with req dec have "\<not> is_required r name" by blast
      with null None show ?thesis by (simp add: q m)
    next
      case (Some u)
      from fields [OF map_of_SomeD [OF Some]] obtain p' where p': "declared r name p'" "has_shape defs p' u" by blast
      with uniq dec have "p' = p" by (metis option.inject)
      with p'(2) same null Some show ?thesis by (simp add: q m)
    qed
    with Inr show ?thesis by (simp add: describes_def)
  qed
qed

lemma lookup_property_shape:
  assumes D: "\<forall>x \<in> D. plain_node x" "closed defs D" and pd: "plain_defs defs"
  shows "reached_opt D p \<Longrightarrow> shut n defs p \<Longrightarrow> has_shape defs p v \<Longrightarrow>
    describes defs (\<lambda>u. field_of u name) (lookup_property n defs name p) v"
proof (induction n arbitrary: p v)
  case (Suc n)
  then obtain s where p: "p = Some s" by (cases p) auto
  with Suc.prems(3) obtain r where d: "deref s defs = Inr r"
    using no_shape_bad_ref [of s defs _ v] by (cases "deref s defs") auto
  from Suc.prems(1) p have r: "reached D r" by (simp add: reached_deref [OF D(2) _ d])
  from Suc.prems(3) p has_shape_deref [OF pd d] have v: "has_shape defs (Some r) v" by simp
  note pl = reached_plain [OF D(1) r]
  have step: "lookup_property (Suc n) defs name p = property_step (lookup_property n defs name) name defs r"
    by (simp add: p d)
  show ?case
  proof (cases "branches r = []")
    case True
    with Suc.prems(2) p d have "n_type r \<noteq> []" by simp
    from plain_property_shape [OF D pd r True this v] True no_branches [OF pl]
    show ?thesis unfolding step by (simp add: property_step_def)
  next
    case False
    let ?rec = "lookup_property n defs name"
    have nt: "n_type r = []" using pl False no_branches [OF pl] by (auto simp: plain_node_def)
    with Suc.prems(2) p d False have sh: "\<forall>b \<in> set (branches r). shut n defs b" by (simp add: list_all_iff)
    have rb: "reached_opt D b" if "b \<in> set (branches r)" for b
      using reached_variant [OF D(2) r] that by (auto simp: branches_def reached_opt_def split: if_splits)
    have nn: "b \<noteq> None" if "b \<in> set (branches r)" for b using sh that shut_some by blast
    from v False has_shape_union [OF pl] obtain b where b: "b \<in> set (branches r)" "has_shape defs b v" by blast
    have u: "describes defs (\<lambda>u. field_of u name) (union_property mk ?rec name (branches r)) v"
      if "mk = one_of_node \<or> mk = any_of_node" for mk
    proof (rule union_property_shape [OF D that _ _ _ b])
      show "\<forall>b \<in> set (branches r). b \<noteq> None \<and> reached_opt D b" using rb nn by blast
      show "reached_opt D q" if "b \<in> set (branches r)" "?rec b = Inr q" for b q
        using lookup_property_reached [OF D(2) rb [OF that(1)] that(2)] .
      show "describes defs (\<lambda>u. field_of u name) (?rec b) v" if "b \<in> set (branches r)" "has_shape defs b v" for b
        using Suc.IH [OF rb [OF that(1)]] sh that by blast
    qed simp
    show ?thesis
    proof (cases "n_any_of r")
      case None
      with False no_branches [OF pl] obtain vs where "n_one_of r = Some vs" by auto
      with u [of one_of_node] None branches_one(2) [OF pl] show ?thesis unfolding step by (simp add: property_step_def)
    next
      case (Some vs)
      with u [of any_of_node] branches_one(1) [OF pl] show ?thesis unfolding step by (simp add: property_step_def)
    qed
  qed
qed simp

text \<open>An element; the type found always admits null, for an index out of range.\<close>

lemma plain_index_shape:
  assumes D: "\<forall>x \<in> D. plain_node x" "closed defs D" and r: "reached D r" and nt: "n_type r \<noteq> []"
    and i: "plain_index r = Inr q"
  shows "has_shape defs q GNil" and "has_shape defs (Some r) v \<Longrightarrow> has_shape defs q (elem_of v k)"
proof -
  have any: "has_shape defs (Some empty_node) u" for u
    by (rule has_shape.unconstrained [of _ _ empty_node]) (simp_all add: deref_def is_empty_schema_def)
  from i have q: "q = (case n_items r of None \<Rightarrow> Some empty_node | Some x \<Rightarrow> with_null_opt (Some x))"
    by (auto simp: plain_index_def with_null_opt_def split: if_splits option.splits)
  have null: "has_shape defs q u" if "u = GNil \<or> has_shape defs (n_items r) u" for u
    using has_shape_with_null_opt [OF D, of "n_items r" u] reached_items [OF D(2) r] that any
    by (cases "n_items r") (auto simp: q)
  then show "has_shape defs q GNil" by simp
  show "has_shape defs q (elem_of v k)" if v: "has_shape defs (Some r) v"
    using elem_of_cases [of v k] null v has_shape_typed [OF reached_plain [OF D(1) r] nt, of defs v] by auto
qed

lemma infer_index_shape:
  assumes D: "\<forall>x \<in> D. plain_node x" "closed defs D" and pd: "plain_defs defs"
  shows "reached_opt D p \<Longrightarrow> shut_items n defs p \<Longrightarrow>
    (\<forall>q. infer_index n defs p = Inr q \<longrightarrow> has_shape defs q GNil) \<and>
    (has_shape defs p v \<longrightarrow> describes defs (\<lambda>u. elem_of u k) (infer_index n defs p) v)"
proof (induction n arbitrary: p v)
  case (Suc n)
  then obtain s where p: "p = Some s" by (cases p) auto
  show ?case
  proof (cases "deref s defs")
    case (Inl e)
    with no_shape_bad_ref [OF Inl, of v] show ?thesis by (simp add: p)
  next
    case d: (Inr x)
    from Suc.prems(1) p have x: "reached D x" by (simp add: reached_deref [OF D(2) _ d])
    from Suc.prems(2) p d obtain r where st: "strip_null x = Some r"
      and sh: "n_type r \<noteq> [] \<or> (branches r \<noteq> [] \<and> list_all (shut_items n defs) (branches r))"
      by (auto split: option.splits)
    have r: "reached D r" by (rule reached_strip_null [OF D(2) x st])
    note pl = reached_plain [OF D(1) r]
    have v: "has_shape defs (Some r) v" if "has_shape defs p v" "v \<noteq> GNil"
      using has_shape_strip_null [OF D x _ that(2)] that(1) has_shape_deref [OF pd d] by (simp add: p st)
    let ?rec = "infer_index n defs"
    have step: "infer_index (Suc n) defs p = index_step ?rec x" by (simp add: p d)
    show ?thesis
    proof (cases "branches r = []")
      case True
      with sh have nt: "n_type r \<noteq> []" by simp
      have step': "infer_index (Suc n) defs p = plain_index r"
        unfolding step using True no_branches [OF pl] by (simp add: index_step_def st)
      show ?thesis unfolding step'
      proof (intro conjI allI impI)
        show "has_shape defs q GNil" if "plain_index r = Inr q" for q
          using plain_index_shape(1) [OF D r nt that] .
        assume hv: "has_shape defs p v"
        show "describes defs (\<lambda>u. elem_of u k) (plain_index r) v"
        proof (cases "plain_index r")
          case (Inr q)
          with plain_index_shape [OF D r nt Inr] v [OF hv] show ?thesis by (cases "v = GNil") (auto simp: describes_def)
        next
          case (Inl e)
          have "elem_of v k = GNil"
          proof (rule ccontr)
            assume ne: "elem_of v k \<noteq> GNil"
            with elem_of_cases [of v k] obtain vs where vs: "v = GArr vs" by blast
            with v [OF hv] has_shape_typed [OF pl nt, of defs v] have "''array'' \<in> set (n_type r)"
              by (auto simp: list_ex_iff)
            with Inl show False by (simp add: plain_index_def)
          qed
          then show ?thesis by (simp add: Inl describes_def)
        qed
      qed
    next
      case False
      have nt: "n_type r = []" using pl False no_branches [OF pl] by (auto simp: plain_node_def)
      with sh have sh': "\<forall>b \<in> set (branches r). shut_items n defs b" by (simp add: list_all_iff)
      have rb: "reached_opt D b" if "b \<in> set (branches r)" for b
        using reached_variant [OF D(2) r] that by (auto simp: branches_def reached_opt_def split: if_splits)
      have step': "infer_index (Suc n) defs p = union_index ?rec (branches r)"
        unfolding step using False no_branches [OF pl] branches_one [OF pl]
        by (cases "n_any_of r") (auto simp: index_step_def st)
      have vs: "\<forall>b \<in> set (branches r). b \<noteq> None \<and> reached_opt D b" using rb sh' shut_some(2) by blast
      have rec: "reached_opt D q \<and> has_shape defs q GNil" if "b \<in> set (branches r)" "?rec b = Inr q" for b q
        using infer_index_reached [OF D(2) rb [OF that(1)] that(2)] Suc.IH [OF rb [OF that(1)]] sh' that by blast
      have ih: "describes defs (\<lambda>u. elem_of u k) (?rec b) w" if "b \<in> set (branches r)" "has_shape defs b w" for b w
        using Suc.IH [OF rb [OF that(1)]] sh' that by blast
      show ?thesis unfolding step'
      proof (cases "union_index ?rec (branches r)")
        case (Inl e)
        then have "fatal e"
          by (auto simp: union_index_def and_then_eq_Inl Let_def dest!: traverse_Inl branch_errors(2) split: if_splits)
        with Inl show "(\<forall>q. union_index ?rec (branches r) = Inr q \<longrightarrow> has_shape defs q GNil) \<and>
            (has_shape defs p v \<longrightarrow> describes defs (\<lambda>u. elem_of u k) (union_index ?rec (branches r)) v)"
          by (simp add: describes_def)
      next
        case (Inr q)
        have null: "has_shape defs q GNil" by (rule union_index_shape(1) [OF D vs rec ih elem_of_GNil Inr])
        moreover have "has_shape defs q (elem_of v k)" if hv: "has_shape defs p v"
        proof (cases "v = GNil")
          case False
          with v [OF hv] \<open>branches r \<noteq> []\<close> has_shape_union [OF pl] obtain b where b: "b \<in> set (branches r)" "has_shape defs b v" by blast
          show ?thesis
            by (rule union_index_shape(2) [where sel = "\<lambda>u. elem_of u k" and b = b, OF D vs])
              (erule (1) rec | erule (1) ih | rule elem_of_GNil Inr b)+
        qed (simp add: null)
        ultimately show "(\<forall>q. union_index ?rec (branches r) = Inr q \<longrightarrow> has_shape defs q GNil) \<and>
            (has_shape defs p v \<longrightarrow> describes defs (\<lambda>u. elem_of u k) (union_index ?rec (branches r)) v)"
          by (simp add: Inr describes_def)
      qed
    qed
  qed
qed simp

end
