(* ===== verification/Whole.thy ===== *)
theory Whole
  imports Expr
begin

section \<open>Integers as floats\<close>

text \<open>
  Rounding keeps whole numbers whole, so sums, differences and products of whole floats are whole
  or not finite. Inference counts on it when it types the arithmetic of two integers as an integer.
\<close>

definition wholish :: "f64 \<Rightarrow> bool" where
  "wholish f \<longleftrightarrow> (case f of Fin q \<Rightarrow> q \<in> \<int> | _ \<Rightarrow> True)"

lemma wholish_simps [simp]: "wholish (Fin q) \<longleftrightarrow> q \<in> \<int>" "wholish PosInf" "wholish NegInf" "wholish NaN"
  by (simp_all add: wholish_def)

lemma whole_floor: "(q :: rat) \<in> \<int> \<longleftrightarrow> q = of_int \<lfloor>q\<rfloor>"
  by (metis Ints_of_int floor_of_int Ints_cases)

lemma half_even_int: "half_even (of_int z) = z"
  by (simp add: half_even_def)

lemma pow2_neg: "e < 0 \<Longrightarrow> of_int z / pow2 e = of_int (z * 2 ^ nat (- e))"
  by simp

lemma pow2_nonneg: "0 \<le> e \<Longrightarrow> pow2 e \<in> \<int>"
  by simp

lemma pow2_pos: "0 < pow2 e"
  by simp

lemma round64_whole:
  assumes "q \<in> \<int>"
  shows "wholish (round64 q)"
proof (cases "q = 0")
  case False
  from assms obtain z where z: "\<bar>q\<bar> = of_int z" by (metis Ints_abs Ints_cases)
  define e where "e = last_place \<bar>q\<bar>"
  have "of_int (half_even (\<bar>q\<bar> / pow2 e)) * pow2 e \<in> \<int>"
  proof (cases "0 \<le> e")
    case True
    then show ?thesis by (intro Ints_mult pow2_nonneg) auto
  next
    case False
    then have "\<bar>q\<bar> / pow2 e = of_int (z * 2 ^ nat (- e))" using pow2_neg [of e z] by (simp only: z)
    then have "of_int (half_even (\<bar>q\<bar> / pow2 e)) = \<bar>q\<bar> / pow2 e" by (simp only: half_even_int)
    then have "of_int (half_even (\<bar>q\<bar> / pow2 e)) * pow2 e = \<bar>q\<bar>" using pow2_pos [of e] by simp
    then show ?thesis using z by simp
  qed
  moreover define m where "m = half_even (\<bar>q\<bar> / pow2 e)"
  ultimately have "of_int m * pow2 e \<in> \<int>" by (simp only: m_def)
  then show ?thesis using False
    unfolding round64_def Let_def e_def [symmetric] m_def [symmetric] by (simp del: pow2.simps)
qed (simp add: round64_def)

lemma f64_of_int_whole [simp]: "wholish (f64_of_int n)"
  by (simp add: f64_of_int_def round64_whole)

lemma f64_neg_whole [simp]: "wholish (f64_neg f) \<longleftrightarrow> wholish f"
  by (cases f) (auto dest: Ints_minus)

lemma f64_add_whole: "wholish a \<Longrightarrow> wholish b \<Longrightarrow> wholish (f64_add a b)"
  by (cases a; cases b) (simp_all add: round64_whole)

lemma f64_sub_whole: "wholish a \<Longrightarrow> wholish b \<Longrightarrow> wholish (f64_sub a b)"
  by (simp add: f64_sub_def f64_add_whole)

lemma f64_mul_whole: "wholish a \<Longrightarrow> wholish b \<Longrightarrow> wholish (f64_mul a b)"
  by (cases a; cases b) (simp_all add: f64_mul_def inf_of_def round64_whole)

end
