(* ===== verification/InferOps.thy ===== *)
theory InferOps
  imports ShapeNav Whole
begin

section \<open>Operators keep to their inferred types\<close>

text \<open>The types inference works with: built from the document, with its definitions or none.\<close>

definition typ_ok :: "node set \<Rightarrow> node_defs \<Rightarrow> node \<Rightarrow> bool" where
  "typ_ok D df t \<longleftrightarrow> reached D t \<and> (n_defs t = df \<or> n_defs t = None)"

lemma typ_ok_typed [simp]: "typ_ok D df (typed ts)"
  by (simp add: typ_ok_def reached.scalar)

lemma typ_ok_wrap: "reached_opt D p \<Longrightarrow> typ_ok D df (wrap_node p df)"
  using reached.with_context [OF reached.empty, of D df]
  by (cases p) (simp_all add: typ_ok_def wrap_node_def reached.with_context)

lemma typ_ok_union: "typ_ok D df a \<Longrightarrow> typ_ok D df b \<Longrightarrow> typ_ok D df (union_type a b)"
  by (auto simp: typ_ok_def union_type_def intro: reached.one_of)

lemma shape_empty [simp]: "has_shape defs (Some empty_node) v"
  by (rule has_shape.unconstrained [of _ _ empty_node]) (simp_all add: deref_def is_empty_schema_def)

lemma shape_wrap: "has_shape defs p v \<Longrightarrow> has_shape defs (Some (wrap_node p df)) v"
  using has_shape_set_defs [of defs df empty_node v] by (cases p) (simp_all add: wrap_node_def)

lemma shape_union: "has_shape defs (Some (union_type a b)) v \<longleftrightarrow> has_shape defs (Some a) v \<or> has_shape defs (Some b) v"
  by (subst has_shape_union) (auto simp: union_type_def plain_unions)

lemma typ_ok_strip: "closed df D \<Longrightarrow> typ_ok D df t \<Longrightarrow> typ_ok D df (schema_strip_null t)"
  unfolding schema_strip_null_def typ_ok_def
  using typ_ok_wrap [of D "strip_null t" "n_defs t"] reached_strip_null [of df D t]
  by (auto simp: typ_ok_def reached_opt_def wrap_node_def)

lemma typ_ok_null: "typ_ok D df t \<Longrightarrow> typ_ok D df (schema_with_null t)"
  unfolding schema_with_null_def typ_ok_def
  using typ_ok_wrap [of D "Some (with_null t)" "n_defs t"] reached_with_null [of D t]
  by (auto simp: typ_ok_def wrap_node_def)

subsection \<open>Operands\<close>

lemma variants_branches: "plain_node t \<Longrightarrow> schema_variants t = Some vs \<Longrightarrow> vs = map (map_option (set_defs (n_defs t))) (branches t)"
  using branches_one by (auto simp: schema_variants_def split: option.splits)

lemma variant_defs_shape: "has_shape defs (map_option (set_defs d) b) v \<longleftrightarrow> has_shape defs b v"
  by (cases b) (simp_all add: has_shape.nothing)

lemma unwrap_shape:
  assumes D: "\<forall>x \<in> D. plain_node x" "closed df D" and t: "typ_ok D df t"
  shows "typ_ok D df (unwrap_single_variant t)"
    and "has_shape df (Some (unwrap_single_variant t)) v \<longleftrightarrow> has_shape df (Some t) v"
proof -
  have r: "reached D t" using t by (simp add: typ_ok_def)
  note pl = reached_plain [OF D(1) r]
  consider "unwrap_single_variant t = t"
    | b where "branches t = [Some b]" "unwrap_single_variant t = set_defs (n_defs t) b"
  proof (cases "schema_variants t")
    case (Some vs)
    note br = variants_branches [OF pl Some]
    show ?thesis
    proof (cases "\<exists>b. branches t = [Some b]")
      case True
      then obtain b where b: "branches t = [Some b]" by blast
      with br have "vs = [Some (set_defs (n_defs t) b)]" by simp
      then show ?thesis using Some that b
        by (cases "is_null_type (Some (set_defs (n_defs t) b))") (simp_all add: unwrap_single_variant_def)
    next
      case False
      have "(case vs of [Some q] \<Rightarrow> q | _ \<Rightarrow> t) = t" using False br by (auto split: list.split option.split)
      then show ?thesis using Some that(1) by (simp add: unwrap_single_variant_def)
    qed
  qed (simp add: unwrap_single_variant_def that)
  then show "typ_ok D df (unwrap_single_variant t)"
    "has_shape df (Some (unwrap_single_variant t)) v \<longleftrightarrow> has_shape df (Some t) v"
  proof (atomize (full), cases)
    case 2
    then have "reached D b" using reached_variant [OF D(2) r, of b] by (auto simp: branches_def split: if_splits)
    with 2 t has_shape_union [OF pl, of df v] show "typ_ok D df (unwrap_single_variant t) \<and>
        has_shape df (Some (unwrap_single_variant t)) v = has_shape df (Some t) v"
      by (auto simp: typ_ok_def reached.with_context)
  qed (simp add: t)
qed

lemma reached_branch: "closed df D \<Longrightarrow> reached D t \<Longrightarrow> Some q \<in> set (branches t) \<Longrightarrow> reached D q"
  using reached_variant [of df D t q] by (auto simp: branches_def split: if_splits)

lemma all_of_Some: "all_of xs = Some ys \<Longrightarrow> xs = map Some ys"
  by (induction xs arbitrary: ys rule: all_of.induct) auto

lemma concrete_kind:
  assumes D: "\<forall>x \<in> D. plain_node x" "closed df D" and t: "typ_ok D df t"
    and k: "concrete_type_of t = Some k" and v: "has_shape df (Some t) v"
  shows "of_kind v k"
proof -
  have r: "reached D t" using t by (simp add: typ_ok_def)
  note pl = reached_plain [OF D(1) r]
  show ?thesis
  proof (cases "n_type t = [k]")
    case True
    with v has_shape_typed [OF pl, of df v] show ?thesis by simp
  next
    case False
    with k obtain vs ts where vs: "schema_variants t = Some vs" and ts: "all_of (map variant_type vs) = Some ts" "ts \<noteq> []"
      and kk: "(\<forall>u \<in> set ts. u = k) \<or> k = ''number'' \<and> (\<forall>u \<in> set ts. is_numeric u)"
      by (auto simp: concrete_type_of_def list_all_iff split: list.splits option.splits if_splits)
    have br: "vs = map (map_option (set_defs (n_defs t))) (branches t)" by (rule variants_branches [OF pl vs])
    from all_of_Some [OF ts(1)] ts(2) br have "branches t \<noteq> []" by auto
    with v has_shape_union [OF pl] obtain b where b: "b \<in> set (branches t)" "has_shape df b v" by blast
    from b(1) br have "map_option (set_defs (n_defs t)) b \<in> set vs" by simp
    then have "variant_type (map_option (set_defs (n_defs t)) b) \<in> set (map variant_type vs)" by simp
    then obtain u where u: "u \<in> set ts" "variant_type (map_option (set_defs (n_defs t)) b) = Some u"
      unfolding all_of_Some [OF ts(1)] by auto
    then obtain q where q: "b = Some q" "n_type q = [u]"
      by (auto simp: variant_type_def split: option.splits if_splits list.splits)
    have rq: "reached D q" using reached_branch [OF D(2) r] b(1) q(1) by simp
    from has_shape_typed [OF reached_plain [OF D(1) rq], of df v] b(2) q have uk: "of_kind v u" by simp
    from kk show ?thesis
    proof (elim disjE conjE)
      assume "\<forall>u \<in> set ts. u = k"
      with u(1) have "u = k" by blast
      with uk show ?thesis by simp
    next
      assume kn: "k = ''number''" and "\<forall>u \<in> set ts. is_numeric u"
      with u(1) have "is_numeric u" by blast
      with uk of_kind_number(1) [of v] have "of_kind v ''number''" unfolding is_numeric_def by metis
      then show ?thesis unfolding kn .
    qed
  qed
qed

text \<open>A number may be replaced by one of the same kinds.\<close>

lemma has_shape_number:
  assumes "has_shape defs p v" and "to_f64 v \<noteq> None" and "to_f64 w \<noteq> None" and "\<And>t. of_kind v t \<Longrightarrow> of_kind w t"
  shows "has_shape defs p w"
  using assms
proof (induction rule: has_shape.induct)
  case (flat s r v)
  then have "kind_ok r w" by (auto simp: kind_ok_def list_ex_iff)
  with flat show ?case by (intro has_shape.flat) auto
qed (auto intro: has_shape.intros)

lemma integer_whole: "of_kind v ''integer'' \<longleftrightarrow> (\<exists>f. to_f64 v = Some f \<and> wholish f)"
proof (cases v)
  case (GFloat f)
  then show ?thesis by (cases f) (simp_all add: of_kind_float whole_floor)
qed simp_all

lemma float_kind: "of_kind (GFloat f) ''integer'' \<longleftrightarrow> wholish f" "of_kind (GFloat f) ''number''"
  by (simp_all add: integer_whole of_kind_float)

subsection \<open>The operators\<close>

lemma num_bin_op_kind:
  assumes "num_bin_op f l r = Inr v"
  shows "of_kind v ''number''"
    and "(\<And>x y. wholish x \<Longrightarrow> wholish y \<Longrightarrow> wholish (f x y)) \<Longrightarrow> of_kind l ''integer'' \<Longrightarrow> of_kind r ''integer'' \<Longrightarrow> of_kind v ''integer''"
  using assms by (auto simp: num_bin_op_def both_numeric_def integer_whole float_kind Let_def split: option.splits if_splits)

lemma concrete_operands_kinds:
  assumes D: "\<forall>x \<in> D. plain_node x" "closed df D" and t: "typ_ok D df a" "typ_ok D df b"
    and k: "concrete_operands a b = Inr (j, k)" and v: "has_shape df (Some a) l" "has_shape df (Some b) r"
  shows "of_kind l j" "of_kind r k"
  using k concrete_kind [OF D t(1) _ v(1)] concrete_kind [OF D t(2) _ v(2)]
  by (auto simp: concrete_operands_def split: if_splits option.splits)

lemma infer_arith_shape:
  assumes D: "\<forall>x \<in> D. plain_node x" "closed df D" and t: "typ_ok D df a" "typ_ok D df b"
    and v: "has_shape df (Some a) l" "has_shape df (Some b) r"
    and i: "infer_arith a b = Inr c" and e: "num_bin_op f l r = Inr w"
    and f: "\<And>x y. wholish x \<Longrightarrow> wholish y \<Longrightarrow> wholish (f x y)"
  shows "has_shape df (Some c) w"
proof -
  from i obtain j k where jk: "concrete_operands a b = Inr (j, k)"
    and c: "c = (if j = ''integer'' \<and> k = ''integer'' then typed [''integer''] else typed [''number''])"
    by (auto simp: infer_arith_def and_then_eq_Inr split: if_splits)
  note kinds = concrete_operands_kinds [OF D t jk v]
  show ?thesis
  proof (cases "j = ''integer'' \<and> k = ''integer''")
    case True
    with kinds num_bin_op_kind(2) [OF e f] c show ?thesis by simp
  next
    case False
    show ?thesis unfolding c if_not_P [OF False] using num_bin_op_kind(1) [OF e] by simp
  qed
qed

lemma eval_add_number: "of_kind l ''number'' \<Longrightarrow> eval_add l r = num_bin_op f64_add l r"
  by (cases l; cases r) simp_all

lemma infer_add_shape:
  assumes D: "\<forall>x \<in> D. plain_node x" "closed df D" and t: "typ_ok D df a" "typ_ok D df b"
    and v: "has_shape df (Some a) l" "has_shape df (Some b) r"
    and i: "infer_add a b = Inr c" and e: "eval_add l r = Inr w"
  shows "has_shape df (Some c) w"
proof -
  from i obtain j k where jk: "concrete_operands a b = Inr (j, k)"
    and c: "(if j = ''string'' \<and> k = ''string'' then Inr (typed [''string'']) else infer_arith a b) = Inr c"
    by (auto simp: infer_add_def and_then_eq_Inr)
  note kinds = concrete_operands_kinds [OF D t jk v]
  show ?thesis
  proof (cases "j = ''string'' \<and> k = ''string''")
    case True
    with kinds c e show ?thesis by (auto simp: of_kind_cases)
  next
    case False
    with c have i: "infer_arith a b = Inr c" by auto
    then have "is_numeric j" using jk by (auto simp: infer_arith_def split: if_splits)
    with kinds(1) of_kind_number(1) [of l] have "of_kind l ''number''" unfolding is_numeric_def by metis
    with e have "num_bin_op f64_add l r = Inr w" by (simp add: eval_add_number)
    then show ?thesis by (rule infer_arith_shape [OF D t v i]) (rule f64_add_whole)
  qed
qed

lemma truth_shape: "has_shape df (Some (typed [''boolean''])) (GBool b)"
  by simp

text \<open>Whether a value of a type can be null; the fuel running out counts as yes.\<close>

fun may_null :: "nat \<Rightarrow> node_defs \<Rightarrow> node option \<Rightarrow> bool" where
  "may_null 0 defs p = True"
| "may_null (Suc n) defs p =
     (case p of None \<Rightarrow> True
      | Some s \<Rightarrow> (case deref s defs of Inl e \<Rightarrow> False
                   | Inr r \<Rightarrow> (n_type r = [] \<and> branches r = []) \<or> ''null'' \<in> set (n_type r) \<or> list_ex (may_null n defs) (branches r)))"

lemma may_null: "has_shape defs p GNil \<Longrightarrow> may_null n defs p"
proof (induction n arbitrary: p)
  case (Suc n)
  from Suc.prems show ?case
  proof (cases rule: has_shape.cases)
    case (unconstrained s r)
    then show ?thesis by (auto simp: is_empty_schema_def branches_def)
  next
    case (variant s r b)
    with Suc.IH show ?thesis by (auto simp: list_ex_iff)
  next
    case (flat s r)
    then show ?thesis by (auto simp: kind_ok_def list_ex_iff)
  qed simp_all
qed simp

text \<open>
  \<open>a ?? b\<close> has the type of \<open>a\<close> alone when stripping null changes nothing. That is right if \<open>a\<close> cannot
  be null, or is of no particular type.
\<close>

definition coalesce_ok :: "nat \<Rightarrow> node_defs \<Rightarrow> node \<Rightarrow> bool" where
  "coalesce_ok n df a \<longleftrightarrow>
     is_null_type (Some a) \<or> \<not> schemas_equal a (schema_strip_null a) \<or> is_empty_schema a \<or> \<not> may_null n df (Some a)"

lemma strip_shape:
  assumes D: "\<forall>x \<in> D. plain_node x" "closed df D" and t: "typ_ok D df a" and v: "has_shape df (Some a) l" "l \<noteq> GNil"
  shows "has_shape df (Some (schema_strip_null a)) l"
  unfolding schema_strip_null_def
  by (rule shape_wrap, rule has_shape_strip_null [OF D _ v]) (use t in \<open>simp add: typ_ok_def\<close>)

lemma infer_null_coalesce_shape:
  assumes D: "\<forall>x \<in> D. plain_node x" "closed df D" and t: "typ_ok D df a" "typ_ok D df b"
    and v: "has_shape df (Some a) l" "l = GNil \<Longrightarrow> has_shape df (Some b) w" "l \<noteq> GNil \<Longrightarrow> w = l"
    and ok: "coalesce_ok n df a" and i: "infer_null_coalesce a b = Inr c"
  shows "typ_ok D df c" "has_shape df (Some c) w"
proof (atomize (full), goal_cases)
  case 1
  let ?nn = "schema_strip_null a"
  have nn: "typ_ok D df ?nn" by (rule typ_ok_strip [OF D(2) t(1)])
  note strip = strip_shape [OF D t(1) v(1)]
  show ?case
  proof (cases "is_null_type (Some a)")
    case True
    have "l = GNil" using True null_shape [OF D(1) _ True v(1)] t(1) by (simp add: typ_ok_def)
    with True i t(2) v(2) show ?thesis by (simp add: infer_null_coalesce_def)
  next
    case na: False
    show ?thesis
    proof (cases "schemas_equal a ?nn")
      case True
      with na i have c: "c = a" by (simp add: infer_null_coalesce_def Let_def)
      show ?thesis
      proof (cases "l = GNil")
        case True
        then have "is_empty_schema a" using ok na \<open>schemas_equal a ?nn\<close> may_null v(1) unfolding coalesce_ok_def by metis
        then have "has_shape df (Some a) w"
          by (intro has_shape.unconstrained [of _ _ a]) (simp_all add: is_empty_schema_def)
        with c t(1) show ?thesis by simp
      qed (use v c t(1) in simp)
    next
      case nq: False
      show ?thesis
      proof (cases "schemas_equal ?nn b")
        case True
        with na nq i have c: "c = ?nn" by (simp add: infer_null_coalesce_def Let_def)
        have "has_shape df (Some ?nn) w \<longleftrightarrow> has_shape df (Some b) w"
          using schemas_equal_shape [OF D _ _ True] nn t(2) by (simp add: typ_ok_def)
        with c nn v strip show ?thesis by (cases "l = GNil") auto
      next
        case False
        let ?u = "union_type ?nn b"
        have u: "typ_ok D df ?u" "has_shape df (Some ?u) w"
          using typ_ok_union [OF nn t(2)] v strip by (cases "l = GNil"; simp add: shape_union)+
        consider "c = ?u" | j k where "concrete_type_of ?nn = Some j" "concrete_type_of b = Some k" "is_numeric j" "is_numeric k"
          "c = typed [if j = k then j else ''number'']"
          using na nq False i by (auto simp: infer_null_coalesce_def Let_def split: option.splits if_splits)
        then show ?thesis
        proof cases
          case 2
          have "of_kind w j \<or> of_kind w k"
          proof (cases "l = GNil")
            case True
            with concrete_kind [OF D t(2) 2(2)] v(2) show ?thesis by blast
          next
            case False
            with concrete_kind [OF D nn 2(1)] strip v(3) show ?thesis by blast
          qed
          moreover have "of_kind w j \<Longrightarrow> of_kind w ''number''" "of_kind w k \<Longrightarrow> of_kind w ''number''"
            using 2(3,4) of_kind_number(1) [of w] unfolding is_numeric_def by metis+
          ultimately have "of_kind w (if j = k then j else ''number'')" by auto
          moreover have "(if j = k then j else ''number'') \<noteq> ''object''"
            using 2(3,4) by (auto simp: is_numeric_def)
          ultimately show ?thesis by (simp add: 2(5))
        qed (use u in simp)
      qed
    qed
  qed
qed

lemma numeric_passthrough_shape:
  assumes D: "\<forall>x \<in> D. plain_node x" "closed df D" and t: "typ_ok D df a"
    and v: "has_shape df (Some a) l" and i: "numeric_passthrough a = Inr c"
  shows "c = a" and "negate_num l = Inr w \<Longrightarrow> has_shape df (Some a) w"
proof -
  from i obtain k where k: "concrete_type_of a = Some k" "is_numeric k" and "c = a"
    by (auto simp: numeric_passthrough_def split: if_splits option.splits)
  then show "c = a" by simp
  have n: "to_f64 l \<noteq> None"
    using concrete_kind [OF D t k(1) v] k(2) of_kind_number [of l] unfolding is_numeric_def by metis
  assume w: "negate_num l = Inr w"
  show "has_shape df (Some a) w"
  proof (rule has_shape_number [OF v n])
    show "to_f64 w \<noteq> None" using w n by (auto simp: negate_num_def split: if_splits)
    show "of_kind w t" if "of_kind l t" for t
    proof (cases l)
      case (GInt x)
      with w that show ?thesis by (auto simp: negate_num_def is_int_like_def)
    next
      case (GFloat f)
      with w have "w = GFloat (f64_neg f)" by (simp add: negate_num_def is_int_like_def)
      with that GFloat float_kind [of f] float_kind [of "f64_neg f"] of_kind_float [of f t] show ?thesis by auto
    qed (use n in simp_all)
  qed
qed

end
