(* ===== verification/Secrets.thy ===== *)
theory Secrets
  imports Reached
begin

section \<open>Secrets stay hidden\<close>

text \<open>
  What is read from redacted data, along any path the secret check flags, is the mask or null, when
  no mark sits beside a reference; and
  what redaction left is never collected as a secret again. Both follow navigation, so they see the
  same secrets; a mark behind a reference inside a union is seen by neither.
\<close>

subsection \<open>Reading a value along a path\<close>

definition read_step :: "path_step \<Rightarrow> gval \<Rightarrow> gval" where
  "read_step st v =
     (if st_prop st \<noteq> [] then
        (case v of GObj kvs \<Rightarrow> (case map_of kvs (st_prop st) of None \<Rightarrow> GNil | Some x \<Rightarrow> x) | _ \<Rightarrow> GNil)
      else
        (case v of GArr xs \<Rightarrow> (if 0 \<le> st_index st \<and> st_index st < int (length xs) then xs ! nat (st_index st) else GNil)
         | _ \<Rightarrow> GNil))"

fun read_path :: "path_step list \<Rightarrow> gval \<Rightarrow> gval" where
  "read_path [] v = v"
| "read_path (st # steps) v = read_path steps (read_step st v)"

definition hidden :: "gval \<Rightarrow> bool" where
  "hidden v \<longleftrightarrow> v = GNil \<or> v = masked"

lemma read_step_GNil [simp]: "read_step st GNil = GNil"
  by (simp add: read_step_def)

lemma read_path_GNil [simp]: "read_path steps GNil = GNil"
  by (induction steps) simp_all

lemma read_path_masked: "hidden (read_path steps masked)"
  by (cases steps) (simp_all add: hidden_def masked_def read_step_def)

subsection \<open>Documents whose marks can be seen\<close>

text \<open>No mark sits beside a reference, where it is ignored, and no definition is itself a reference.\<close>

definition marks_shown :: "node_defs \<Rightarrow> node set \<Rightarrow> bool" where
  "marks_shown defs D \<longleftrightarrow> (\<forall>x \<in> D. is_secret x \<longrightarrow> n_ref x = []) \<and> (\<forall>k q. def_node defs k = Some q \<longrightarrow> n_ref q = [])"

definition marked :: "node option \<Rightarrow> bool" where
  "marked p = (case p of None \<Rightarrow> False | Some x \<Rightarrow> is_secret x)"

lemma is_secret_set_type [simp]: "is_secret (set_type ts x) = is_secret x"
  by (simp add: is_secret.simps [of x] is_secret.simps [of "set_type ts x"])

lemma is_secret_set_defs [simp]: "is_secret (set_defs df x) = is_secret x"
  by (simp add: is_secret.simps [of x] is_secret.simps [of "set_defs df x"])

lemma is_secret_fewer:
  "set (variants_of vs) \<subseteq> set (variants_of (n_one_of x)) \<Longrightarrow> is_secret (set_one_of vs x) \<Longrightarrow> is_secret x"
  "set (variants_of vs) \<subseteq> set (variants_of (n_any_of x)) \<Longrightarrow> is_secret (set_any_of vs x) \<Longrightarrow> is_secret x"
  unfolding is_secret.simps [of x] is_secret.simps [of "set_one_of vs x"] is_secret.simps [of "set_any_of vs x"]
  by (simp_all add: list_ex_iff) blast+

lemma is_secret_empty: "\<not> is_secret (typed ts)" "\<not> is_secret empty_node"
  by (simp_all add: is_secret.simps)

lemma reached_marks:
  assumes "marks_shown defs D" and "reached D x"
  shows "is_secret x \<longrightarrow> n_ref x = []"
  using assms(2)
proof (induction rule: reached.induct)
  case (doc x)
  with assms(1) show ?case by (simp add: marks_shown_def)
next
  case (fewer_one_of x vs)
  with is_secret_fewer(1) show ?case by auto
next
  case (fewer_any_of x vs)
  with is_secret_fewer(2) show ?case by auto
qed (simp_all add: is_secret_empty)

lemma deref_no_ref: "marks_shown defs D \<Longrightarrow> deref x defs = Inr r \<Longrightarrow> n_ref r = []"
  by (auto simp: marks_shown_def deref_def split: if_splits option.splits)

lemma deref_self: "n_ref r = [] \<Longrightarrow> deref r defs = Inr r"
  by (simp add: deref_def)

lemma step_into_deref:
  assumes "deref x defs = Inr r" and "n_ref r = []"
  shows "step_into n defs st (Some x) = step_into n defs st (Some r)"
  using assms deref_self [OF assms(2), of defs] by (cases n) (simp_all add: step_into_def)

subsection \<open>Reading redacted data\<close>

lemma map_of_redacted: "map_of (map (\<lambda>(k, x). (k, f k x)) kvs) k = map_option (f k) (map_of kvs k)"
  by (induction kvs) auto

text \<open>Redaction and collection, case by case.\<close>

lemma redact_marked: "deref x defs = Inr r \<Longrightarrow> is_secret r \<Longrightarrow> v \<noteq> GNil \<Longrightarrow> redact n defs (Some x) v = masked"
  by (simp add: redact.simps)

lemma redact_GObj:
  "deref x defs = Inr r \<Longrightarrow> \<not> is_secret r \<Longrightarrow> redact n defs (Some x) (GObj kvs) =
     GObj (map (\<lambda>(k, u). (k, case lookup_property n defs k (Some r) of Inr child \<Rightarrow> redact n defs child u | Inl e \<Rightarrow> u)) kvs)"
  by (simp add: redact.simps [of n defs "Some x"])

lemma redact_GArr:
  "deref x defs = Inr r \<Longrightarrow> \<not> is_secret r \<Longrightarrow> redact n defs (Some x) (GArr xs) =
     (case infer_index n defs (Some r) of Inl e \<Rightarrow> GArr xs | Inr child \<Rightarrow> GArr (map (redact n defs child) xs))"
  by (simp add: redact.simps [of n defs "Some x"])

lemma redact_plain: "deref x defs = Inr r \<Longrightarrow> \<not> is_secret r \<Longrightarrow> (\<forall>kvs. v \<noteq> GObj kvs) \<Longrightarrow> (\<forall>xs. v \<noteq> GArr xs) \<Longrightarrow> redact n defs (Some x) v = v"
  by (cases v) (simp_all add: redact.simps)

lemma collect_marked: "deref x defs = Inr r \<Longrightarrow> is_secret r \<Longrightarrow> set (collect_secrets n defs (Some x) v) \<subseteq> {secret_string v}"
  by (simp add: collect_secrets.simps)

lemma collect_GObj:
  "deref x defs = Inr r \<Longrightarrow> \<not> is_secret r \<Longrightarrow> collect_secrets n defs (Some x) (GObj kvs) =
     concat (map (\<lambda>(k, u). (case lookup_property n defs k (Some r) of
        Inr child \<Rightarrow> collect_secrets n defs child u | Inl e \<Rightarrow> [])) kvs)"
  by (simp add: collect_secrets.simps [of n defs "Some x"])

lemma collect_GArr:
  "deref x defs = Inr r \<Longrightarrow> \<not> is_secret r \<Longrightarrow> collect_secrets n defs (Some x) (GArr xs) =
     (case infer_index n defs (Some r) of Inl e \<Rightarrow> [] | Inr child \<Rightarrow> concat (map (collect_secrets n defs child) xs))"
  by (simp add: collect_secrets.simps [of n defs "Some x"])

lemma collect_plain: "deref x defs = Inr r \<Longrightarrow> \<not> is_secret r \<Longrightarrow> (\<forall>kvs. v \<noteq> GObj kvs) \<Longrightarrow> (\<forall>xs. v \<noteq> GArr xs) \<Longrightarrow> collect_secrets n defs (Some x) v = []"
  by (cases v) (simp_all add: collect_secrets.simps)

lemma redact_none [simp]: "redact n defs None v = v" "collect_secrets n defs None v = []"
  by (simp_all add: redact.simps collect_secrets.simps)

lemma redact_nil [simp]: "redact n defs p GNil = GNil" "collect_secrets n defs p GNil = []"
  by (cases p; simp add: redact.simps collect_secrets.simps)+

lemma redact_bad_ref:
  "deref x defs = Inl e \<Longrightarrow> redact n defs (Some x) v = v" "deref x defs = Inl e \<Longrightarrow> collect_secrets n defs (Some x) v = []"
  by (simp_all add: redact.simps collect_secrets.simps)

lemma step_into_error:
  "is_err (step_into n defs st None)" "deref x defs = Inl e \<Longrightarrow> is_err (step_into n defs st (Some x))"
  by (cases n; simp add: step_into_def)+

lemma read_redacted:
  assumes d: "deref x defs = Inr r" and ns: "\<not> is_secret r" and st: "step_into n defs st (Some r) = Inr c"
  shows "read_step st (redact n defs (Some x) v) = GNil \<or> (\<exists>u. read_step st (redact n defs (Some x) v) = redact n defs c u)"
proof (cases v)
  case (GObj kvs)
  let ?f = "\<lambda>k u. case lookup_property n defs k (Some r) of Inr child \<Rightarrow> redact n defs child u | Inl e \<Rightarrow> u"
  have obj: "redact n defs (Some x) v = GObj (map (\<lambda>(k, u). (k, ?f k u)) kvs)" unfolding GObj by (rule redact_GObj [OF d ns])
  show ?thesis
  proof (cases "st_prop st = []")
    case False
    with st have "lookup_property n defs (st_prop st) (Some r) = Inr c" by (simp add: step_into_def)
    with False have "read_step st (redact n defs (Some x) v) = (case map_of kvs (st_prop st) of None \<Rightarrow> GNil | Some u \<Rightarrow> redact n defs c u)"
      unfolding obj read_step_def by (simp add: map_of_redacted [of ?f] split: option.split)
    then show ?thesis by (auto split: option.split)
  qed (simp add: obj read_step_def)
next
  case (GArr xs)
  have arr: "redact n defs (Some x) v = (case infer_index n defs (Some r) of Inl e \<Rightarrow> GArr xs | Inr child \<Rightarrow> GArr (map (redact n defs child) xs))"
    unfolding GArr by (rule redact_GArr [OF d ns])
  show ?thesis
  proof (cases "st_prop st = []")
    case True
    with st have "infer_index n defs (Some r) = Inr c" by (simp add: step_into_def)
    with True show ?thesis unfolding arr by (auto simp: read_step_def)
  qed (simp add: arr read_step_def split: sum.split)
qed (simp_all add: redact_plain [OF d ns] read_step_def)

lemma redacted_reads_hidden:
  assumes cl: "closed defs D" and ms: "marks_shown defs D"
  shows "reached_opt D c \<Longrightarrow> marked c \<or> hits_secret n defs steps c \<Longrightarrow> hidden (read_path steps (redact n defs c v))"
proof (induction steps arbitrary: c v)
  case (Cons st steps)
  show ?case
  proof (cases c)
    case None
    with Cons.prems step_into_error(1) [of n defs st] show ?thesis by (auto simp: marked_def split: sum.splits)
  next
    case (Some x)
    with Cons.prems(1) have x: "reached D x" by simp
    show ?thesis
    proof (cases "deref x defs")
      case (Inl e)
      then have "n_ref x \<noteq> []" by (auto simp: deref_def split: if_splits)
      with reached_marks [OF ms x] have "\<not> is_secret x" by blast
      with Cons.prems(2) Some step_into_error(2) [OF Inl, of n st] show ?thesis by (auto simp: marked_def split: sum.splits)
    next
      case (Inr r)
      note nr = deref_no_ref [OF ms Inr]
      show ?thesis
      proof (cases "is_secret r")
        case True
        with redact_marked [OF Inr] Some show ?thesis
          by (cases "v = GNil") (simp_all add: hidden_def [of GNil] read_path_masked del: read_path.simps)
      next
        case ns: False
        have "\<not> is_secret x"
        proof
          assume "is_secret x"
          with reached_marks [OF ms x] have "n_ref x = []" by blast
          with Inr ns \<open>is_secret x\<close> show False by (simp add: deref_def)
        qed
        with Cons.prems(2) Some obtain c' where c': "step_into n defs st (Some r) = Inr c'"
          and hit: "marked c' \<or> hits_secret n defs steps c'"
          by (auto simp: marked_def step_into_deref [OF Inr nr] split: sum.splits)
        have rc: "reached_opt D c'"
          using step_into_reached [OF cl _ c'] reached_deref [OF cl x Inr] by simp
        from read_redacted [OF Inr ns c', of v] show ?thesis
          using Some Cons.IH [OF rc hit] by (auto simp: hidden_def [of GNil])
      qed
    qed
  qed
next
  case Nil
  from Nil obtain x where x: "c = Some x" "is_secret x" by (cases c) (auto simp: marked_def)
  with Nil reached_marks [OF ms] have "n_ref x = []" by simp
  from redact_marked [OF deref_self [OF this] x(2)] x(1) show ?case by (cases "v = GNil") (auto simp: hidden_def)
qed

text \<open>
  C22: Redacted data hides what the secret check flags, on documents whose marks are shown: no node
  with a secret mark is a reference, and no definition is itself a reference. When \<open>SecretAt\<close> holds
  of a path there, reading that path from the redacted data gives the mask or null, whatever the
  data. So an expression tainted because of its path and the redaction of the API agree on what is
  secret. With a mark beside a reference they need not agree: in \<open>marked_alias_flagged\<close> below a path is
  flagged and not redacted.
\<close>

theorem redaction_hides_flagged_paths:
  assumes "marks_shown (n_defs s) (set (subnodes s))" and "secret_at n s path" and "parse_path path = Some steps"
  shows "hidden (read_path steps (schema_redact n s v))"
proof -
  let ?defs = "n_defs s"
  from assms(2,3) obtain r where r: "deref s ?defs = Inr r" "is_secret r \<or> hits_secret n ?defs steps (Some r)"
    by (auto simp: secret_at_def path_hits_secret_def split: sum.splits)
  have "r \<in> set (subnodes s)" using deref_in_doc subnodes_self r(1) by blast
  then have "hidden (read_path steps (redact n ?defs (Some r) v))"
    using redacted_reads_hidden [OF closed_subnodes assms(1), of "Some r" n steps v] r(2) by (simp add: marked_def reached.doc)
  moreover have "redact n ?defs (Some s) v = redact n ?defs (Some r) v"
    using r(1) deref_self [OF deref_no_ref [OF assms(1) r(1)], of ?defs] by (simp add: redact.simps)
  ultimately show ?thesis by (simp add: schema_redact_def)
qed

subsection \<open>Redacting twice\<close>

lemma secret_string_masked [simp]: "secret_string masked = ''***''" and masked_not_nil [simp]: "masked \<noteq> GNil"
  by (simp_all add: secret_string_def masked_def)

lemma collect_redacted: "set (collect_secrets n defs p (redact n defs p v)) \<subseteq> {''***''}"
proof (induction v arbitrary: p rule: measure_induct_rule [of size])
  case (less v)
  show ?case
  proof (cases "\<exists>x r. p = Some x \<and> deref x defs = Inr r")
    case False
    show ?thesis
    proof (cases p)
      case (Some x)
      with False obtain e where "deref x defs = Inl e" by (cases "deref x defs") auto
      with Some show ?thesis by (simp add: redact_bad_ref)
    qed simp
  next
    case True
    then obtain x r where p: "p = Some x" and d: "deref x defs = Inr r" by blast
    show ?thesis
    proof (cases "is_secret r \<or> v = GNil")
      case True
      with collect_marked [OF d, of n masked] redact_marked [OF d] show ?thesis unfolding p by (cases "v = GNil") auto
    next
      case ns: False
      show ?thesis
      proof (cases v)
        case (GObj kvs)
        have inner: "set (collect_secrets n defs child (redact n defs child u)) \<subseteq> {''***''}" if "(k, u) \<in> set kvs" for k u child
          by (rule less.IH) (use that GObj in \<open>force dest: size_list_estimation' [where f = "size_prod (\<lambda>x. 0) size" and y = "size u"]\<close>)
        then show ?thesis unfolding p GObj
          using ns by (auto simp: redact_GObj [OF d] collect_GObj [OF d] split: sum.splits dest!: subsetD [OF inner])
      next
        case (GArr xs)
        have "set (collect_secrets n defs child (redact n defs child u)) \<subseteq> {''***''}" if "u \<in> set xs" for u child
          by (rule less.IH) (use that GArr in \<open>simp add: less_Suc_eq_le size_list_estimation'\<close>)
        then show ?thesis unfolding p GArr
          using ns by (cases "infer_index n defs (Some r)") (auto simp: redact_GArr [OF d] collect_GArr [OF d])
      qed (use ns in \<open>simp_all add: p redact_plain [OF d] collect_plain [OF d]\<close>)
    qed
  qed
qed

text \<open>A schema with a secret property and one inside an array, and what redaction makes of a value.\<close>

definition secret_text :: node where
  "secret_text = Node [''string''] None None None None None None None None None None None None None [] None [] [] GNil True"

definition ref_to :: "string \<Rightarrow> node" where
  "ref_to name = Node [] None None None None None None None None None None None None None (defs_prefix @ name) None [] [] GNil False"

definition array_of :: "node \<Rightarrow> node" where
  "array_of q = Node [''array''] None None (Some q) None None None None None None None None None None [] None [] [] GNil False"

definition object_with :: "(string \<times> node option) list \<Rightarrow> string list \<Rightarrow> node_defs \<Rightarrow> node" where
  "object_with ps rq df = Node [''object''] (Some ps) (Some rq) None None None None None None None None None None None [] df [] [] GNil False"

definition keys_schema :: node where
  "keys_schema = object_with [(''keys'', Some (array_of secret_text)), (''auth'', Some (ref_to ''token''))] [''auth'']
     (Some [(''token'', Some secret_text)])"

theorem redaction_hides_flagged_paths_witness:
  "hidden (read_path [\<lparr>st_prop = ''keys'', st_index = 0\<rparr>, \<lparr>st_prop = [], st_index = 1\<rparr>]
     (schema_redact 9 keys_schema (GObj [(''keys'', GArr [GStr ''a'', GStr ''b'']), (''auth'', GStr ''c'')])))"
proof -
  have "list_all (\<lambda>x. is_secret x \<longrightarrow> n_ref x = []) (subnodes keys_schema)" by code_simp
  moreover have "def_node (n_defs keys_schema) k = Some q \<Longrightarrow> n_ref q = []" for k q
    by (auto simp: def_node_def keys_schema_def object_with_def secret_text_def split: if_splits)
  ultimately have "marks_shown (n_defs keys_schema) (set (subnodes keys_schema))"
    by (auto simp: marks_shown_def list_all_iff)
  moreover have "secret_at 9 keys_schema ''keys[1]''" by code_simp
  moreover have "parse_path ''keys[1]'' = Some [\<lparr>st_prop = ''keys'', st_index = 0\<rparr>, \<lparr>st_prop = [], st_index = 1\<rparr>]" by code_simp
  ultimately show ?thesis by (rule redaction_hides_flagged_paths)
qed

text \<open>
  A mark behind a reference inside a union is not seen: the elements of an array get their type with
  null added as a union around the reference, and neither the secret check nor redaction looks
  through it.
\<close>

lemma secret_array_elements_leak:
  "let s = object_with [(''keys'', Some (array_of (ref_to ''token'')))] [''keys''] (Some [(''token'', Some secret_text)]);
       v = GObj [(''keys'', GArr [GStr ''hunter2''])]
   in \<not> secret_at 9 s ''keys[0]'' \<and> schema_redact 9 s v = v \<and> schema_collect_secrets 9 s v = []"
  by code_simp

text \<open>A mark beside a reference is dropped with everything else beside it.\<close>

lemma mark_beside_reference_ignored:
  "let s = object_with [(''key'', Some (set_secret True (ref_to ''text'')))] [''key''] (Some [(''text'', Some (typed [''string'']))]);
       v = GObj [(''key'', GStr ''hunter2'')]
   in \<not> secret_at 9 s ''key'' \<and> schema_redact 9 s v = v"
  by code_simp

text \<open>
  In a definition that is itself a reference such a mark is flagged, because the lookup of the property
  follows one reference and the check sees the mark there; redaction follows the second one too.
\<close>

lemma marked_alias_flagged:
  "let s = object_with [(''key'', Some (ref_to ''alias''))] [''key'']
         (Some [(''alias'', Some (set_secret True (ref_to ''text''))), (''text'', Some (typed [''string'']))]);
       v = GObj [(''key'', GStr ''hunter2'')]
   in secret_at 9 s ''key'' \<and> schema_redact 9 s v = v"
  by code_simp

end
