(* ===== verification/InferSound.thy ===== *)
theory InferSound
  imports InferOps Secrets
begin

section \<open>Inferred types are right\<close>

subsection \<open>Paths name expressions\<close>

text \<open>
  Guards are kept by the text of a path. Names with a dot or a bracket in them can make two paths
  one, so they are left out.
\<close>

definition plain_name :: "string \<Rightarrow> bool" where
  "plain_name x \<longleftrightarrow> CHR ''.'' \<notin> set x \<and> CHR ''['' \<notin> set x \<and> CHR '']'' \<notin> set x"

fun plain_names :: "expr \<Rightarrow> bool" where
  "plain_names (EIdent x) \<longleftrightarrow> plain_name x"
| "plain_names (EMember e p) \<longleftrightarrow> plain_names e \<and> (case p of EStr k \<Rightarrow> plain_name k | _ \<Rightarrow> True)"
| "plain_names (EBinary op l r) \<longleftrightarrow> plain_names l \<and> plain_names r"
| "plain_names (EUnary op e) \<longleftrightarrow> plain_names e"
| "plain_names (ECond c a b) \<longleftrightarrow> plain_names c \<and> plain_names a \<and> plain_names b"
| "plain_names e \<longleftrightarrow> True"

lemma digits_no_bracket: "c \<in> set (dec_int i) \<Longrightarrow> c = CHR ''-'' \<or> is_digit c"
  using dec_nat_digits by (auto simp: dec_int_def list_all_iff split: if_splits)

lemma bracket_not_in_int: "CHR ''['' \<notin> set (dec_int i)" 
  using digits_no_bracket [of "CHR ''[''" i] by (auto simp: is_digit_def)

lemma dec_int_inj: "dec_int i = dec_int j \<Longrightarrow> i = j"
proof -
  have hd: "hd (dec_nat n) \<noteq> CHR ''-''" "dec_nat n \<noteq> []" for n
  proof -
    show "dec_nat n \<noteq> []" by (rule dec_nat_not_Nil)
    then have "is_digit (hd (dec_nat n))" using dec_nat_digits [of n] by (simp add: list_all_iff)
    then show "hd (dec_nat n) \<noteq> CHR ''-''" by (auto simp: is_digit_def)
  qed
  show "dec_int i = dec_int j \<Longrightarrow> i = j"
    using hd(1) [of "nat i"] hd(1) [of "nat j"] dec_nat_inj
    by (auto simp: dec_int_def split: if_splits) (metis list.sel(1))+
qed

lemma first_separator: "xs @ c # k = ys @ c # l \<Longrightarrow> c \<notin> set xs \<Longrightarrow> c \<notin> set ys \<Longrightarrow> xs = ys \<and> k = l"
proof (induction xs arbitrary: ys)
  case Nil
  then show ?case by (cases ys) auto
next
  case (Cons x xs)
  then show ?case by (cases ys) auto
qed

lemma last_separator:
  assumes "xs @ c # k = ys @ c # l" and "c \<notin> set k" and "c \<notin> set l"
  shows "xs = ys \<and> k = l"
proof -
  from assms(1) have "rev k @ c # rev xs = rev l @ c # rev ys" by (metis append.assoc append_Cons rev.simps(2) rev_append append_Nil)
  from first_separator [OF this] assms(2,3) show ?thesis by simp
qed

lemma last_bracket: "last (xs @ CHR ''['' # dec_int i @ '']'') = CHR '']''"
  by simp

lemma last_name: "plain_name k \<Longrightarrow> last (xs @ CHR ''.'' # k) \<noteq> CHR '']''"
  by (cases k rule: rev_cases) (auto simp: plain_name_def)

lemma node_path_shape:
  assumes "node_path e \<noteq> []"
  obtains x where "e = EIdent x" | b k where "e = EMember b (EStr k)" "node_path e = node_path b @ CHR ''.'' # k" "node_path b \<noteq> []"
    | b i where "e = EMember b (EInt i)" "node_path e = node_path b @ CHR ''['' # dec_int i @ '']''" "node_path b \<noteq> []"
proof (cases e)
  case (EMember b p)
  with assms that show ?thesis by (cases p) (simp_all split: if_splits)
qed (use assms that in simp_all)

lemma node_path_inj:
  "plain_names a \<Longrightarrow> plain_names b \<Longrightarrow> node_path a = node_path b \<Longrightarrow> node_path a \<noteq> [] \<Longrightarrow> a = b"
proof (induction a arbitrary: b rule: measure_induct_rule [of size])
  case (less a)
  from less.prems(3,4) have nb: "node_path b \<noteq> []" by simp
  have no_sep: "plain_name x \<Longrightarrow> x \<noteq> ys @ CHR ''.'' # k" "plain_name x \<Longrightarrow> x \<noteq> ys @ CHR ''['' # k" for x ys k
    by (auto simp: plain_name_def)
  show ?case
  proof (cases rule: node_path_shape [OF less.prems(4)])
    case (1 x)
    with less.prems(1,3) no_sep show ?thesis by (cases rule: node_path_shape [OF nb]) auto
  next
    case (2 c k)
    then have k: "plain_name k" "plain_names c" using less.prems(1) by simp_all
    show ?thesis
    proof (cases rule: node_path_shape [OF nb])
      case (1 x)
      then have "x = node_path c @ CHR ''.'' # k" "plain_name x" using less.prems(2,3) 2(2) by simp_all
      with no_sep(1) show ?thesis by blast
    next
      case b: (2 d l)
      then have l: "plain_name l" "plain_names d" using less.prems(2) by simp_all
      from less.prems(3) 2(2) b(2) k(1) l(1) have "node_path c = node_path d \<and> k = l"
        by (intro last_separator [of _ "CHR ''.''"]) (auto simp: plain_name_def)
      with less.IH [of c d] 2 b k(2) l(2) show ?thesis by simp
    next
      case (3 d i)
      with less.prems(3) 2(2) last_name [OF k(1), of "node_path c"] last_bracket [of "node_path d" i] show ?thesis by simp
    qed
  next
    case (3 c i)
    then have c: "plain_names c" using less.prems(1) by simp
    show ?thesis
    proof (cases rule: node_path_shape [OF nb])
      case (1 x)
      then have "x = node_path c @ CHR ''['' # dec_int i @ '']''" "plain_name x" using less.prems(2,3) 3(2) by simp_all
      with no_sep(2) show ?thesis by blast
    next
      case b: (2 d l)
      then have l: "plain_name l" using less.prems(2) by simp
      with less.prems(3) 3(2) b(2) last_name [OF l, of "node_path d"] last_bracket [of "node_path c" i] show ?thesis by simp
    next
      case b: (3 d j)
      then have d: "plain_names d" using less.prems(2) by simp
      from less.prems(3) 3(2) b(2) bracket_not_in_int [of i] bracket_not_in_int [of j]
      have "node_path c = node_path d \<and> dec_int i @ '']'' = dec_int j @ '']''"
        by (intro last_separator [of _ "CHR ''[''"]) auto
      with less.IH [of c d] 3 b c d dec_int_inj [of i j] show ?thesis by simp
    qed
  qed
qed

subsection \<open>Narrowing\<close>

definition guards_ok :: "node set \<Rightarrow> node_defs \<Rightarrow> ctx_data \<Rightarrow> guards \<Rightarrow> bool" where
  "guards_ok D df ctx g \<longleftrightarrow>
     (\<forall>path t. map_of g path = Some t \<longrightarrow> typ_ok D df t \<and>
        (\<forall>e v. plain_names e \<longrightarrow> node_path e = path \<longrightarrow> eval ctx e = Inr v \<longrightarrow> has_shape df (Some t) v))"

lemma guards_ok_put:
  assumes g: "guards_ok D df ctx g" and subj: "plain_names subj" "node_path subj \<noteq> []" "eval ctx subj = Inr u"
    and t: "typ_ok D df t" "has_shape df (Some t) u"
  shows "guards_ok D df ctx ((node_path subj, t) # g)"
proof -
  have "has_shape df (Some t) v" if "plain_names e" "node_path e = node_path subj" "eval ctx e = Inr v" for e v
  proof -
    have "subj = e" using node_path_inj [OF subj(1) that(1)] that(2) subj(2) by simp
    with that(3) subj(3) t(2) show ?thesis by simp
  qed
  with g t(1) show ?thesis by (auto simp: guards_ok_def)
qed

lemma f64_eq_sym: "f64_eq a b = f64_eq b a"
  by (cases a; cases b) auto

lemma equal_values_sym: "equal_values l r = equal_values r l"
proof -
  have "go_equal l r = go_equal r l" by (cases l; cases r) auto
  moreover have "both_numeric r l = map_option (\<lambda>(a, b). (b, a)) (both_numeric l r)"
    by (simp add: both_numeric_def split: option.split)
  ultimately show ?thesis by (auto simp: equal_values_def f64_eq_sym split: option.split)
qed

lemma narrowing_condition:
  assumes "narrowing c = Some (holds, subj, lit)" and "eval ctx c = Inr v"
  obtains u w q where "eval ctx subj = Inr u" "eval ctx lit = Inr w" "equal_values u w = Inr q" "must_bool v \<longleftrightarrow> q = holds"
proof -
  from assms(1) obtain op l r where c: "c = EBinary op l r" and op: "op = ''=='' \<or> op = ''!=''"
    and lr: "holds = (op = ''=='')" "(subj = l \<and> lit = r) \<or> (subj = r \<and> lit = l)"
    by (auto simp: narrowing_def split: expr.splits if_splits)
  from assms(2) op obtain a b q where e: "eval ctx l = Inr a" "eval ctx r = Inr b" "equal_values a b = Inr q"
    and v: "v = GBool (if op = ''=='' then q else \<not> q)"
    by (auto simp: c binary_op_def and_then_eq_Inr)
  have m: "must_bool v \<longleftrightarrow> q = holds" using v lr(1) by (auto simp: must_bool_def)
  from lr(2) show ?thesis
  proof (elim disjE conjE)
    assume "subj = r" "lit = l"
    with e equal_values_sym [of a b] show ?thesis by (intro that [OF _ _ _ m]) auto
  qed (use e m that in blast)
qed

lemma narrowing_parts:
  assumes "narrowing c = Some (holds, subj, lit)"
  shows "is_literal lit" "node_path subj \<noteq> []" "size subj < size c" "plain_names c \<Longrightarrow> plain_names subj"
  using assms by (auto simp: narrowing_def split: expr.splits if_splits)

lemma literal_shape:
  assumes "is_literal lit" and i: "infer n s g lit = Inr t" and e: "eval ctx lit = Inr w" and q: "equal_values u w = Inr True"
  shows "typ_ok D df t" "has_shape df (Some t) u"
proof (atomize (full), use assms(1) in \<open>cases lit\<close>)
  case (EInt k)
  have "of_kind u ''integer''"
  proof (cases "to_f64 u")
    case None
    then show ?thesis using q e EInt by (cases u) (auto simp: equal_values_def both_numeric_def)
  next
    case (Some f)
    with q e EInt have "f64_eq f (f64_of_int k)" by (auto simp: equal_values_def both_numeric_def)
    then have "f = f64_of_int k" by (cases f; cases "f64_of_int k") auto
    with Some show ?thesis by (simp add: integer_whole)
  qed
  with i EInt show "typ_ok D df t \<and> has_shape df (Some t) u" by auto
next
  case (EFloat f)
  have "to_f64 u \<noteq> None" using q e EFloat by (cases u) (auto simp: equal_values_def both_numeric_def)
  with i EFloat of_kind_number(2) [of u] show "typ_ok D df t \<and> has_shape df (Some t) u" by auto
next
  case (EStr x)
  then have "u = GStr x" using q e by (cases u) (auto simp: equal_values_def both_numeric_def)
  with i EStr show "typ_ok D df t \<and> has_shape df (Some t) u" by auto
next
  case (EBool x)
  then have "u = GBool x" using q e by (cases u) (auto simp: equal_values_def both_numeric_def)
  with i EBool show "typ_ok D df t \<and> has_shape df (Some t) u" by auto
next
  case (EIdent x)
  then have "x = ''null''" "u = GNil" using q e assms(1) by (cases u; auto simp: equal_values_def both_numeric_def)+
  with i EIdent show "typ_ok D df t \<and> has_shape df (Some t) u" by auto
qed simp_all

lemma narrowed_ok:
  assumes D: "\<forall>x \<in> D. plain_node x" "closed df D" and g: "guards_ok D df ctx g"
    and subj: "plain_names subj" "node_path subj \<noteq> []" "eval ctx subj = Inr u"
    and lit: "is_literal lit" "eval ctx lit = Inr w" and q: "equal_values u w = Inr q"
    and st: "\<And>t. infer n s g subj = Inr t \<Longrightarrow> typ_ok D df t \<and> has_shape df (Some t) u"
  shows "guards_ok D df ctx (narrowed q (node_path subj) lit (infer n s g lit) (infer n s g subj) g)"
proof (cases q)
  case True
  then show ?thesis
    using g guards_ok_put [OF g subj] literal_shape [OF lit(1) _ lit(2)] q
    by (auto simp: narrowed_def equal_guard_def split: sum.split)
next
  case False
  have "guards_ok D df ctx ((node_path subj, schema_strip_null t) # g)"
    if t: "infer n s g subj = Inr t" and "is_null_literal lit" for t
  proof (rule guards_ok_put [OF g subj])
    have "w = GNil" using lit(2) that(2) by (simp add: is_null_literal_def)
    with q False have "u \<noteq> GNil" by (auto simp: equal_values_def both_numeric_def)
    with st [OF t] strip_shape [OF D] show "has_shape df (Some (schema_strip_null t)) u" by blast
    show "typ_ok D df (schema_strip_null t)" using typ_ok_strip [OF D(2)] st [OF t] by blast
  qed
  with False g show ?thesis by (auto simp: narrowed_def differ_guard_def split: sum.split)
qed

subsection \<open>Soundness\<close>

text \<open>
  Where inference can be relied on: members are read from types whose unions hide nothing, and \<open>??\<close>
  is applied where null is visible in the type of its left side, or excluded by it.
\<close>

fun tame :: "nat \<Rightarrow> node \<Rightarrow> guards \<Rightarrow> expr \<Rightarrow> bool" where
  "tame n s g (EMember e p) \<longleftrightarrow>
     (node_path (EMember e p) \<noteq> [] \<and> map_of g (node_path (EMember e p)) \<noteq> None)
   \<or> tame n s g e \<and> (case infer n s g e of Inl _ \<Rightarrow> True
        | Inr base \<Rightarrow> is_null_type (Some base) \<or>
            (case p of EStr k \<Rightarrow> shut n (n_defs s) (Some (with_defs (n_defs s) base))
             | EInt i \<Rightarrow> shut_items n (n_defs s) (Some (with_defs (n_defs s) base)) | _ \<Rightarrow> True))"
| "tame n s g (EBinary op l r) \<longleftrightarrow> tame n s g l \<and> tame n s g r \<and>
     (op = ''??'' \<longrightarrow> (case infer n s g l of Inl _ \<Rightarrow> True | Inr t \<Rightarrow> coalesce_ok n (n_defs s) (unwrap_single_variant t)))"
| "tame n s g (EUnary op e) \<longleftrightarrow> tame n s g e"
| "tame n s g (ECond c a b) \<longleftrightarrow> tame n s g c \<and>
     (case narrowing c of None \<Rightarrow> tame n s g a \<and> tame n s g b
      | Some (holds, subj, lit) \<Rightarrow>
          tame n s (narrowed holds (node_path subj) lit (infer n s g lit) (infer n s g subj) g) a \<and>
          tame n s (narrowed (\<not> holds) (node_path subj) lit (infer n s g lit) (infer n s g subj) g) b)"
| "tame n s g e \<longleftrightarrow> True"

lemma tame_subject: "narrowing c = Some (holds, subj, lit) \<Longrightarrow> tame n s g c \<Longrightarrow> tame n s g subj"
  by (auto simp: narrowing_def split: expr.splits if_splits)

lemma null_base: "is_null_type (Some t) \<Longrightarrow> plain_node t \<Longrightarrow> has_shape df (Some t) v \<Longrightarrow> v = GNil"
  using has_shape_null by blast

lemma member_eval:
  "member_of v (EStr k) = Inr (field_of v k)" "member_of v (EInt i) = Inr (elem_of v i)"
  by (simp_all add: member_of_def field_of_def elem_of_def)

lemma schema_property_shape:
  assumes D: "\<forall>x \<in> D. plain_node x" "closed df D" and pd: "plain_defs df" and t: "reached D t" and df: "n_defs t = df"
    and sh: "shut n df (Some t)" and v: "has_shape df (Some t) v" and p: "schema_property n t k = Inr u"
  shows "typ_ok D df u \<and> has_shape df (Some u) (field_of v k)"
proof -
  from p df obtain q where q: "lookup_property n df k (Some t) = Inr q" "u = wrap_node q df"
    by (auto simp: schema_property_def sub_schema_def and_then_eq_Inr)
  have "has_shape df q (field_of v k)"
    using lookup_property_shape [OF D pd _ sh v, of k] t q(1) by (simp add: describes_def)
  moreover have "reached_opt D q" by (rule lookup_property_reached [OF D(2) _ q(1)]) (simp add: t)
  ultimately show ?thesis using shape_wrap typ_ok_wrap q(2) by blast
qed

lemma schema_index_shape:
  assumes D: "\<forall>x \<in> D. plain_node x" "closed df D" and pd: "plain_defs df" and t: "reached D t" and df: "n_defs t = df"
    and sh: "shut_items n df (Some t)" and v: "has_shape df (Some t) v" and p: "schema_index n t = Inr u"
  shows "typ_ok D df u \<and> has_shape df (Some u) (elem_of v i)"
proof -
  from p df obtain q where q: "infer_index n df (Some t) = Inr q" "u = wrap_node q df"
    by (auto simp: schema_index_def sub_schema_def and_then_eq_Inr)
  have "has_shape df q (elem_of v i)"
    using infer_index_shape [OF D pd _ sh, of v i] t q(1) v by (simp add: describes_def)
  moreover have "reached_opt D q" by (rule infer_index_reached [OF D(2) _ q(1)]) (simp add: t)
  ultimately show ?thesis using shape_wrap typ_ok_wrap q(2) by blast
qed

text \<open>One binary operation.\<close>

lemma eval_mod_int: "eval_mod l r = Inr w \<Longrightarrow> \<exists>i. w = GInt i"
proof (cases l; cases r)
  fix i j
  assume "l = GInt i" "r = GInt j" "eval_mod l r = Inr w"
  then show ?thesis
    by (cases "f64_of_int i"; cases "f64_of_int j") (auto simp: eval_mod_def split: if_splits)
qed (simp_all add: eval_mod_def)

lemma binary_shape:
  assumes D: "\<forall>x \<in> D. plain_node x" "closed df D"
    and op: "binary_infer op = Some f" and c: "f a b = Inr c" and t: "typ_ok D df a" "typ_ok D df b"
    and v: "\<And>l. eval ctx x = Inr l \<Longrightarrow> has_shape df (Some a) l" "\<And>r. eval ctx y = Inr r \<Longrightarrow> has_shape df (Some b) r"
    and ok: "op = ''??'' \<Longrightarrow> coalesce_ok n df a" and e: "eval ctx (EBinary op x y) = Inr w"
  shows "has_shape df (Some c) w"
proof -
  have bool: "has_shape df (Some c) w" if "c = typed [''boolean'']" "\<exists>q. w = GBool q" using that by auto
  have cmp: "\<exists>q. w = GBool q" if "num_cmp h l r = Inr w" for h l r
    using that by (auto simp: num_cmp_def split: option.splits)
  consider "op = ''==''" | "op = ''!=''" | "op \<in> {''<'', ''>'', ''<='', ''>=''}" | "op = ''&&'' \<or> op = ''||''"
    | "op = ''+''" | "op = ''-'' \<or> op = ''*''" | "op = ''/''" | "op = ''%''" | "op = ''??''"
    using op by (auto simp: binary_infer_def split: if_splits)
  then show ?thesis
  proof cases
    case 1
    with op c e show ?thesis by (intro bool) (auto simp: binary_infer_def binary_op_def and_then_eq_Inr)
  next
    case 2
    with op c e show ?thesis by (intro bool) (auto simp: binary_infer_def binary_op_def and_then_eq_Inr)
  next
    case 3
    with op c have "c = typed [''boolean'']"
      by (auto simp: binary_infer_def infer_ordering_cmp_def and_then_eq_Inr split: if_splits)
    with 3 e show ?thesis by (intro bool) (auto simp: binary_op_def and_then_eq_Inr dest: cmp)
  next
    case 4
    with op c have "c = typed [''boolean'']"
      by (auto simp: binary_infer_def infer_logical_def and_then_eq_Inr split: if_splits)
    with 4 e show ?thesis by (intro bool) (auto simp: and_then_eq_Inr split: if_splits)
  next
    case 5
    with e obtain l r where lr: "eval ctx x = Inr l" "eval ctx y = Inr r" "eval_add l r = Inr w"
      by (auto simp: binary_op_def and_then_eq_Inr)
    from 5 op c have "infer_add a b = Inr c" by (auto simp: binary_infer_def)
    from infer_add_shape [OF D t v(1) [OF lr(1)] v(2) [OF lr(2)] this lr(3)] show ?thesis .
  next
    case 6
    with e obtain l r h where lr: "eval ctx x = Inr l" "eval ctx y = Inr r" "num_bin_op h l r = Inr w" "h = f64_sub \<or> h = f64_mul"
      by (auto simp: binary_op_def and_then_eq_Inr)
    from 6 op c have i: "infer_arith a b = Inr c" by (auto simp: binary_infer_def)
    have "wholish (h p q)" if "wholish p" "wholish q" for p q
      using lr(4) that f64_sub_whole f64_mul_whole by auto
    from infer_arith_shape [OF D t v(1) [OF lr(1)] v(2) [OF lr(2)] i lr(3) this] show ?thesis .
  next
    case 7
    with op c have "c = typed [''number'']"
      by (auto simp: binary_infer_def infer_div_def and_then_eq_Inr split: if_splits)
    moreover from 7 e obtain f where "w = GFloat f"
      by (auto simp: binary_op_def eval_div_def and_then_eq_Inr split: option.splits if_splits)
    ultimately show ?thesis by (simp add: float_kind)
  next
    case 8
    with op c have "c = typed [''integer'']"
      by (auto simp: binary_infer_def infer_mod_def and_then_eq_Inr split: if_splits)
    moreover from 8 e obtain i where "w = GInt i"
      by (auto simp: binary_op_def and_then_eq_Inr dest: eval_mod_int)
    ultimately show ?thesis by simp
  next
    case 9
    with e obtain l where l: "eval ctx x = Inr l" "l = GNil \<Longrightarrow> eval ctx y = Inr w" "l \<noteq> GNil \<Longrightarrow> w = l"
      by (auto simp: and_then_eq_Inr split: if_splits)
    from 9 op c have "infer_null_coalesce a b = Inr c" by (auto simp: binary_infer_def)
    from infer_null_coalesce_shape(2) [OF D t v(1) [OF l(1)] v(2) [OF l(2)] l(3) ok [OF 9] this] show ?thesis .
  qed
qed

lemma unary_shape:
  assumes D: "\<forall>x \<in> D. plain_node x" "closed df D"
    and op: "unary_infer op = Some f" and c: "f a = Inr c" and t: "typ_ok D df a"
    and v: "has_shape df (Some a) l" and h: "unary_op op = Some h" and e: "h l = Inr w"
  shows "typ_ok D df c \<and> has_shape df (Some c) w"
proof -
  consider "op = ''!''" | "op = ''-''" | "op = ''+''" using op by (auto simp: unary_infer_def split: if_splits)
  then show ?thesis
  proof cases
    case 1
    with op c have "c = typed [''boolean'']"
      by (auto simp: unary_infer_def infer_not_def split: if_splits option.splits)
    moreover from 1 h e obtain q where "w = GBool q" by (cases l) (auto simp: unary_op_def)
    ultimately show ?thesis by simp
  next
    case 2
    with op c have i: "numeric_passthrough a = Inr c" by (auto simp: unary_infer_def)
    from 2 h e have "negate_num l = Inr w" by (auto simp: unary_op_def)
    with numeric_passthrough_shape [OF D t v i] t show ?thesis by simp
  next
    case 3
    with op c have i: "numeric_passthrough a = Inr c" by (auto simp: unary_infer_def)
    from 3 h e have "w = l" by (auto simp: unary_op_def require_num_def split: if_splits)
    with numeric_passthrough_shape(1) [OF D t v i] t v show ?thesis by simp
  qed
qed

lemma typ_ok_unary:
  "unary_infer op = Some f \<Longrightarrow> f a = Inr c \<Longrightarrow> typ_ok D df a \<Longrightarrow> typ_ok D df c"
  by (auto simp: unary_infer_def infer_not_def numeric_passthrough_def split: if_splits option.splits)

lemma typ_ok_binary:
  assumes "closed df D" and "binary_infer op = Some f" and "f a b = Inr c" and t: "typ_ok D df a" "typ_ok D df b"
  shows "typ_ok D df c"
proof (cases "op = ''??''")
  case True
  with assms(2,3) have "infer_null_coalesce a b = Inr c" by (auto simp: binary_infer_def)
  then have "c = a \<or> c = b \<or> c = schema_strip_null a \<or> (\<exists>k. c = typed [k]) \<or> c = union_type (schema_strip_null a) b"
    by (auto simp: infer_null_coalesce_def Let_def split: if_splits option.splits)
  with t typ_ok_strip [OF assms(1) t(1)] typ_ok_union [OF typ_ok_strip [OF assms(1) t(1)] t(2)] show ?thesis by auto
next
  case False
  have arith: "infer_arith a b = Inr c \<Longrightarrow> \<exists>k. c = typed [k]"
    by (auto simp: infer_arith_def and_then_eq_Inr split: if_splits)
  moreover have "infer_add a b = Inr c \<Longrightarrow> \<exists>k. c = typed [k]"
    by (auto simp: infer_add_def and_then_eq_Inr split: if_splits dest!: arith)
  moreover have "infer_ordering_cmp a b = Inr c \<Longrightarrow> \<exists>k. c = typed [k]" "infer_logical a b = Inr c \<Longrightarrow> \<exists>k. c = typed [k]"
    "infer_div a b = Inr c \<Longrightarrow> \<exists>k. c = typed [k]" "infer_mod a b = Inr c \<Longrightarrow> \<exists>k. c = typed [k]"
    by (auto simp: infer_ordering_cmp_def infer_logical_def infer_div_def infer_mod_def and_then_eq_Inr split: if_splits)
  moreover have "f = (\<lambda>l r. Inr (typed [''boolean''])) \<or> f = infer_ordering_cmp \<or> f = infer_logical \<or> f = infer_add
      \<or> f = infer_arith \<or> f = infer_div \<or> f = infer_mod"
    using assms(2) False by (auto simp: binary_infer_def split: if_splits)
  ultimately have "\<exists>k. c = typed [k]" using assms(3) by (elim disjE; simp; blast?)
  then show ?thesis by auto
qed

text \<open>The type of a conditional covers both branches.\<close>

lemma try_nullable_shape:
  assumes D: "\<forall>x \<in> D. plain_node x" "closed df D" and t: "typ_ok D df a" "typ_ok D df b" and u: "try_nullable a b = Some c"
  shows "typ_ok D df c" and "has_shape df (Some a) v \<or> has_shape df (Some b) v \<Longrightarrow> has_shape df (Some c) v"
proof -
  have ra: "reached D a" and rb: "reached D b" using t by (simp_all add: typ_ok_def)
  from u have nb: "is_null_type (Some b)" and c: "c = a \<and> has_null_type a \<or> c = schema_with_null a"
    by (auto simp: try_nullable_def split: if_splits list.splits)
  show "typ_ok D df c" using c t(1) typ_ok_null [OF t(1)] by auto
  assume "has_shape df (Some a) v \<or> has_shape df (Some b) v"
  then have v: "has_shape df (Some a) v \<or> v = GNil" using null_base [OF nb reached_plain [OF D(1) rb]] by blast
  from c show "has_shape df (Some c) v"
  proof (elim disjE conjE)
    assume "c = a" "has_null_type a"
    with v has_null_shape [OF D ra] show ?thesis by auto
  next
    assume "c = schema_with_null a"
    with v has_shape_with_null [OF D ra] show ?thesis unfolding schema_with_null_def by (auto intro: shape_wrap)
  qed
qed

lemma branch_types_shape:
  assumes D: "\<forall>x \<in> D. plain_node x" "closed df D" and t: "typ_ok D df a" "typ_ok D df b"
    and c: "branch_types (Inr a) (Inr b) = Inr c"
  shows "typ_ok D df c" and "has_shape df (Some a) v \<or> has_shape df (Some b) v \<Longrightarrow> has_shape df (Some c) v"
proof -
  have ra: "reached D a" and rb: "reached D b" using t by (simp_all add: typ_ok_def)
  from c consider "schemas_equal a b" "c = a" | "try_nullable a b = Some c" | "try_nullable b a = Some c" | "c = union_type a b"
    by (auto simp: branch_types_def nullable_schema_def split: if_splits option.splits)
  note cases = this
  show "typ_ok D df c"
    using try_nullable_shape(1) [OF D] t typ_ok_union by (cases rule: cases) blast+
  show "has_shape df (Some c) v" if v: "has_shape df (Some a) v \<or> has_shape df (Some b) v"
  proof (cases rule: cases)
    case 1
    with v schemas_equal_shape [OF D ra rb 1(1), of v] show ?thesis by simp
  next
    case 2
    with v try_nullable_shape(2) [OF D t] show ?thesis by blast
  next
    case 3
    with v try_nullable_shape(2) [OF D t(2,1)] show ?thesis by blast
  next
    case 4
    with v show ?thesis by (simp add: shape_union)
  qed
qed

text \<open>Every inferred type is built from the document.\<close>

definition guards_typ :: "node set \<Rightarrow> node_defs \<Rightarrow> guards \<Rightarrow> bool" where
  "guards_typ D df g \<longleftrightarrow> (\<forall>path t. map_of g path = Some t \<longrightarrow> typ_ok D df t)"

lemma guards_ok_typ: "guards_ok D df ctx g \<Longrightarrow> guards_typ D df g"
  by (auto simp: guards_ok_def guards_typ_def)

lemma guards_typ_narrowed:
  assumes "closed df D" and "guards_typ D df g"
    and "\<And>t. lt = Inr t \<Longrightarrow> typ_ok D df t" and "\<And>t. st = Inr t \<Longrightarrow> typ_ok D df t"
  shows "guards_typ D df (narrowed q path lit lt st g)"
  using assms typ_ok_strip [OF assms(1)]
  by (auto simp: narrowed_def equal_guard_def differ_guard_def guards_typ_def split: sum.split)

lemma sub_schema_typ:
  "closed df D \<Longrightarrow> reached D t \<Longrightarrow> n_defs t = df \<Longrightarrow> schema_property n t k = Inr u \<Longrightarrow> typ_ok D df u"
  "closed df D \<Longrightarrow> reached D t \<Longrightarrow> n_defs t = df \<Longrightarrow> schema_index n t = Inr u \<Longrightarrow> typ_ok D df u"
  using lookup_property_reached [of df D "Some t" n k] infer_index_reached [of df D "Some t" n]
  by (auto simp: schema_property_def schema_index_def sub_schema_def and_then_eq_Inr intro: typ_ok_wrap)

lemma with_defs_ok: "typ_ok D df t \<Longrightarrow> reached D (with_defs df t) \<and> n_defs (with_defs df t) = df"
  by (auto simp: with_defs_def typ_ok_def reached.with_context)

lemma with_defs_shape: "has_shape df (Some (with_defs d t)) v \<longleftrightarrow> has_shape df (Some t) v"
  by (simp add: with_defs_def)

lemma lookup_result_Inr: "lookup_result r = Inr t \<longleftrightarrow> r = Inr t"
  by (simp add: lookup_result_def split: sum.split)

definition guard_for :: "guards \<Rightarrow> expr \<Rightarrow> node option" where
  "guard_for g e = (if node_path e = [] then None else map_of g (node_path e))"

lemma infer_member:
  "guard_for g (EMember b p) = Some u \<Longrightarrow> infer n s g (EMember b p) = Inr u"
  "guard_for g (EMember b p) = None \<Longrightarrow> infer n s g (EMember b p) =
     and_then (infer n s g b) (\<lambda>base.
       if is_null_type (Some base) then Inr (typed [''null''])
       else case p of
              EStr k \<Rightarrow> lookup_result (schema_property n (with_defs (n_defs s) base) k)
            | EInt i \<Rightarrow> lookup_result (schema_index n (with_defs (n_defs s) base))
            | _ \<Rightarrow> Inl (NotSupported ''computed member access [expr]''))"
  unfolding guard_for_def by (simp_all only: infer.simps option.case)

lemma tame_member:
  "guard_for g (EMember b p) = None \<Longrightarrow> tame n s g (EMember b p) \<longleftrightarrow>
     tame n s g b \<and> (case infer n s g b of Inl _ \<Rightarrow> True
        | Inr base \<Rightarrow> is_null_type (Some base) \<or>
            (case p of EStr k \<Rightarrow> shut n (n_defs s) (Some (with_defs (n_defs s) base))
             | EInt i \<Rightarrow> shut_items n (n_defs s) (Some (with_defs (n_defs s) base)) | _ \<Rightarrow> True))"
  unfolding guard_for_def by (simp only: tame.simps split: if_splits) blast+

lemma infer_typ_ok:
  assumes D: "\<forall>x \<in> D. plain_node x" "closed (n_defs s) D" "reached D s"
  shows "guards_typ D (n_defs s) g \<Longrightarrow> infer n s g e = Inr t \<Longrightarrow> typ_ok D (n_defs s) t"
proof (induction e arbitrary: g t rule: measure_induct_rule [of size])
  case (less e)
  note IH = less.IH and g = less.prems(1)
  show ?case
  proof (cases e)
    case (EIdent x)
    with less.prems sub_schema_typ(1) [OF D(2,3)] show ?thesis
      by (auto simp: guards_typ_def lookup_result_Inr split: if_splits option.splits)
  next
    case (EMember b p)
    show ?thesis
    proof (cases "guard_for g (EMember b p)")
      case (Some u)
      with less.prems(2) infer_member(1) [OF Some] EMember have "t = u" by simp
      with Some g show ?thesis by (auto simp: guards_typ_def guard_for_def split: if_splits)
    next
      case None
      from less.prems(2) obtain base where b: "infer n s g b = Inr base"
        and r: "t = typed [''null''] \<or> (\<exists>k. schema_property n (with_defs (n_defs s) base) k = Inr t)
          \<or> schema_index n (with_defs (n_defs s) base) = Inr t"
        unfolding EMember infer_member(2) [OF None]
        by (auto simp: and_then_eq_Inr lookup_result_Inr split: if_splits expr.splits)
      from IH [OF _ g b] EMember have "typ_ok D (n_defs s) base" by simp
      from with_defs_ok [OF this] r sub_schema_typ [OF D(2)] show ?thesis by auto
    qed
  next
    case (EBinary op l r)
    with less.prems(2) obtain f a b where f: "binary_infer op = Some f" and a: "infer n s g l = Inr a" and b: "infer n s g r = Inr b"
      and t: "f (unwrap_single_variant a) (unwrap_single_variant b) = Inr t"
      by (auto simp: and_then_eq_Inr split: option.splits)
    from IH [OF _ g a] IH [OF _ g b] EBinary have "typ_ok D (n_defs s) a" "typ_ok D (n_defs s) b" by simp_all
    from typ_ok_binary [OF D(2) f t] unwrap_shape(1) [OF D(1,2)] this show ?thesis by blast
  next
    case (EUnary op x)
    with less.prems(2) obtain f a where f: "unary_infer op = Some f" and a: "infer n s g x = Inr a"
      and t: "f (unwrap_single_variant a) = Inr t"
      by (auto simp: and_then_eq_Inr split: option.splits)
    from IH [OF _ g a] EUnary have "typ_ok D (n_defs s) a" by simp
    from typ_ok_unary [OF f t] unwrap_shape(1) [OF D(1,2) this] show ?thesis by blast
  next
    case (ECond c x y)
    obtain gx gy a b where a: "infer n s gx x = Inr a" and b: "infer n s gy y = Inr b" and t: "branch_types (Inr a) (Inr b) = Inr t"
      and gg: "guards_typ D (n_defs s) gx" "guards_typ D (n_defs s) gy"
    proof (cases "narrowing c")
      case None
      with less.prems(2) ECond g that show ?thesis by (auto simp: branch_types_def and_then_eq_Inr)
    next
      case (Some hsl)
      obtain holds subj lit where hsl: "hsl = (holds, subj, lit)" by (cases hsl)
      have sz: "size subj < size e" "size lit < size e"
        using narrowing_smaller(3,4) [of c holds subj lit] Some hsl ECond by simp_all
      have "guards_typ D (n_defs s) (narrowed q (node_path subj) lit (infer n s g lit) (infer n s g subj) g)" for q
        using guards_typ_narrowed [OF D(2) g] IH [OF sz(1) g] IH [OF sz(2) g] by blast
      with less.prems(2) ECond Some hsl that show ?thesis by (auto simp: branch_types_def and_then_eq_Inr)
    qed
    from IH [OF _ gg(1) a] IH [OF _ gg(2) b] ECond have "typ_ok D (n_defs s) a" "typ_ok D (n_defs s) b" by simp_all
    from branch_types_shape(1) [OF D(1,2) this t] show ?thesis .
  qed (use less.prems in auto)
qed

lemma infer_shape:
  assumes doc: "\<forall>x \<in> D. plain_node x" "closed (n_defs s) D" "reached D s" and pd: "plain_defs (n_defs s)"
    and ctx_ok: "shut n (n_defs s) (Some s)" "has_shape (n_defs s) (Some s) (GObj ctx)"
  shows "plain_names e \<Longrightarrow> tame n s g e \<Longrightarrow> guards_ok D (n_defs s) ctx g \<Longrightarrow> infer n s g e = Inr t \<Longrightarrow>
    eval ctx e = Inr v \<Longrightarrow> has_shape (n_defs s) (Some t) v"
proof (induction e arbitrary: g t v rule: measure_induct_rule [of size])
  case (less e)
  note IH = less.IH and g = less.prems(3)
  note D = doc(1,2)
  note itype = infer_typ_ok [OF doc guards_ok_typ [OF g]]
  show ?case
  proof (cases e)
    case (EIdent x)
    show ?thesis
    proof (cases "x = ''null''")
      case False
      with less.prems(5) EIdent obtain u where u: "map_of ctx x = Some u" "v = u" by (auto split: option.splits)
      show ?thesis
      proof (cases "map_of g x")
        case None
        with less.prems(4) EIdent False have "schema_property n s x = Inr t" by (simp add: lookup_result_Inr)
        from schema_property_shape [OF D pd doc(3) refl ctx_ok this] u show ?thesis by simp
      next
        case (Some q)
        with less.prems(4) EIdent False have "q = t" by simp
        with g Some less.prems(1,5) EIdent show ?thesis unfolding guards_ok_def by (metis node_path.simps(1))
      qed
    qed (use less.prems(4,5) EIdent in auto)
  next
    case (EMember b p)
    show ?thesis
    proof (cases "guard_for g (EMember b p)")
      case (Some u)
      with less.prems(4) infer_member(1) [OF Some] EMember have "t = u" by simp
      with Some g less.prems(1,5) EMember show ?thesis
        unfolding guards_ok_def guard_for_def by (metis option.distinct(1))
    next
      case None
      from less.prems(4) obtain base where b: "infer n s g b = Inr base"
        and t: "(if is_null_type (Some base) then Inr (typed [''null''])
           else case p of
              EStr k \<Rightarrow> lookup_result (schema_property n (with_defs (n_defs s) base) k)
            | EInt i \<Rightarrow> lookup_result (schema_index n (with_defs (n_defs s) base))
            | _ \<Rightarrow> Inl (NotSupported ''computed member access [expr]'')) = Inr t"
        unfolding EMember infer_member(2) [OF None] by (auto simp: and_then_eq_Inr)
      from less.prems(5) EMember obtain u where u: "eval ctx b = Inr u" and v: "member_of u p = Inr v"
        by (auto simp: and_then_eq_Inr)
      from less.prems(2) b have tb: "tame n s g b"
        and ok: "is_null_type (Some base) \<or>
            (case p of EStr k \<Rightarrow> shut n (n_defs s) (Some (with_defs (n_defs s) base))
             | EInt i \<Rightarrow> shut_items n (n_defs s) (Some (with_defs (n_defs s) base)) | _ \<Rightarrow> True)"
        unfolding EMember tame_member [OF None] by simp_all
      have ub: "has_shape (n_defs s) (Some base) u" using IH [OF _ _ tb g b u] less.prems(1) EMember by simp
      from itype [OF b] have base: "typ_ok D (n_defs s) base" .
      note wd = with_defs_ok [OF base]
      have sh: "has_shape (n_defs s) (Some (with_defs (n_defs s) base)) u" using ub by (simp add: with_defs_shape)
      show ?thesis
      proof (cases "is_null_type (Some base)")
        case True
        with null_base [OF True _ ub] reached_plain [OF doc(1)] base have "u = GNil" by (simp add: typ_ok_def)
        with v have "v = GNil" by (cases p) (simp_all add: member_of_def)
        with t True show ?thesis by auto
      next
        case False
        then show ?thesis
        proof (cases p)
          case (EStr k)
          with t False ok v show ?thesis
            using schema_property_shape [OF D pd wd [THEN conjunct1] wd [THEN conjunct2] _ sh, of n k t]
            by (simp add: lookup_result_Inr member_eval)
        next
          case (EInt i)
          with t False ok v show ?thesis
            using schema_index_shape [OF D pd wd [THEN conjunct1] wd [THEN conjunct2] _ sh, of n t i]
            by (simp add: lookup_result_Inr member_eval)
        qed (use t in simp_all)
      qed
    qed
  next
    case (EBinary op l r)
    with less.prems(4) obtain f a b where f: "binary_infer op = Some f" and a: "infer n s g l = Inr a" and b: "infer n s g r = Inr b"
      and t: "f (unwrap_single_variant a) (unwrap_single_variant b) = Inr t"
      by (auto simp: and_then_eq_Inr split: option.splits)
    have u: "typ_ok D (n_defs s) (unwrap_single_variant a)" "typ_ok D (n_defs s) (unwrap_single_variant b)"
      "\<And>w. eval ctx l = Inr w \<Longrightarrow> has_shape (n_defs s) (Some (unwrap_single_variant a)) w"
      "\<And>w. eval ctx r = Inr w \<Longrightarrow> has_shape (n_defs s) (Some (unwrap_single_variant b)) w"
      using unwrap_shape [OF D itype [OF a]] unwrap_shape [OF D itype [OF b]] IH [OF _ _ _ g a] IH [OF _ _ _ g b] less.prems(1,2) EBinary
      by simp_all
    show ?thesis
      by (rule binary_shape [OF D f t u]) (use less.prems(2,5) EBinary a in auto)
  next
    case (EUnary op x)
    with less.prems(4) obtain f a where f: "unary_infer op = Some f" and a: "infer n s g x = Inr a"
      and t: "f (unwrap_single_variant a) = Inr t"
      by (auto simp: and_then_eq_Inr split: option.splits)
    from less.prems(5) EUnary obtain h l where h: "unary_op op = Some h" and l: "eval ctx x = Inr l" and v: "h l = Inr v"
      by (auto simp: and_then_eq_Inr split: option.splits)
    have "has_shape (n_defs s) (Some (unwrap_single_variant a)) l"
      using unwrap_shape(2) [OF D itype [OF a]] IH [OF _ _ _ g a l] less.prems(1,2) EUnary by simp
    from unary_shape [OF D f t unwrap_shape(1) [OF D itype [OF a]] this h v] show ?thesis by blast
  next
    case (ECond c x y)
    from less.prems(5) ECond obtain cv where cv: "eval ctx c = Inr cv"
      and v: "if must_bool cv then eval ctx x = Inr v else eval ctx y = Inr v" by (auto simp: and_then_eq_Inr split: if_splits)
    have names: "plain_names c" "plain_names x" "plain_names y" using less.prems(1) ECond by simp_all
    obtain gx gy a b where a: "infer n s gx x = Inr a" and b: "infer n s gy y = Inr b" and t: "branch_types (Inr a) (Inr b) = Inr t"
      and gg: "must_bool cv \<Longrightarrow> guards_ok D (n_defs s) ctx gx" "\<not> must_bool cv \<Longrightarrow> guards_ok D (n_defs s) ctx gy"
      and gt: "guards_typ D (n_defs s) gx" "guards_typ D (n_defs s) gy"
      and tm: "tame n s gx x" "tame n s gy y"
    proof (cases "narrowing c")
      case None
      with less.prems(2,4) ECond g guards_ok_typ [OF g] that show ?thesis by (auto simp: branch_types_def and_then_eq_Inr)
    next
      case (Some hsl)
      obtain holds subj lit where hsl: "hsl = (holds, subj, lit)" by (cases hsl)
      note nc = Some [unfolded hsl]
      from narrowing_condition [OF nc cv] obtain u w q where uw: "eval ctx subj = Inr u" "eval ctx lit = Inr w"
        "equal_values u w = Inr q" "must_bool cv \<longleftrightarrow> q = holds" by metis
      note parts = narrowing_parts [OF nc]
      have sz: "size subj < size e" using parts(3) ECond by simp
      have ts: "tame n s g subj" using tame_subject [OF nc] less.prems(2) ECond by simp
      have st: "typ_ok D (n_defs s) t \<and> has_shape (n_defs s) (Some t) u" if "infer n s g subj = Inr t" for t
        using itype [OF that] IH [OF sz parts(4) [OF names(1)] ts g that uw(1)] by blast
      let ?G = "\<lambda>q. narrowed q (node_path subj) lit (infer n s g lit) (infer n s g subj) g"
      have ok: "guards_ok D (n_defs s) ctx (?G q)"
        by (rule narrowed_ok [OF D g parts(4) [OF names(1)] parts(2) uw(1) parts(1) uw(2,3) st])
      have gt: "guards_typ D (n_defs s) (?G q)" for q
        by (rule guards_typ_narrowed [OF D(2) guards_ok_typ [OF g] itype itype])
      have "must_bool cv \<Longrightarrow> guards_ok D (n_defs s) ctx (?G holds)" "\<not> must_bool cv \<Longrightarrow> guards_ok D (n_defs s) ctx (?G (\<not> holds))"
        using ok uw(4) by (cases q; cases holds; simp)+
      with less.prems(2,4) ECond nc gt that show ?thesis by (auto simp: branch_types_def and_then_eq_Inr)
    qed
    have "typ_ok D (n_defs s) a" "typ_ok D (n_defs s) b"
      using infer_typ_ok [OF doc gt(1) a] infer_typ_ok [OF doc gt(2) b] by simp_all
    moreover have "has_shape (n_defs s) (Some a) v \<or> has_shape (n_defs s) (Some b) v"
    proof (cases "must_bool cv")
      case True
      with IH [OF _ names(2) tm(1) gg(1) a] v ECond show ?thesis by simp
    next
      case False
      with IH [OF _ names(3) tm(2) gg(2) b] v ECond show ?thesis by simp
    qed
    ultimately show ?thesis using branch_types_shape(2) [OF D _ _ t] by blast
  qed (use less.prems in \<open>auto simp: float_kind\<close>)
qed

text \<open>
  C20: Inferred types are right, on documents and expressions that stay clear of what inference does not
  see. The document is plain: properties come with the type object, unions and references have
  nothing beside them, given lists are not empty, no names are repeated and no definition is itself
  a reference; and the data has its shape, which is closed at the root. The names the expression
  uses hold no dot or bracket, so that one path has one spelling. The expression is tame: members
  and elements are read from types whose unions are all typed, and \<open>??\<close> stands behind a left side
  whose type shows null or excludes it (\<open>coalesce_misses_nested_null\<close> below shows that inference is
  wrong without this). Then a value the expression evaluates to has the kind and structure of its
  inferred type, through every operator, member and index access, and the narrowing of a path by a
  condition on it.
\<close>

theorem inferred_type_sound:
  assumes "plain_doc s" and "shut n (n_defs s) (Some s)" and "has_shape (n_defs s) (Some s) (GObj ctx)"
    and "plain_names e" and "tame n s [] e" and "infer_type n s e = Inr t" and "eval ctx e = Inr v"
  shows "has_shape (n_defs s) (Some t) v"
proof (rule infer_shape)
  show "\<forall>x \<in> set (subnodes s). plain_node x" "plain_defs (n_defs s)"
    using assms(1) by (auto simp: plain_doc_def list_all_iff)
  show "reached (set (subnodes s)) s" by (rule reached.doc) (rule subnodes_self)
  show "guards_ok (set (subnodes s)) (n_defs s) ctx []" by (simp add: guards_ok_def)
qed (use assms closed_subnodes in \<open>simp_all add: infer_type_def\<close>)

text \<open>A validated value has the shape of its schema.\<close>

lemma validated_has_shape:
  assumes "\<forall>x \<in> set (subnodes s). defaults_fit (n_defs s) x" and "validate s v = Inr w"
  shows "has_shape (n_defs s) (Some s) w"
  using fits_has_shape [OF conform_fits [OF refl assms(1), of "Some s"]] assms(2)
  by (simp add: validate_def in_doc_def subnodes_self)

text \<open>An order that may be missing, and what is charged for it.\<close>

definition order_context :: node where
  "order_context = object_with [(''input'', Some (object_with
       [(''order'', Some (ref_to ''order'')), (''fee'', Some (typed [''integer'']))] [''fee''] None))] [''input'']
     (Some [(''order'', Some (object_with [(''total'', Some (typed [''number'']))] [''total''] None))])"

definition order_value :: ctx_data where
  "order_value = [(''input'', GObj [(''order'', GObj [(''total'', GFloat (Fin (5 / 2)))]), (''fee'', GInt 3)])]"

definition charge :: expr where
  "charge = (let order = EMember (EIdent ''input'') (EStr ''order'') in
     ECond (EBinary ''!='' order (EIdent ''null''))
       (EBinary ''*'' (EMember order (EStr ''total'')) (EInt 2))
       (EMember (EIdent ''input'') (EStr ''fee'')))"

theorem inferred_type_sound_witness:
  "has_shape (n_defs order_context) (Some (one_of_node [Some (typed [''number'']), Some (set_defs (n_defs order_context) (typed [''integer'']))]))
     (GFloat (Fin 5))"
proof (rule inferred_type_sound [where e = charge and n = 9 and ctx = order_value])
  show "plain_doc order_context" by code_simp
  show "shut 9 (n_defs order_context) (Some order_context)" "plain_names charge" "tame 9 order_context [] charge"
    "infer_type 9 order_context charge = Inr (one_of_node [Some (typed [''number'']), Some (set_defs (n_defs order_context) (typed [''integer'']))])"
    "eval order_value charge = Inr (GFloat (Fin 5))"
    by code_simp+
  show "has_shape (n_defs order_context) (Some order_context) (GObj order_value)"
  proof (rule validated_has_shape)
    have "list_all (\<lambda>x. list_all (\<lambda>(k, p). prop_default p (n_defs order_context) = GNil) (entries_of (n_properties x)))
          (subnodes order_context)" by code_simp
    then show "\<forall>x \<in> set (subnodes order_context). defaults_fit (n_defs order_context) x"
      by (force simp: list_all_iff defaults_fit_def)
    show "validate order_context (GObj order_value) = Inr (GObj order_value)" by code_simp
  qed
qed

text \<open>
  Not every inferred type is right: a null two unions deep is missed before \<open>??\<close>, and the result has
  the type of the left side alone. (The value 7 is not accepted by the type inferred for it.)
\<close>

lemma coalesce_misses_nested_null:
  "let s = object_with [(''flag'', Some (typed [''boolean''])), (''order'', Some (object_with [(''total'', Some (typed [''number'']))] [''total''] None))]
             [''flag'', ''order''] None;
       e = EBinary ''??'' (ECond (EIdent ''flag'') (ECond (EIdent ''flag'') (EIdent ''null'') (EIdent ''order'')) (EStr ''x'')) (EInt 7);
       ctx = [(''flag'', GBool True), (''order'', GObj [(''total'', GFloat (Fin 1))])]
   in eval ctx e = Inr (GInt 7)
    \<and> (case infer_type 9 s e of Inr t \<Rightarrow> is_err (validate t (GInt 7)) | Inl _ \<Rightarrow> False)"
  by code_simp

text \<open>
  An accepted remainder of two integers from a document fails when evaluated: numbers decoded from
  JSON are floats, which \<open>%\<close> does not take.
\<close>

lemma remainder_of_decoded_integers_fails:
  "let s = object_with [(''n'', Some (typed [''integer'']))] [''n''] None;
       e = EBinary ''%'' (EIdent ''n'') (EInt 2)
   in infer_type 9 s e = Inr (typed [''integer'']) \<and> eval [(''n'', GFloat (Fin 5))] e = Inl NotInteger"
  by code_simp

end
