(* ===== verification/Subset.thy ===== *)
theory Subset
  imports SchemaValidate
begin

section \<open>Comparing schemas (\<open>internal/schema/subset.go\<close>)\<close>

text \<open>
  \<open>isSubset\<close> walks two documents side by side. \<open>visiting\<close> holds the keys of the comparisons that
  are open, \<open>subRef||superRef\<close>; a comparison whose key is open counts as answered, with \<open>True\<close>. The
  answer is the parameter \<open>hit\<close> here, so that what is found without relying on an open comparison
  can be told (\<open>hit = False\<close>). \<open>None\<close> is a walk deeper than the fuel, which does not happen
  (\<open>is_subset_returns\<close>).
\<close>

fun every :: "('a \<Rightarrow> bool option) \<Rightarrow> 'a list \<Rightarrow> bool option" where
  "every f [] = Some True"
| "every f (x # xs) = (case f x of Some True \<Rightarrow> every f xs | r \<Rightarrow> r)"

fun some_one :: "('a \<Rightarrow> bool option) \<Rightarrow> 'a list \<Rightarrow> bool option" where
  "some_one f [] = Some False"
| "some_one f (x # xs) = (case f x of Some False \<Rightarrow> some_one f xs | r \<Rightarrow> r)"

definition node_ref :: "node option \<Rightarrow> string" where
  "node_ref p = (case p of None \<Rightarrow> [] | Some s \<Rightarrow> n_ref s)"

definition is_empty_opt :: "node option \<Rightarrow> bool" where
  "is_empty_opt p = (case p of None \<Rightarrow> True | Some s \<Rightarrow> is_empty_schema s)"

text \<open>\<open>derefSubset\<close>: an unresolvable reference stays as it is.\<close>

definition deref_subset :: "node option \<Rightarrow> node_defs \<Rightarrow> node option" where
  "deref_subset p defs =
     (case p of None \<Rightarrow> None
      | Some s \<Rightarrow> (case deref s defs of Inl _ \<Rightarrow> Some s | Inr t \<Rightarrow> Some t))"

definition type_allowed :: "string \<Rightarrow> string list \<Rightarrow> bool" where
  "type_allowed t super \<longleftrightarrow> list_ex (\<lambda>st. st = t \<or> t = ''integer'' \<and> st = ''number'') super"

definition within_bounds :: "node \<Rightarrow> node \<Rightarrow> bool" where
  "within_bounds sub super \<longleftrightarrow>
     (case n_minimum super of None \<Rightarrow> True
      | Some m \<Rightarrow> (case n_minimum sub of None \<Rightarrow> False | Some l \<Rightarrow> \<not> f64_less l m))
   \<and> (case n_maximum super of None \<Rightarrow> True
      | Some m \<Rightarrow> (case n_maximum sub of None \<Rightarrow> False | Some u \<Rightarrow> \<not> f64_less m u))"

definition within_lengths :: "node \<Rightarrow> node \<Rightarrow> bool" where
  "within_lengths sub super \<longleftrightarrow>
     (case n_min_length super of None \<Rightarrow> True
      | Some m \<Rightarrow> (case n_min_length sub of None \<Rightarrow> False | Some l \<Rightarrow> m \<le> l))
   \<and> (case n_max_length super of None \<Rightarrow> True
      | Some m \<Rightarrow> (case n_max_length sub of None \<Rightarrow> False | Some u \<Rightarrow> u \<le> m))"

definition json_key :: "gval \<Rightarrow> string" where
  "json_key v = (case marshal v of None \<Rightarrow> [] | Some t \<Rightarrow> t)"

definition within_enum :: "node \<Rightarrow> node \<Rightarrow> bool" where
  "within_enum sub super \<longleftrightarrow>
     (case n_enum super of None \<Rightarrow> True
      | Some vs \<Rightarrow> (case n_enum sub of None \<Rightarrow> False
                   | Some us \<Rightarrow> list_all (\<lambda>u. list_ex (\<lambda>v. json_key v = json_key u) vs) us))"

type_synonym comparer = "node option \<Rightarrow> node option \<Rightarrow> bool option"

definition required_names :: "node \<Rightarrow> string list" where
  "required_names s = (case n_required s of None \<Rightarrow> [] | Some rs \<Rightarrow> rs)"

definition subset_object :: "comparer \<Rightarrow> node \<Rightarrow> node \<Rightarrow> bool option" where
  "subset_object rec sub super =
     (if \<not> list_all (\<lambda>f. f \<in> set (required_names sub)) (required_names super) then Some False
      else every (\<lambda>(name, sp). case sp of None \<Rightarrow> Some True
                     | Some _ \<Rightarrow> (case map_of (entries_of (n_properties sub)) name of
                                  None \<Rightarrow> Some True | Some p \<Rightarrow> rec p sp))
             (entries_of (n_properties super)))"

definition subset_array :: "comparer \<Rightarrow> node \<Rightarrow> node \<Rightarrow> bool option" where
  "subset_array rec sub super =
     (if n_items super = None then Some True
      else if n_items sub = None then Some False
      else rec (n_items sub) (n_items super))"

definition types_allowed :: "node \<Rightarrow> node \<Rightarrow> bool" where
  "types_allowed sub super \<longleftrightarrow>
     n_type super \<noteq> [] \<longrightarrow> n_type sub \<noteq> [] \<and> list_all (\<lambda>t. type_allowed t (n_type super)) (n_type sub)"

definition subset_plain :: "comparer \<Rightarrow> node \<Rightarrow> node \<Rightarrow> bool option" where
  "subset_plain rec sub super =
     (if \<not> types_allowed sub super then Some False
      else case (if n_properties super \<noteq> None \<or> n_required super \<noteq> None then subset_object rec sub super else Some True) of
             Some True \<Rightarrow>
               (case subset_array rec sub super of
                  Some True \<Rightarrow> Some (within_bounds sub super \<and> within_lengths sub super \<and> within_enum sub super)
                | r \<Rightarrow> r)
           | r \<Rightarrow> r)"

definition if_given :: "('a option \<Rightarrow> bool option) \<Rightarrow> 'a option \<Rightarrow> bool option" where
  "if_given f v = (if v = None then Some False else f v)"

definition subset_nodes :: "comparer \<Rightarrow> node \<Rightarrow> node \<Rightarrow> bool option" where
  "subset_nodes rec sub super =
     (if n_any_of sub \<noteq> None then every (if_given (\<lambda>v. rec v (Some super))) (variants_of (n_any_of sub))
      else if n_one_of sub \<noteq> None then every (if_given (\<lambda>v. rec v (Some super))) (variants_of (n_one_of sub))
      else if variants_of (n_all_of sub) \<noteq> [] then some_one (if_given (\<lambda>v. rec v (Some super))) (variants_of (n_all_of sub))
      else if n_any_of super \<noteq> None then some_one (if_given (rec (Some sub))) (variants_of (n_any_of super))
      else if n_one_of super \<noteq> None then some_one (if_given (rec (Some sub))) (variants_of (n_one_of super))
      else if variants_of (n_all_of super) \<noteq> [] then every (if_given (rec (Some sub))) (variants_of (n_all_of super))
      else subset_plain rec sub super)"

definition subset_resolved :: "comparer \<Rightarrow> node option \<Rightarrow> node option \<Rightarrow> bool option" where
  "subset_resolved rec sub super =
     (if is_empty_opt super then Some True
      else if is_empty_opt sub then Some False
      else subset_nodes rec (the sub) (the super))"

definition comparison_key :: "node option \<Rightarrow> node option \<Rightarrow> string" where
  "comparison_key sub super = node_ref sub @ ''||'' @ node_ref super"

fun subset_check :: "bool \<Rightarrow> node_defs \<Rightarrow> node_defs \<Rightarrow> nat \<Rightarrow> string list \<Rightarrow> comparer" where
  "subset_check hit ds dp 0 visiting sub super = None"
| "subset_check hit ds dp (Suc n) visiting sub super =
     (let keyed = (node_ref sub \<noteq> [] \<or> node_ref super \<noteq> []); key = comparison_key sub super
      in if keyed \<and> key \<in> set visiting then Some hit
         else subset_resolved (subset_check hit ds dp n (if keyed then key # visiting else visiting))
                (deref_subset sub ds) (deref_subset super dp))"

declare subset_check.simps [simp del]

text \<open>All nodes of a document, those under \<open>allOf\<close> included, and the fuel: one descent per key.\<close>

definition all_children :: "node \<Rightarrow> node list" where
  "all_children s = children s @ keep_some (variants_of (n_all_of s))"

lemma size_all_children [termination_simp]: "q \<in> set (all_children s) \<Longrightarrow> size q < size s"
  by (auto simp: all_children_def set_keep_some size_children size_variants)

fun parts :: "node \<Rightarrow> node list" where
  "parts s = s # concat (map parts (all_children s))"

declare parts.simps [simp del]

definition weight :: "node option \<Rightarrow> nat" where
  "weight p = (case p of None \<Rightarrow> 0 | Some s \<Rightarrow> length (parts s))"

definition doc_defs :: "node option \<Rightarrow> node_defs" where
  "doc_defs p = (case p of None \<Rightarrow> None | Some s \<Rightarrow> n_defs s)"

definition refs_in :: "node option \<Rightarrow> string list" where
  "refs_in p = (case p of None \<Rightarrow> [[]] | Some s \<Rightarrow> remdups ([] # map n_ref (parts s)))"

definition subset_fuel :: "node option \<Rightarrow> node option \<Rightarrow> nat" where
  "subset_fuel sub super =
     Suc (length (refs_in sub) * length (refs_in super)) * Suc (weight sub + weight super)"

definition is_subset :: "node option \<Rightarrow> node option \<Rightarrow> bool" where
  "is_subset sub super =
     (subset_check True (doc_defs sub) (doc_defs super) (subset_fuel sub super) [] sub super = Some True)"

end
