(* ===== verification/SubsetProps.thy ===== *)
theory SubsetProps
  imports Subset
begin

section \<open>The comparison of schemas returns, and what it means\<close>

subsection \<open>Termination\<close>










text \<open>Nodes of one document; the walk stays inside.\<close>

definition inside :: "node option \<Rightarrow> node option \<Rightarrow> bool" where
  "inside doc p = (case p of None \<Rightarrow> True | Some x \<Rightarrow> (case doc of None \<Rightarrow> False | Some s \<Rightarrow> x \<in> set (parts s)))"

lemma inside_None [simp]: "inside doc None"
  by (simp add: inside_def)











subsection \<open>What a successful comparison means\<close>
























subsection \<open>The receiving side\<close>









subsection \<open>Open comparisons\<close>












subsection \<open>Where a successful comparison means less\<close>

text \<open>
  The key of an open comparison names references only, so comparing a recursive type with a nested one
  stops at the second level: the type of \<open>val\<close> is never looked at.
\<close>

definition cell_ref :: node where
  "cell_ref = Node [] None None None None None None None None None None None None None ''#/$defs/cell'' None [] [] GNil False"

definition recursive_type :: node where
  "recursive_type = set_defs (Some [(''cell'', Some (set_properties (Some [(''next'', Some cell_ref), (''val'', Some (typed [''integer'']))])
     (typed [''object''])))]) cell_ref"

definition nested_type :: node where
  "nested_type = set_properties (Some [(''next'', Some (set_properties (Some [(''val'', Some (typed [''string'']))]) (typed [''object''])))])
     (typed [''object''])"

lemma repeated_key_accepts:
  "is_subset (Some recursive_type) (Some nested_type)"
  "validate recursive_type (GObj [(''next'', GObj [(''val'', GInt 1)])]) = Inr (GObj [(''next'', GObj [(''val'', GInt 1)])])"
  "validate nested_type (GObj [(''next'', GObj [(''val'', GInt 1)])]) = Inl WrongType"
  by code_simp+

text \<open>The number of items is not compared, and a union of which two variants match counts as wider.\<close>

definition numbers_type :: "int option \<Rightarrow> node" where
  "numbers_type lo = Node [''array''] None None (Some (typed [''number''])) None None None None None None None None lo None [] None [] [] GNil False"

lemma subset_ignores_item_bounds:
  "is_subset (Some (numbers_type None)) (Some (numbers_type (Some 1)))"
  "validate (numbers_type None) (GArr []) = Inr (GArr [])"
  "validate (numbers_type (Some 1)) (GArr []) = Inl TooFewItems"
  by code_simp+

lemma subset_of_overlapping_union:
  "is_subset (Some (typed [''integer''])) (Some (one_of_node [Some (typed [''integer'']), Some (typed [''number''])]))"
  "validate (one_of_node [Some (typed [''integer'']), Some (typed [''number''])]) (GInt 1) = Inl (SeveralVariantsMatch 2)"
  by code_simp+

end
