(* ===== verification/Dataflow.thy ===== *)
theory Dataflow
  imports Definition
begin

section \<open>Which outputs a task can read (\<open>internal/validation/context.go\<close>)\<close>

text \<open>
  The graph of a definition has an edge for every routing of a switch and, marked, for every
  \<open>on_error\<close> target. Four fixpoints over it give, per task, the outputs that are always there,
  those that may be there, and whether \<open>error\<close> is always or possibly set.
\<close>

record pred_edge =
  pe_idx :: "nat option"
  pe_err :: bool

definition task_has_output :: "task \<Rightarrow> bool" where
  "task_has_output s \<longleftrightarrow> present (task_output s)"

subsection \<open>The graph\<close>

text \<open>The position of an id; of a repeated one, the last.\<close>

definition last_index :: "task list \<Rightarrow> string \<Rightarrow> nat option" where
  "last_index tasks x = map_of (rev (zip (map task_id tasks) [0..<length tasks])) x"

definition start_edge :: pred_edge where
  "start_edge = \<lparr>pe_idx = None, pe_err = False\<rparr>"

text \<open>Edges out of task \<open>i\<close> as pairs of target and edge, in the order they are added.\<close>

fun switch_edges :: "task list \<Rightarrow> nat \<Rightarrow> bool \<Rightarrow> switch_case list \<Rightarrow> (nat \<times> pred_edge) list" where
  "switch_edges tasks i added [] = []"
| "switch_edges tasks i added (c # cs) =
     (if prefix_of ''$'' (case_goto c) then
        (case last_index tasks (drop 1 (case_goto c)) of
           None \<Rightarrow> switch_edges tasks i added cs
         | Some j \<Rightarrow> (j, \<lparr>pe_idx = Some i, pe_err = False\<rparr>) # switch_edges tasks i added cs)
      else if case_goto c = goto_next \<and> \<not> added \<and> Suc i < length tasks then
        (Suc i, \<lparr>pe_idx = Some i, pe_err = False\<rparr>) # switch_edges tasks i True cs
      else switch_edges tasks i added cs)"

definition error_edges :: "task list \<Rightarrow> nat \<Rightarrow> error_case list \<Rightarrow> (nat \<times> pred_edge) list" where
  "error_edges tasks i ecs =
     concat (map (\<lambda>ec. if err_goto ec \<noteq> [] \<and> err_goto ec \<noteq> goto_end
        then (case last_index tasks (err_goto ec) of None \<Rightarrow> [] | Some j \<Rightarrow> [(j, \<lparr>pe_idx = Some i, pe_err = True\<rparr>)])
        else []) ecs)"

definition edges_out :: "task list \<Rightarrow> nat \<times> task \<Rightarrow> (nat \<times> pred_edge) list" where
  "edges_out tasks it =
     (case it of (i, s) \<Rightarrow>
       switch_edges tasks i False (task_switch s)
       @ (if task_switch s = [] \<and> Suc i < length tasks then [(Suc i, \<lparr>pe_idx = Some i, pe_err = False\<rparr>)] else [])
       @ error_edges tasks i (task_on_error s))"

text \<open>\<open>buildPreds\<close>, for at least one task.\<close>

definition build_preds :: "task list \<Rightarrow> pred_edge list list" where
  "build_preds tasks =
     (let es = (0, start_edge) # concat (map (edges_out tasks) (enumerate 0 tasks))
      in map (\<lambda>j. map snd (filter (\<lambda>e. fst e = j) es)) [0..<length tasks])"

subsection \<open>Fixpoints\<close>

text \<open>
  A pass replaces row after row in place; passes repeat until one changes nothing. \<open>None\<close> is a pass
  beyond the allowance, which never happens (\<open>iterate_enough\<close>).
\<close>

definition sweep :: "('a list \<Rightarrow> nat \<Rightarrow> 'a) \<Rightarrow> 'a list \<Rightarrow> 'a list" where
  "sweep f rows = foldl (\<lambda>s i. s[i := f s i]) rows [0..<length rows]"

fun iterate :: "nat \<Rightarrow> ('a list \<Rightarrow> nat \<Rightarrow> 'a) \<Rightarrow> 'a list \<Rightarrow> 'a list option" where
  "iterate k f rows =
     (let rows' = sweep f rows
      in if rows' = rows then Some rows else (case k of 0 \<Rightarrow> None | Suc m \<Rightarrow> iterate m f rows'))"

declare iterate.simps [simp del]

subsection \<open>Reachability\<close>

definition reach_step :: "pred_edge list list \<Rightarrow> bool list \<Rightarrow> nat \<Rightarrow> bool" where
  "reach_step preds rows i \<longleftrightarrow>
     rows ! i \<or> list_ex (\<lambda>p. case pe_idx p of None \<Rightarrow> False | Some k \<Rightarrow> rows ! k) (preds ! i)"

text \<open>\<open>checkReachability\<close>: the first unreachable task, if any.\<close>

definition check_reachability :: "task list \<Rightarrow> string option" where
  "check_reachability tasks =
     (if tasks = [] then None
      else case iterate (length tasks) (reach_step (build_preds tasks)) (True # replicate (length tasks - 1) False) of
             None \<Rightarrow> Some []
           | Some rows \<Rightarrow> map_option (task_id \<circ> fst) (find (\<lambda>(s, r). \<not> r) (zip tasks rows)))"

subsection \<open>Outputs\<close>

text \<open>The row of a predecessor; its error edge clears its own output.\<close>

definition source_row :: "bool list \<Rightarrow> bool list list \<Rightarrow> pred_edge \<Rightarrow> nat \<Rightarrow> bool list" where
  "source_row has_output rows p k = (if pe_err p \<and> has_output ! k then (rows ! k)[k := False] else rows ! k)"

definition must_in :: "bool list \<Rightarrow> pred_edge list list \<Rightarrow> bool list list \<Rightarrow> nat \<Rightarrow> bool list" where
  "must_in has_output preds rows i =
     (let n = length has_output in
      if preds ! i = [] \<or> list_ex (\<lambda>p. pe_idx p = None) (preds ! i) then replicate n False
      else fold (\<lambda>p acc. case pe_idx p of None \<Rightarrow> acc | Some k \<Rightarrow> map2 (\<and>) acc (source_row has_output rows p k))
             (preds ! i) (replicate n True))"

definition may_in :: "bool list \<Rightarrow> pred_edge list list \<Rightarrow> bool list list \<Rightarrow> nat \<Rightarrow> bool list" where
  "may_in has_output preds rows i =
     fold (\<lambda>p acc. case pe_idx p of None \<Rightarrow> acc | Some k \<Rightarrow> map2 (\<or>) acc (source_row has_output rows p k))
       (preds ! i) (replicate (length has_output) False)"

definition with_own :: "bool list \<Rightarrow> nat \<Rightarrow> bool list \<Rightarrow> bool list" where
  "with_own has_output i row = (if has_output ! i then row[i := True] else row)"

definition must_step :: "bool list \<Rightarrow> pred_edge list list \<Rightarrow> bool list list \<Rightarrow> nat \<Rightarrow> bool list" where
  "must_step has_output preds rows i = with_own has_output i (must_in has_output preds rows i)"

definition may_step :: "bool list \<Rightarrow> pred_edge list list \<Rightarrow> bool list list \<Rightarrow> nat \<Rightarrow> bool list" where
  "may_step has_output preds rows i = with_own has_output i (may_in has_output preds rows i)"

subsection \<open>The error value\<close>

definition must_err_step :: "pred_edge list list \<Rightarrow> bool list \<Rightarrow> nat \<Rightarrow> bool" where
  "must_err_step preds rows i =
     (if preds ! i = [] then rows ! i
      else list_all (\<lambda>p. case pe_idx p of None \<Rightarrow> False | Some k \<Rightarrow> pe_err p \<or> rows ! k) (preds ! i))"

definition may_err_step :: "pred_edge list list \<Rightarrow> bool list \<Rightarrow> nat \<Rightarrow> bool" where
  "may_err_step preds rows i =
     list_ex (\<lambda>p. case pe_idx p of None \<Rightarrow> False | Some k \<Rightarrow> pe_err p \<or> rows ! k) (preds ! i)"

subsection \<open>The sets\<close>

record context_sets =
  cs_required :: "string \<Rightarrow> string list"
  cs_optional :: "string \<Rightarrow> string list"
  cs_must_err :: "string \<Rightarrow> bool"
  cs_may_err :: "string \<Rightarrow> bool"

text \<open>Map entries written task by task: lists grow, flags are overwritten.\<close>

definition rows_of :: "task list \<Rightarrow> (nat \<Rightarrow> string list) \<Rightarrow> string \<Rightarrow> string list" where
  "rows_of tasks f x = concat (map (\<lambda>i. if task_id (tasks ! i) = x then f i else []) [0..<length tasks])"

definition flag_of :: "task list \<Rightarrow> bool list \<Rightarrow> string \<Rightarrow> bool" where
  "flag_of tasks flags x = (case last_index tasks x of None \<Rightarrow> False | Some i \<Rightarrow> flags ! i)"

definition ids_where :: "task list \<Rightarrow> (nat \<Rightarrow> bool) \<Rightarrow> string list" where
  "ids_where tasks P = map (\<lambda>j. task_id (tasks ! j)) (filter P [0..<length tasks])"

text \<open>How many passes a fixpoint of rows of \<open>n\<close> bits can need.\<close>

definition passes :: "task list \<Rightarrow> nat" where
  "passes tasks = length tasks * length tasks"

definition outputs_flags :: "task list \<Rightarrow> bool list" where
  "outputs_flags tasks = map task_has_output tasks"

definition must_rows :: "task list \<Rightarrow> bool list list option" where
  "must_rows tasks = (let n = length tasks in
     iterate (passes tasks) (must_step (outputs_flags tasks) (build_preds tasks)) (replicate n (replicate n True)))"

definition may_rows :: "task list \<Rightarrow> bool list list option" where
  "may_rows tasks = (let n = length tasks in
     iterate (passes tasks) (may_step (outputs_flags tasks) (build_preds tasks)) (replicate n (replicate n False)))"

definition must_err_rows :: "task list \<Rightarrow> bool list option" where
  "must_err_rows tasks = iterate (length tasks) (must_err_step (build_preds tasks)) (replicate (length tasks) False)"

definition may_err_rows :: "task list \<Rightarrow> bool list option" where
  "may_err_rows tasks = iterate (length tasks) (may_err_step (build_preds tasks)) (replicate (length tasks) False)"

definition compute_context_sets :: "task list \<Rightarrow> context_sets option" where
  "compute_context_sets tasks =
     (if tasks = [] then Some \<lparr>cs_required = \<lambda>_. [], cs_optional = \<lambda>_. [], cs_must_err = \<lambda>_. False, cs_may_err = \<lambda>_. False\<rparr>
      else case (must_rows tasks, may_rows tasks, must_err_rows tasks, may_err_rows tasks) of
             (Some must, Some may, Some merr, Some yerr) \<Rightarrow>
               (let must_at = must_in (outputs_flags tasks) (build_preds tasks) must;
                    may_at = may_in (outputs_flags tasks) (build_preds tasks) may
                in Some \<lparr>cs_required = rows_of tasks (\<lambda>i. ids_where tasks (\<lambda>j. must_at i ! j)),
                         cs_optional = rows_of tasks (\<lambda>i. ids_where tasks (\<lambda>j. \<not> must_at i ! j \<and> may_at i ! j)),
                         cs_must_err = flag_of tasks merr, cs_may_err = flag_of tasks yerr\<rparr>)
           | _ \<Rightarrow> None)"

subsection \<open>The end of the process\<close>

record end_set =
  es_must :: "string list"
  es_may :: "string list"
  es_err_min :: bool
  es_err_max :: bool

definition add_terminal :: "context_sets \<Rightarrow> task \<Rightarrow> bool \<Rightarrow> bool \<Rightarrow> bool \<Rightarrow> end_set" where
  "add_terminal cs s own emin emax =
     (let must = cs_required cs (task_id s) @ (if own \<and> task_has_output s then [task_id s] else [])
      in \<lparr>es_must = must, es_may = must @ cs_optional cs (task_id s), es_err_min = emin, es_err_max = emax\<rparr>)"

definition terminals_of :: "context_sets \<Rightarrow> nat \<Rightarrow> nat \<times> task \<Rightarrow> end_set list" where
  "terminals_of cs n it =
     (case it of (i, s) \<Rightarrow>
       (if (task_switch s = [] \<and> Suc i = n) \<or> list_ex (\<lambda>c. case_goto c = goto_end) (task_switch s)
        then [add_terminal cs s True (cs_must_err cs (task_id s)) (cs_may_err cs (task_id s))] else [])
       @ (if list_ex (\<lambda>ec. err_goto ec = goto_end) (task_on_error s)
          then [add_terminal cs s False True True] else []))"

text \<open>The lists stand for sets.\<close>

definition output_context_sets :: "process_definition \<Rightarrow> (string list \<times> string list \<times> bool \<times> bool) option" where
  "output_context_sets d =
     (if def_tasks d = [] then Some ([], [], False, False)
      else map_option (\<lambda>cs.
        (let ts = concat (map (terminals_of cs (length (def_tasks d))) (enumerate 0 (def_tasks d)))
         in case ts of
              [] \<Rightarrow> ([], [], False, False)
            | t # rest \<Rightarrow>
                let must = filter (\<lambda>x. list_all (\<lambda>u. x \<in> set (es_must u)) rest) (es_must t);
                    may = concat (map es_may ts);
                    emin = list_all es_err_min ts; emax = list_ex es_err_max ts
                in (must, filter (\<lambda>x. x \<notin> set must) may, emin, emax \<and> \<not> emin)))
        (compute_context_sets (def_tasks d)))"

end
