(* ===== verification/Fixpoint.thy ===== *)
theory Fixpoint
  imports Dataflow
begin

section \<open>Passes that settle\<close>

text \<open>
  One analysis as an interface: rows of a kind \<open>ok\<close> are compared by \<open>le\<close>, the equation \<open>f\<close> of a row
  respects it, and a row that goes down loses at least one of its \<open>m\<close> points. Started above the
  equation, passes in place only go down, end after at most as many of them as there are points,
  and end at a solution.
\<close>

lemma length_foldl_update [simp]: "length (foldl (\<lambda>s i. s[i := f s i]) rows is') = length rows"
  by (induction is' arbitrary: rows) auto

lemma length_sweep [simp]: "length (sweep f rows) = length rows"
  by (simp add: sweep_def)

lemma foldl_update_other:
  "j \<notin> set is' \<Longrightarrow> foldl (\<lambda>s i. s[i := f s i]) rows is' ! j = rows ! j"
  by (induction is' arbitrary: rows) auto

text \<open>A pass that changes nothing has found a solution.\<close>

lemma sweep_fixed_prefix:
  assumes "sweep f rows = rows" and "m \<le> length rows"
  shows "foldl (\<lambda>s i. s[i := f s i]) rows [0..<m] = rows \<and> (\<forall>i < m. f rows i = rows ! i)"
  using assms(2)
proof (induction m)
  case (Suc m)
  let ?g = "\<lambda>s i. s[i := f s i]"
  from Suc have pre: "foldl ?g rows [0..<m] = rows" and sol: "\<forall>i < m. f rows i = rows ! i" by simp_all
  have "[0..<length rows] = [0..<Suc m] @ [Suc m..<length rows]"
    using Suc.prems upt_add_eq_append [of 0 "Suc m" "length rows - Suc m"] by (metis le_add_diff_inverse zero_le)
  then have "rows = foldl ?g (rows[m := f rows m]) [Suc m..<length rows]"
    using assms(1) by (simp add: sweep_def pre)
  then have "rows ! m = rows[m := f rows m] ! m"
    using foldl_update_other [of m "[Suc m..<length rows]" f "rows[m := f rows m]"] by simp
  then have "f rows m = rows ! m" using Suc.prems by simp
  with pre sol show ?case by (auto simp: less_Suc_eq)
qed simp

lemma sweep_fixed: "sweep f rows = rows \<Longrightarrow> i < length rows \<Longrightarrow> f rows i = rows ! i"
  using sweep_fixed_prefix [of f rows "length rows"] by simp

lemma iterate_fixed: "iterate k f rows = Some s \<Longrightarrow> sweep f s = s \<and> length s = length rows"
proof (induction k arbitrary: rows)
  case 0
  then show ?case by (subst (asm) iterate.simps) (simp add: Let_def split: if_splits)
next
  case (Suc k)
  show ?case
  proof (cases "sweep f rows = rows")
    case True
    with Suc.prems show ?thesis by (subst (asm) iterate.simps) simp
  next
    case False
    with Suc.prems have "iterate k f (sweep f rows) = Some s" by (subst (asm) iterate.simps) (simp add: Let_def)
    from Suc.IH [OF this] show ?thesis by simp
  qed
qed

text \<open>What every update of a row keeps, the passes keep.\<close>

lemma sweep_keeps:
  assumes "\<And>s i. P s \<Longrightarrow> i < length s \<Longrightarrow> P (s[i := f s i])" and "P rows"
  shows "P (sweep f rows)"
proof -
  have "P s \<Longrightarrow> set js \<subseteq> {..<length s} \<Longrightarrow> P (foldl (\<lambda>s i. s[i := f s i]) s js)" for s js
    by (induction js arbitrary: s) (simp_all add: assms(1))
  then show ?thesis unfolding sweep_def using assms(2) by (simp add: lessThan_atLeast0)
qed

lemma iterate_keeps:
  assumes "\<And>s i. P s \<Longrightarrow> i < length s \<Longrightarrow> P (s[i := f s i])"
  shows "P rows \<Longrightarrow> iterate k f rows = Some s \<Longrightarrow> P s"
proof (induction k arbitrary: rows)
  case 0
  then show ?case by (subst (asm) iterate.simps) (simp add: Let_def split: if_splits)
next
  case (Suc k)
  show ?case
  proof (cases "sweep f rows = rows")
    case True
    with Suc.prems show ?thesis by (subst (asm) iterate.simps) simp
  next
    case False
    with Suc.prems(2) have "iterate k f (sweep f rows) = Some s" by (subst (asm) iterate.simps) (simp add: Let_def)
    from Suc.IH [OF sweep_keeps [where P = P, OF assms Suc.prems(1)] this] show ?thesis .
  qed
qed

locale settling =
  fixes n :: nat and ok :: "'a \<Rightarrow> bool" and le :: "'a \<Rightarrow> 'a \<Rightarrow> bool" and m :: "'a \<Rightarrow> nat" and f :: "'a list \<Rightarrow> nat \<Rightarrow> 'a"
  assumes refl: "le a a"
      and trans: "le a b \<Longrightarrow> le b c \<Longrightarrow> le a c"
      and strict: "ok a \<Longrightarrow> ok b \<Longrightarrow> le a b \<Longrightarrow> a \<noteq> b \<Longrightarrow> m a < m b"
      and kind: "length s = n \<Longrightarrow> list_all ok s \<Longrightarrow> i < n \<Longrightarrow> ok (f s i)"
      and mono: "length s = n \<Longrightarrow> list_all ok s \<Longrightarrow> length t = n \<Longrightarrow> list_all ok t \<Longrightarrow> list_all2 le s t \<Longrightarrow> i < n \<Longrightarrow> le (f s i) (f t i)"
begin

definition above :: "'a list \<Rightarrow> bool" where
  "above s \<longleftrightarrow> length s = n \<and> list_all ok s \<and> (\<forall>i < n. le (f s i) (s ! i))"

lemma points_less:
  assumes "above s" and "i < n" and "f s i \<noteq> s ! i"
  shows "sum_list (map m (s[i := f s i])) < sum_list (map m s)"
proof -
  have "ok (s ! i)" using assms(1,2) by (simp add: above_def list_all_length)
  then have less: "m (f s i) < m (s ! i)"
    using assms kind [of s i] strict by (auto simp: above_def)
  have "sum_list (map m (s[i := f s i])) + m (s ! i) = sum_list (map m s) + m (f s i)"
    using assms(1,2) elem_le_sum_list [of i "map m s"] by (simp add: above_def map_update sum_list_update)
  with less show ?thesis by simp
qed

lemma above_update:
  assumes "above s" and "i < n"
  shows "above (s[i := f s i])"
proof -
  let ?s = "s[i := f s i]"
  have len: "length s = n" and ok: "list_all ok s" and le: "\<And>j. j < n \<Longrightarrow> le (f s j) (s ! j)"
    using assms(1) by (simp_all add: above_def)
  have ok': "list_all ok ?s"
    using ok kind [OF len ok assms(2)] len assms(2) by (auto simp: list_all_length nth_list_update)
  have "list_all2 le ?s s"
    using len le assms(2) refl by (auto simp: list_all2_conv_all_nth nth_list_update)
  then have down: "le (f ?s j) (f s j)" if "j < n" for j using mono [OF _ ok' len ok _ that] len by simp
  have "le (f ?s j) (?s ! j)" if "j < n" for j
    using down [OF that] le [OF that] that len by (cases "j = i") (auto intro: trans)
  with ok' len show ?thesis by (simp add: above_def)
qed

lemma above_foldl:
  "above s \<Longrightarrow> set is' \<subseteq> {..<n} \<Longrightarrow> let t = foldl (\<lambda>s i. s[i := f s i]) s is' in
     above t \<and> (t = s \<or> sum_list (map m t) < sum_list (map m s))"
proof (induction is' arbitrary: s)
  case (Cons i js)
  let ?s = "s[i := f s i]"
  from Cons.prems have i: "i < n" by simp
  have len: "length s = n" using Cons.prems(1) by (simp add: above_def)
  have "?s = s \<or> sum_list (map m ?s) < sum_list (map m s)"
    using points_less [OF Cons.prems(1) i] len i by (metis list_update_id)
  moreover have "let t = foldl (\<lambda>s i. s[i := f s i]) ?s js in above t \<and> (t = ?s \<or> sum_list (map m t) < sum_list (map m ?s))"
    using Cons.IH [OF above_update [OF Cons.prems(1) i]] Cons.prems(2) by simp
  ultimately show ?case by (auto simp: Let_def)
qed simp

lemma above_sweep: "above s \<Longrightarrow> above (sweep f s)"
  and sweep_points: "above s \<Longrightarrow> sweep f s = s \<or> sum_list (map m (sweep f s)) < sum_list (map m s)"
proof -
  have "set [0..<length s] \<subseteq> {..<n}" if "above s" using that by (auto simp: above_def)
  with above_foldl [of s "[0..<length s]"]
  show "above s \<Longrightarrow> above (sweep f s)" "above s \<Longrightarrow> sweep f s = s \<or> sum_list (map m (sweep f s)) < sum_list (map m s)"
    unfolding sweep_def Let_def by blast+
qed

lemma iterate_above: "above s \<Longrightarrow> iterate k f s = Some t \<Longrightarrow> above t"
proof (induction k arbitrary: s)
  case 0
  then show ?case by (subst (asm) iterate.simps) (simp add: Let_def split: if_splits)
next
  case (Suc k)
  show ?case
  proof (cases "sweep f s = s")
    case True
    with Suc.prems show ?thesis by (subst (asm) iterate.simps) simp
  next
    case False
    with Suc.prems(2) have "iterate k f (sweep f s) = Some t" by (subst (asm) iterate.simps) (simp add: Let_def)
    from Suc.IH [OF above_sweep [OF Suc.prems(1)] this] show ?thesis .
  qed
qed

lemma iterate_enough: "above s \<Longrightarrow> sum_list (map m s) \<le> k \<Longrightarrow> \<exists>t. iterate k f s = Some t"
proof (induction k arbitrary: s)
  case 0
  with sweep_points [of s] have "sweep f s = s" by auto
  then show ?case by (subst iterate.simps) simp
next
  case (Suc k)
  show ?case
  proof (cases "sweep f s = s")
    case True
    then show ?thesis by (subst iterate.simps) simp
  next
    case False
    with sweep_points [OF Suc.prems(1)] Suc.prems(2) have "sum_list (map m (sweep f s)) \<le> k" by simp
    from Suc.IH [OF above_sweep [OF Suc.prems(1)] this] False show ?thesis
      by (subst iterate.simps) (simp add: Let_def)
  qed
qed

end

end
