(* ===== verification/DataflowProps.thy ===== *)
theory DataflowProps
  imports Fixpoint
begin

section \<open>The data-flow analysis ends and is a solution\<close>

subsection \<open>The graph\<close>

lemma last_index_bound: "last_index tasks x = Some j \<Longrightarrow> j < length tasks \<and> task_id (tasks ! j) = x"
  unfolding last_index_def by (drule map_of_SomeD) (auto simp: in_set_zip)

lemma last_index_distinct:
  assumes "distinct (map task_id tasks)" and "j < length tasks"
  shows "last_index tasks (task_id (tasks ! j)) = Some j"
proof -
  have "distinct (map fst (zip (map task_id tasks) [0..<length tasks]))" using assms(1) by simp
  then have "distinct (map fst (rev (zip (map task_id tasks) [0..<length tasks])))"
    by (simp only: rev_map [symmetric] distinct_rev)
  moreover have "(task_id (tasks ! j), j) \<in> set (rev (zip (map task_id tasks) [0..<length tasks]))"
    using assms(2) by (auto simp: in_set_zip intro!: exI [of _ j])
  ultimately show ?thesis unfolding last_index_def by simp
qed

lemma switch_edges_source: "(j, p) \<in> set (switch_edges tasks i added cs) \<Longrightarrow> pe_idx p = Some i \<and> \<not> pe_err p"
  by (induction cs arbitrary: added) (auto split: if_splits option.splits)

lemma edges_out_source: "(j, p) \<in> set (edges_out tasks (i, s)) \<Longrightarrow> pe_idx p = Some i"
  by (auto simp: edges_out_def error_edges_def dest: switch_edges_source split: if_splits option.splits)

definition graph :: "task list \<Rightarrow> (nat \<times> pred_edge) list" where
  "graph tasks = (0, start_edge) # concat (map (edges_out tasks) (enumerate 0 tasks))"

lemma length_build_preds [simp]: "length (build_preds tasks) = length tasks"
  by (simp add: build_preds_def Let_def)

lemma pred_iff: "i < length tasks \<Longrightarrow> p \<in> set (build_preds tasks ! i) \<longleftrightarrow> (i, p) \<in> set (graph tasks)"
  by (auto simp: build_preds_def graph_def Let_def image_iff)

lemma pred_bound:
  assumes "i < length tasks" and "p \<in> set (build_preds tasks ! i)" and "pe_idx p = Some k"
  shows "k < length tasks"
proof -
  from assms(2) have "(i, p) \<in> set (graph tasks)" by (simp add: pred_iff [OF assms(1)])
  with assms(3) obtain l s where "(l, s) \<in> set (enumerate 0 tasks)" "(i, p) \<in> set (edges_out tasks (l, s))"
    by (auto simp: graph_def start_edge_def)
  moreover from this edges_out_source assms(3) have "k = l" by fastforce
  ultimately show ?thesis by (auto simp: enumerate_eq_zip in_set_zip)
qed

lemma start_pred: "tasks \<noteq> [] \<Longrightarrow> start_edge \<in> set (build_preds tasks ! 0)"
  by (simp add: pred_iff graph_def)

subsection \<open>Rows of bits\<close>

definition bits_le :: "bool list \<Rightarrow> bool list \<Rightarrow> bool" where
  "bits_le a b \<longleftrightarrow> list_all2 (\<longrightarrow>) a b"

definition bits_up :: "bool list \<Rightarrow> bool list \<Rightarrow> bool" where
  "bits_up a b \<longleftrightarrow> bits_le b a"

definition bits_on :: "bool list \<Rightarrow> nat" where
  "bits_on a = length (filter id a)"

definition bits_off :: "bool list \<Rightarrow> nat" where
  "bits_off a = length (filter Not a)"

definition le_down :: "bool \<Rightarrow> bool \<Rightarrow> bool" where
  "le_down a b \<longleftrightarrow> (b \<longrightarrow> a)"

lemma bits_le_nth: "bits_le a b \<longleftrightarrow> length a = length b \<and> (\<forall>j < length a. a ! j \<longrightarrow> b ! j)"
  by (simp add: bits_le_def list_all2_conv_all_nth)

lemma bits_on_less: "bits_le a b \<Longrightarrow> a \<noteq> b \<Longrightarrow> bits_on a < bits_on b"
  unfolding bits_le_def
proof (induction rule: list_all2_induct)
  case (Cons x xs y ys)
  then have "bits_on xs \<le> bits_on ys" by (cases "xs = ys") auto
  with Cons show ?case by (cases x; cases y) (auto simp: bits_on_def)
qed simp

lemma bits_off_less: "bits_le b a \<Longrightarrow> a \<noteq> b \<Longrightarrow> bits_off a < bits_off b"
  unfolding bits_le_def
proof (induction rule: list_all2_induct)
  case (Cons x xs y ys)
  then have "bits_off ys \<le> bits_off xs" by (cases "xs = ys") auto
  with Cons show ?case by (cases x; cases y) (auto simp: bits_off_def)
qed simp

lemma bits_bound: "bits_on a \<le> length a" "bits_off a \<le> length a"
  by (simp_all add: bits_on_def bits_off_def)

subsection \<open>The equations, bit by bit\<close>

lemma length_fold_map2:
  assumes "\<And>p k. p \<in> set ps \<Longrightarrow> pe_idx p = Some k \<Longrightarrow> length (r p k) = length acc"
  shows "length (fold (\<lambda>p acc. case pe_idx p of None \<Rightarrow> acc | Some k \<Rightarrow> map2 g acc (r p k)) ps acc) = length acc"
  using assms
proof (induction ps arbitrary: acc)
  case (Cons p ps)
  then show ?case by (cases "pe_idx p") auto
qed simp

lemma fold_and_nth:
  assumes "\<And>p k. p \<in> set ps \<Longrightarrow> pe_idx p = Some k \<Longrightarrow> length (r p k) = length acc" and "j < length acc"
  shows "fold (\<lambda>p acc. case pe_idx p of None \<Rightarrow> acc | Some k \<Rightarrow> map2 (\<and>) acc (r p k)) ps acc ! j \<longleftrightarrow>
    acc ! j \<and> (\<forall>p \<in> set ps. \<forall>k. pe_idx p = Some k \<longrightarrow> r p k ! j)"
  using assms
proof (induction ps arbitrary: acc)
  case (Cons p ps)
  then show ?case by (cases "pe_idx p") auto
qed simp

lemma fold_or_nth:
  assumes "\<And>p k. p \<in> set ps \<Longrightarrow> pe_idx p = Some k \<Longrightarrow> length (r p k) = length acc" and "j < length acc"
  shows "fold (\<lambda>p acc. case pe_idx p of None \<Rightarrow> acc | Some k \<Rightarrow> map2 (\<or>) acc (r p k)) ps acc ! j \<longleftrightarrow>
    acc ! j \<or> (\<exists>p \<in> set ps. \<exists>k. pe_idx p = Some k \<and> r p k ! j)"
  using assms
proof (induction ps arbitrary: acc)
  case (Cons p ps)
  then show ?case by (cases "pe_idx p") auto
qed simp

abbreviation square :: "task list \<Rightarrow> bool list list \<Rightarrow> bool" where
  "square tasks s \<equiv> length s = length tasks \<and> list_all (\<lambda>a. length a = length tasks) s"

lemma length_flags [simp]: "length (outputs_flags tasks) = length tasks"
  by (simp add: outputs_flags_def)

lemma length_source_row:
  assumes "square tasks s" and "i < length tasks" and "p \<in> set (build_preds tasks ! i)" and "pe_idx p = Some k"
  shows "length (source_row (outputs_flags tasks) s p k) = length tasks"
  using assms pred_bound [OF assms(2-4)] by (simp add: source_row_def list_all_length)

lemma source_row_nth:
  assumes "square tasks s" and "i < length tasks" and "p \<in> set (build_preds tasks ! i)" and "pe_idx p = Some k" and "j < length tasks"
  shows "source_row (outputs_flags tasks) s p k ! j \<longleftrightarrow>
    s ! k ! j \<and> \<not> (pe_err p \<and> task_has_output (tasks ! k) \<and> j = k)"
  using assms pred_bound [OF assms(2-4)]
  by (auto simp: source_row_def list_all_length outputs_flags_def nth_list_update)

lemma length_must_in:
  assumes "square tasks s" and "i < length tasks"
  shows "length (must_in (outputs_flags tasks) (build_preds tasks) s i) = length tasks"
  using length_fold_map2 [of "build_preds tasks ! i" "source_row (outputs_flags tasks) s" "replicate (length tasks) True" "(\<and>)"]
    length_source_row [OF assms]
  by (simp add: must_in_def Let_def)

lemma length_may_in:
  assumes "square tasks s" and "i < length tasks"
  shows "length (may_in (outputs_flags tasks) (build_preds tasks) s i) = length tasks"
  using length_fold_map2 [of "build_preds tasks ! i" "source_row (outputs_flags tasks) s" "replicate (length tasks) False" "(\<or>)"]
    length_source_row [OF assms]
  by (simp add: may_in_def)

lemma must_in_nth:
  assumes "square tasks s" and "i < length tasks" and "j < length tasks"
  shows "must_in (outputs_flags tasks) (build_preds tasks) s i ! j \<longleftrightarrow>
    build_preds tasks ! i \<noteq> [] \<and>
    (\<forall>p \<in> set (build_preds tasks ! i). \<exists>k. pe_idx p = Some k \<and> source_row (outputs_flags tasks) s p k ! j)"
proof -
  have "fold (\<lambda>p acc. case pe_idx p of None \<Rightarrow> acc | Some k \<Rightarrow> map2 (\<and>) acc (source_row (outputs_flags tasks) s p k))
      (build_preds tasks ! i) (replicate (length tasks) True) ! j \<longleftrightarrow>
    (\<forall>p \<in> set (build_preds tasks ! i). \<forall>k. pe_idx p = Some k \<longrightarrow> source_row (outputs_flags tasks) s p k ! j)"
    using fold_and_nth [of "build_preds tasks ! i" "source_row (outputs_flags tasks) s" "replicate (length tasks) True" j]
      length_source_row [OF assms(1,2)] assms(3) by simp
  note inner = this
  show ?thesis
  proof (cases "list_ex (\<lambda>p. pe_idx p = None) (build_preds tasks ! i)")
    case True
    then obtain p where "p \<in> set (build_preds tasks ! i)" "pe_idx p = None" by (auto simp: list_ex_iff)
    then have "\<not> (\<forall>p \<in> set (build_preds tasks ! i). \<exists>k. pe_idx p = Some k \<and> source_row (outputs_flags tasks) s p k ! j)"
      by fastforce
    with True assms(3) show ?thesis by (simp add: must_in_def Let_def)
  next
    case False
    then have "(\<forall>p \<in> set (build_preds tasks ! i). \<exists>k. pe_idx p = Some k \<and> source_row (outputs_flags tasks) s p k ! j) \<longleftrightarrow>
      (\<forall>p \<in> set (build_preds tasks ! i). \<forall>k. pe_idx p = Some k \<longrightarrow> source_row (outputs_flags tasks) s p k ! j)"
      by (fastforce simp: list_ex_iff)
    with False assms(3) inner show ?thesis by (simp add: must_in_def Let_def)
  qed
qed

lemma may_in_nth:
  assumes "square tasks s" and "i < length tasks" and "j < length tasks"
  shows "may_in (outputs_flags tasks) (build_preds tasks) s i ! j \<longleftrightarrow>
    (\<exists>p \<in> set (build_preds tasks ! i). \<exists>k. pe_idx p = Some k \<and> source_row (outputs_flags tasks) s p k ! j)"
  using fold_or_nth [of "build_preds tasks ! i" "source_row (outputs_flags tasks) s" "replicate (length tasks) False" j]
    length_source_row [OF assms(1,2)] assms(3) by (simp add: may_in_def)

lemma with_own_nth:
  "length row = length tasks \<Longrightarrow> i < length tasks \<Longrightarrow> j < length tasks \<Longrightarrow>
     with_own (outputs_flags tasks) i row ! j \<longleftrightarrow> row ! j \<or> task_has_output (tasks ! i) \<and> j = i"
  by (auto simp: with_own_def outputs_flags_def nth_list_update)

lemma length_with_own [simp]: "length (with_own ho i row) = length row"
  by (simp add: with_own_def)

lemma source_row_mono:
  assumes "square tasks s" and "square tasks t" and "list_all2 bits_le s t"
    and "i < length tasks" and "p \<in> set (build_preds tasks ! i)" and "pe_idx p = Some k" and "j < length tasks"
  shows "source_row (outputs_flags tasks) s p k ! j \<Longrightarrow> source_row (outputs_flags tasks) t p k ! j"
proof -
  have "bits_le (s ! k) (t ! k)" "length (s ! k) = length tasks"
    using assms(1-3) pred_bound [OF assms(4-6)] by (simp_all add: list_all2_conv_all_nth list_all_length)
  then have "s ! k ! j \<Longrightarrow> t ! k ! j" using assms(7) by (simp add: bits_le_nth)
  then show "source_row (outputs_flags tasks) s p k ! j \<Longrightarrow> source_row (outputs_flags tasks) t p k ! j"
    using source_row_nth [OF assms(1,4-7)] source_row_nth [OF assms(2,4-7)] by blast
qed

subsection \<open>The analyses settle\<close>

lemma must_step_mono:
  assumes "square tasks s" and "square tasks t" and "list_all2 bits_le s t" and i: "i < length tasks"
  shows "bits_le (must_step (outputs_flags tasks) (build_preds tasks) s i) (must_step (outputs_flags tasks) (build_preds tasks) t i)"
proof -
  have "must_in (outputs_flags tasks) (build_preds tasks) t i ! j"
    if "must_in (outputs_flags tasks) (build_preds tasks) s i ! j" "j < length tasks" for j
    using that source_row_mono [OF assms(1-3) i] must_in_nth [OF assms(1) i that(2)] must_in_nth [OF assms(2) i that(2)] by blast
  then show ?thesis
    using length_must_in [OF assms(1) i] length_must_in [OF assms(2) i] i
    by (auto simp: must_step_def bits_le_nth with_own_nth)
qed

lemma may_step_mono:
  assumes "square tasks s" and "square tasks t" and "list_all2 bits_le s t" and i: "i < length tasks"
  shows "bits_le (may_step (outputs_flags tasks) (build_preds tasks) s i) (may_step (outputs_flags tasks) (build_preds tasks) t i)"
proof -
  have "may_in (outputs_flags tasks) (build_preds tasks) t i ! j"
    if "may_in (outputs_flags tasks) (build_preds tasks) s i ! j" "j < length tasks" for j
    using that source_row_mono [OF assms(1-3) i] may_in_nth [OF assms(1) i that(2)] may_in_nth [OF assms(2) i that(2)] by blast
  then show ?thesis
    using length_may_in [OF assms(1) i] length_may_in [OF assms(2) i] i
    by (auto simp: may_step_def bits_le_nth with_own_nth)
qed

interpretation must: settling "length tasks" "\<lambda>a. length a = length tasks" bits_le bits_on
    "must_step (outputs_flags tasks) (build_preds tasks)" for tasks
proof unfold_locales
  show "bits_le a a" for a by (simp add: bits_le_nth)
  show "bits_le a b \<Longrightarrow> bits_le b c \<Longrightarrow> bits_le a c" for a b c by (simp add: bits_le_nth)
  show "length (must_step (outputs_flags tasks) (build_preds tasks) s i) = length tasks"
    if "length s = length tasks" "list_all (\<lambda>a. length a = length tasks) s" "i < length tasks" for s i
    using length_must_in [where tasks = tasks and s = s and i = i] that by (simp add: must_step_def)
qed (simp_all add: bits_on_less must_step_mono)

interpretation may: settling "length tasks" "\<lambda>a. length a = length tasks" bits_up bits_off
    "may_step (outputs_flags tasks) (build_preds tasks)" for tasks
proof unfold_locales
  show "bits_up a a" for a by (simp add: bits_up_def bits_le_nth)
  show "bits_up a b \<Longrightarrow> bits_up b c \<Longrightarrow> bits_up a c" for a b c by (simp add: bits_up_def bits_le_nth)
  show "length (may_step (outputs_flags tasks) (build_preds tasks) s i) = length tasks"
    if "length s = length tasks" "list_all (\<lambda>a. length a = length tasks) s" "i < length tasks" for s i
    using length_may_in [where tasks = tasks and s = s and i = i] that by (simp add: may_step_def)
  show "bits_up (may_step (outputs_flags tasks) (build_preds tasks) s i) (may_step (outputs_flags tasks) (build_preds tasks) t i)"
    if "length s = length tasks" "list_all (\<lambda>a. length a = length tasks) s" "length t = length tasks"
      "list_all (\<lambda>a. length a = length tasks) t" "list_all2 bits_up s t" "i < length tasks" for s t i
  proof -
    have "list_all2 bits_le t s" using that(5) by (simp add: list_all2_conv_all_nth bits_up_def)
    with may_step_mono [where tasks = tasks and s = t and t = s and i = i] that show ?thesis by (simp add: bits_up_def)
  qed
qed (simp_all add: bits_up_def bits_off_less)

definition one_point :: "bool \<Rightarrow> nat" where
  "one_point a = (if a then 0 else 1)"

lemma rows_down: "list_all2 le_down s t \<Longrightarrow> k < length t \<Longrightarrow> t ! k \<Longrightarrow> s ! k"
  by (simp add: list_all2_conv_all_nth le_down_def)

interpretation must_err: settling "length tasks" "\<lambda>a. True" le_down one_point "must_err_step (build_preds tasks)" for tasks
proof unfold_locales
  show "le_down (must_err_step (build_preds tasks) s i) (must_err_step (build_preds tasks) t i)"
    if "length t = length tasks" "list_all2 le_down s t" "i < length tasks" for s t i
  proof -
    have "case pe_idx p of None \<Rightarrow> False | Some k \<Rightarrow> pe_err p \<or> s ! k"
      if "case pe_idx p of None \<Rightarrow> False | Some k \<Rightarrow> pe_err p \<or> t ! k" "p \<in> set (build_preds tasks ! i)" for p
      using that rows_down [OF \<open>list_all2 le_down s t\<close>] pred_bound [OF \<open>i < length tasks\<close> that(2)] \<open>length t = length tasks\<close>
      by (cases "pe_idx p") auto
    moreover have "t ! i \<Longrightarrow> s ! i" using rows_down [OF that(2)] that(1,3) by simp
    ultimately show ?thesis by (auto simp: le_down_def must_err_step_def list_all_iff)
  qed
qed (auto simp: le_down_def one_point_def)

interpretation may_err: settling "length tasks" "\<lambda>a. True" le_down one_point "may_err_step (build_preds tasks)" for tasks
proof unfold_locales
  show "le_down (may_err_step (build_preds tasks) s i) (may_err_step (build_preds tasks) t i)"
    if "length t = length tasks" "list_all2 le_down s t" "i < length tasks" for s t i
  proof -
    have "case pe_idx p of None \<Rightarrow> False | Some k \<Rightarrow> pe_err p \<or> s ! k"
      if "case pe_idx p of None \<Rightarrow> False | Some k \<Rightarrow> pe_err p \<or> t ! k" "p \<in> set (build_preds tasks ! i)" for p
      using that rows_down [OF \<open>list_all2 le_down s t\<close>] pred_bound [OF \<open>i < length tasks\<close> that(2)] \<open>length t = length tasks\<close>
      by (cases "pe_idx p") auto
    moreover have "t ! i \<Longrightarrow> s ! i" using rows_down [OF that(2)] that(1,3) by simp
    ultimately show ?thesis by (auto simp: le_down_def may_err_step_def list_ex_iff)
  qed
qed (auto simp: le_down_def one_point_def)

interpretation reach: settling "length tasks" "\<lambda>a. True" le_down one_point "reach_step (build_preds tasks)" for tasks
proof unfold_locales
  show "le_down (reach_step (build_preds tasks) s i) (reach_step (build_preds tasks) t i)"
    if "length t = length tasks" "list_all2 le_down s t" "i < length tasks" for s t i
  proof -
    have "case pe_idx p of None \<Rightarrow> False | Some k \<Rightarrow> s ! k"
      if "case pe_idx p of None \<Rightarrow> False | Some k \<Rightarrow> t ! k" "p \<in> set (build_preds tasks ! i)" for p
      using that rows_down [OF \<open>list_all2 le_down s t\<close>] pred_bound [OF \<open>i < length tasks\<close> that(2)] \<open>length t = length tasks\<close>
      by (cases "pe_idx p") auto
    moreover have "t ! i \<Longrightarrow> s ! i" using rows_down [OF that(2)] that(1,3) by simp
    ultimately show ?thesis by (auto simp: le_down_def reach_step_def list_ex_iff)
  qed
qed (auto simp: le_down_def one_point_def)

subsection \<open>They end, at a solution\<close>

lemma sum_replicate_le: "\<forall>x \<in> set xs. g x \<le> (c :: nat) \<Longrightarrow> sum_list (map g xs) \<le> length xs * c"
  by (induction xs) auto

lemma must_above: "must.above tasks (replicate (length tasks) (replicate (length tasks) True))"
  unfolding must.above_def
  using length_must_in [where tasks = tasks and s = "replicate (length tasks) (replicate (length tasks) True)"]
  by (auto simp: list_all_length bits_le_nth must_step_def)

lemma must_rows_end: "\<exists>s. must_rows tasks = Some s"
proof -
  let ?n = "length tasks"
  note must_above [of tasks]
  moreover have "sum_list (map bits_on (replicate ?n (replicate ?n True))) \<le> passes tasks"
    using sum_replicate_le [of "replicate ?n (replicate ?n True)" bits_on ?n] by (simp add: bits_on_def passes_def)
  ultimately show ?thesis unfolding must_rows_def Let_def by (rule must.iterate_enough)
qed

lemma may_rows_end: "\<exists>s. may_rows tasks = Some s"
proof -
  let ?n = "length tasks"
  have "may.above tasks (replicate ?n (replicate ?n False))"
    unfolding may.above_def
    using length_may_in [where tasks = tasks and s = "replicate ?n (replicate ?n False)"]
    by (auto simp: list_all_length bits_up_def bits_le_nth may_step_def)
  moreover have "sum_list (map bits_off (replicate ?n (replicate ?n False))) \<le> passes tasks"
    using sum_replicate_le [of "replicate ?n (replicate ?n False)" bits_off ?n] by (simp add: bits_off_def passes_def)
  ultimately show ?thesis unfolding may_rows_def Let_def by (rule may.iterate_enough)
qed

lemma flags_end:
  "\<exists>s. must_err_rows tasks = Some s" "\<exists>s. may_err_rows tasks = Some s"
  "tasks \<noteq> [] \<Longrightarrow> \<exists>s. iterate (length tasks) (reach_step (build_preds tasks)) (True # replicate (length tasks - 1) False) = Some s"
proof -
  show "\<exists>s. must_err_rows tasks = Some s" unfolding must_err_rows_def
    by (rule must_err.iterate_enough) (simp_all add: must_err.above_def le_down_def list_all_length sum_list_replicate one_point_def)
  show "\<exists>s. may_err_rows tasks = Some s" unfolding may_err_rows_def
    by (rule may_err.iterate_enough) (simp_all add: may_err.above_def le_down_def list_all_length sum_list_replicate one_point_def)
  show "tasks \<noteq> [] \<Longrightarrow> \<exists>s. iterate (length tasks) (reach_step (build_preds tasks)) (True # replicate (length tasks - 1) False) = Some s"
    by (rule reach.iterate_enough) (simp_all add: reach.above_def le_down_def list_all_length sum_list_replicate one_point_def reach_step_def)
qed

lemma must_rows_solution:
  assumes "must_rows tasks = Some s"
  shows "square tasks s" and "i < length tasks \<Longrightarrow> must_step (outputs_flags tasks) (build_preds tasks) s i = s ! i"
proof -
  let ?n = "length tasks"
  have it: "iterate (passes tasks) (must_step (outputs_flags tasks) (build_preds tasks)) (replicate ?n (replicate ?n True)) = Some s"
    using assms by (simp add: must_rows_def Let_def)
  from must.iterate_above [OF must_above it] show sq: "square tasks s" by (simp add: must.above_def)
  from iterate_fixed [OF it] have "sweep (must_step (outputs_flags tasks) (build_preds tasks)) s = s" by simp
  from sweep_fixed [OF this, of i] sq
  show "i < ?n \<Longrightarrow> must_step (outputs_flags tasks) (build_preds tasks) s i = s ! i" by simp
qed

lemma must_err_solution:
  assumes "must_err_rows tasks = Some s"
  shows "length s = length tasks" and "i < length tasks \<Longrightarrow> must_err_step (build_preds tasks) s i = s ! i"
  using iterate_fixed [OF assms [unfolded must_err_rows_def]] sweep_fixed [of _ s i] by auto

lemma data_flow_sets: "\<exists>cs sets. compute_context_sets (def_tasks d) = Some cs \<and> output_context_sets d = Some sets"
proof -
  obtain a b c e where "must_rows (def_tasks d) = Some a" "may_rows (def_tasks d) = Some b"
    "must_err_rows (def_tasks d) = Some c" "may_err_rows (def_tasks d) = Some e"
    using must_rows_end may_rows_end flags_end(1,2) by blast
  then obtain cs where "compute_context_sets (def_tasks d) = Some cs"
    by (cases "def_tasks d = []") (simp_all add: compute_context_sets_def Let_def)
  then show ?thesis
    by (cases "def_tasks d = []") (simp_all add: output_context_sets_def del: split_paired_Ex)
qed

text \<open>Reachability: from which task to which the graph routes.\<close>

definition routes :: "task list \<Rightarrow> (nat \<times> nat) set" where
  "routes tasks = {(k, k'). k' < length tasks \<and> (\<exists>p \<in> set (build_preds tasks ! k'). pe_idx p = Some k)}"

lemma reach_step_iff:
  "i < length tasks \<Longrightarrow> reach_step (build_preds tasks) rows i \<longleftrightarrow> rows ! i \<or> (\<exists>k. (k, i) \<in> routes tasks \<and> rows ! k)"
  by (auto simp: reach_step_def routes_def list_ex_iff split: option.splits)

lemma reached_rows:
  assumes "tasks \<noteq> []"
    and it: "iterate k (reach_step (build_preds tasks)) (True # replicate (length tasks - 1) False) = Some rows"
    and i: "i < length tasks"
  shows "rows ! i \<longleftrightarrow> (0, i) \<in> (routes tasks)\<^sup>*"
proof
  let ?ok = "\<lambda>s. length s = length tasks \<and> s ! 0 \<and> (\<forall>i < length tasks. s ! i \<longrightarrow> (0, i) \<in> (routes tasks)\<^sup>*)"
  have "?ok (s[j := reach_step (build_preds tasks) s j])" if s: "?ok s" and j: "j < length s" for s j
  proof -
    have b: "k < length tasks" if "(k, j) \<in> routes tasks" for k
      using that pred_bound [of j tasks] s j by (auto simp: routes_def)
    have "(0, j) \<in> (routes tasks)\<^sup>*" if "reach_step (build_preds tasks) s j"
      using that s j b by (auto simp: reach_step_iff intro: rtrancl.rtrancl_into_rtrancl)
    with s j show ?thesis by (auto simp: nth_list_update reach_step_def)
  qed
  moreover have "?ok (True # replicate (length tasks - 1) False)"
    using assms(1) by (auto simp: nth_Cons split: nat.splits)
  ultimately have ok: "?ok rows" using iterate_keeps [where P = ?ok, OF _ _ it] by blast
  then show "rows ! i \<Longrightarrow> (0, i) \<in> (routes tasks)\<^sup>*" using i by blast
  have closed: "rows ! l" if "(k, l) \<in> routes tasks" "rows ! k" for k l
    using sweep_fixed [OF conjunct1 [OF iterate_fixed [OF it]], of l] that ok reach_step_iff [of l tasks rows]
    by (auto simp: routes_def)
  show "rows ! i" if "(0, i) \<in> (routes tasks)\<^sup>*"
    using that by (induction rule: rtrancl_induct) (use ok closed in auto)
qed

lemma check_reachability_exact:
  "check_reachability tasks = None \<longleftrightarrow> {..<length tasks} \<subseteq> (routes tasks)\<^sup>* `` {0}"
proof (cases "tasks = []")
  case False
  then obtain rows where it: "iterate (length tasks) (reach_step (build_preds tasks)) (True # replicate (length tasks - 1) False) = Some rows"
    using flags_end(3) by blast
  have "length rows = length tasks" using iterate_fixed [OF it] False by simp
  then have "check_reachability tasks = None \<longleftrightarrow> (\<forall>i < length tasks. rows ! i)"
    using False it by (auto simp: check_reachability_def find_None_iff in_set_zip)
  with reached_rows [OF False it] show ?thesis by auto
qed (simp add: check_reachability_def)

text \<open>
  C39: The data-flow analysis ends on every definition, whatever the routing, loops and error routes
  included: all fixpoints are reached within the passes allowed. The reachability check passes exactly
  when the graph of the definition leads from the first task to every task.
\<close>

theorem data_flow_analysis_ends:
  "(\<exists>cs sets. compute_context_sets (def_tasks d) = Some cs \<and> output_context_sets d = Some sets)
   \<and> (check_reachability (def_tasks d) = None \<longleftrightarrow> {..<length (def_tasks d)} \<subseteq> (routes (def_tasks d))\<^sup>* `` {0})"
  by (intro conjI data_flow_sets check_reachability_exact)

end
