(* ===== verification/DataflowEngine.thy ===== *)
theory DataflowEngine
  imports DataflowProps EngineTree
begin

section \<open>The engine has the outputs the analysis promises\<close>

text \<open>
  What a worker's copy of an instance holds: outputs by task, and the error of the last failed
  action that was routed on. The handlers only add to it.
\<close>

definition has_out :: "proc_instance \<Rightarrow> string \<Rightarrow> bool" where
  "has_out i x \<longleftrightarrow> map_of (outputs_of (inst_context i)) x \<noteq> None"

definition has_err :: "proc_instance \<Rightarrow> bool" where
  "has_err i \<longleftrightarrow> lookup (inst_context i) ''error'' \<noteq> GNil"

definition grows :: "proc_instance \<Rightarrow> proc_instance \<Rightarrow> bool" where
  "grows i j \<longleftrightarrow> (\<forall>x. has_out i x \<longrightarrow> has_out j x) \<and> (has_err i \<longrightarrow> has_err j)"

definition stays :: "proc_instance \<Rightarrow> proc_instance \<Rightarrow> bool" where
  "stays i j \<longleftrightarrow> grows i j \<and> inst_task j = inst_task i \<and> inst_status j = inst_status i"

text \<open>Where a handler of task \<open>t\<close> may stop: at the task, or at the target of an error route.\<close>

definition routed :: "task \<Rightarrow> proc_instance \<Rightarrow> proc_instance \<Rightarrow> bool" where
  "routed t i j \<longleftrightarrow> grows i j \<and>
     (inst_task j = inst_task i \<and> (inst_status j = Completed \<longrightarrow> inst_status i = Completed)
      \<or> has_err j \<and> (\<exists>c \<in> set (task_on_error t).
          err_goto c = goto_end \<and> inst_task j = inst_task i
        \<or> err_goto c \<noteq> [] \<and> err_goto c \<noteq> goto_end \<and> inst_task j = err_goto c \<and> inst_status j = inst_status i))"

lemma grows_refl [simp]: "grows i i"
  by (simp add: grows_def)

lemma grows_trans: "grows i j \<Longrightarrow> grows j k \<Longrightarrow> grows i k"
  by (simp add: grows_def)

lemma stays_refl [simp]: "stays i i"
  by (simp add: stays_def)

lemma stays_trans: "stays i j \<Longrightarrow> stays j k \<Longrightarrow> stays i k"
  by (auto simp: stays_def intro: grows_trans)

lemma routed_trans: "stays i j \<Longrightarrow> routed t j k \<Longrightarrow> routed t i k"
  by (auto simp: stays_def routed_def intro: grows_trans)

lemma routed_refl [simp]: "routed t i i"
  by (simp add: routed_def)

definition flow_going :: "proc_instance \<times> database \<Rightarrow> proc_instance \<times> database \<Rightarrow> bool" where
  "flow_going s u \<longleftrightarrow> stays (fst s) (fst u)"

definition flow_halted :: "task \<Rightarrow> proc_instance \<times> database \<Rightarrow> stopped \<Rightarrow> bool" where
  "flow_halted t s e \<longleftrightarrow> routed t (fst s) (fst (snd e))"

lemma flow_simps [simp]: "flow_going (i, db) (j, db') \<longleftrightarrow> stays i j" "flow_halted t (i, db) (out, j, db') \<longleftrightarrow> routed t i j"
  by (simp_all add: flow_going_def flow_halted_def)

interpretation flow: handler_contract flow_going "flow_halted t" for t
  by unfold_locales (auto simp: flow_going_def flow_halted_def intro: stays_trans routed_trans)

subsection \<open>Changes of the context\<close>

lemma outputs_put: "k \<noteq> ''outputs'' \<Longrightarrow> outputs_of (put k v cd) = outputs_of cd"
  by (simp add: outputs_of_def)

lemma outputs_del: "k \<noteq> ''outputs'' \<Longrightarrow> outputs_of (del k cd) = outputs_of cd"
  by (simp add: outputs_of_def)

lemma lookup_put: "lookup (put k v cd) x = (if x = k then v else lookup cd x)"
  by (simp add: lookup_def)

lemma lookup_del: "lookup (del k cd) x = (if x = k then GNil else lookup cd x)"
  by (simp add: lookup_def)

lemmas context_simps = outputs_put outputs_del lookup_put lookup_del has_out_def has_err_def with_order_def
  ctx_external_def ctx_external_result_def

lemma stays_context:
  "outputs_of c = outputs_of (inst_context i) \<Longrightarrow> lookup c ''error'' = lookup (inst_context i) ''error'' \<Longrightarrow>
    inst_context j = c \<Longrightarrow> inst_task j = inst_task i \<Longrightarrow> inst_status j = inst_status i \<Longrightarrow> stays i j"
  by (simp add: stays_def grows_def has_out_def has_err_def)

lemma stays_same [simp]:
  "inst_context j = inst_context i \<Longrightarrow> inst_task j = inst_task i \<Longrightarrow> inst_status j = inst_status i \<Longrightarrow> stays i j"
  by (rule stays_context) auto

lemma routed_fail: "stays i j \<Longrightarrow> routed t i (failed_instance reason j)"
  by (auto simp: routed_def stays_def grows_def has_out_def has_err_def failed_instance_def)

lemma flow_stop_fail: "stays i j \<Longrightarrow> flow.keeps t (i, db) (stop_fail reason j db')"
  by (simp add: stop_fail_def stop_with_def fail_instance_def routed_fail)

lemma flow_evaluated:
  assumes "\<And>v j. res = Inr (v, j) \<Longrightarrow> stays i j"
  shows "flow.keeps t (i, db) (evaluated reason i db res)"
  using assms by (auto simp: evaluated_def flow_stop_fail split: sum.splits)

lemma eval_stays:
  "eval_shape_ctx parse load i shape self = Inr (v, j) \<Longrightarrow> stays i j"
  "eval_any_ctx parse load i s = Inr (v, j) \<Longrightarrow> stays i j"
  "eval_bool_ctx parse load i s self = Inr (b, j) \<Longrightarrow> stays i j"
  by (auto simp: eval_shape_ctx_def eval_any_ctx_def eval_bool_ctx_def and_then_eq_Inr)

lemma eval_input_stays: "eval_input sv db i shape = Inr (v, j) \<Longrightarrow> stays i j"
  by (auto simp: eval_input_def eval_stays split: if_splits)

lemma resolve_endpoint_stays: "resolve_endpoint sv db i a = Inr (v, j) \<Longrightarrow> stays i j"
  by (auto simp: resolve_endpoint_def and_then_eq_Inr eval_stays split: if_splits)

lemma resolve_headers_stays: "resolve_headers sv db i a = Inr (v, j) \<Longrightarrow> stays i j"
proof -
  have "resolve_header_list sv db i hs = Inr (v, j) \<Longrightarrow> stays i j" for hs v
  proof (induction hs arbitrary: i v)
    case (Cons h hs)
    then show ?case by (cases h) (auto simp: and_then_eq_Inr dest!: eval_stays(2) intro: stays_trans)
  qed simp
  then show "resolve_headers sv db i a = Inr (v, j) \<Longrightarrow> stays i j" by (simp add: resolve_headers_def)
qed

lemma eval_switch_stays: "eval_switch sv db i cs self = Inr (v, j) \<Longrightarrow> stays i j"
proof (induction cs arbitrary: i)
  case (Cons c cs)
  then show ?case by (auto simp: and_then_eq_Inr dest!: eval_stays(3) intro: stays_trans split: if_splits)
qed simp

lemma flow_then:
  assumes "\<And>v j. res = Inr (v, j) \<Longrightarrow> stays i j"
      and "\<And>v j. res = Inr (v, j) \<Longrightarrow> flow.keeps t (j, db) (f (v, j, db))"
  shows "flow.keeps t (i, db) (and_then (evaluated reason i db res) f)"
proof (rule flow.keeps_bind [OF flow_evaluated [OF assms(1)]])
  fix v u assume e: "evaluated reason i db res = Inr (v, u)"
  then obtain j where "u = (j, db)" "res = Inr (v, j)"
    by (auto simp: evaluated_def stop_fail_def stop_with_def split: sum.splits if_splits)
  with assms(2) show "flow.keeps t u (f (v, u))" by simp
qed

subsection \<open>The handlers\<close>

lemma routed_stay:
  "stays i j \<Longrightarrow> inst_context k = inst_context j \<Longrightarrow> inst_task k = inst_task j \<Longrightarrow> inst_status k \<noteq> Completed \<or> inst_status k = inst_status j \<Longrightarrow>
    routed t i k"
  by (auto simp: routed_def stays_def grows_def has_out_def has_err_def)

lemma grows_error: "inst_context k = put ''error'' (error_value t msg code) (inst_context j) \<Longrightarrow> grows j k \<and> has_err k"
  by (simp add: context_simps grows_def error_value_def)

lemma handle_call_error_routed:
  assumes "stays i j"
  shows "routed t i (snd (handle_call_error sv db now j t msg code))"
proof -
  have err: "grows i k" "has_err k" if "inst_context k = put ''error'' (error_value t msg code) (inst_context j)" for k
    using assms grows_error [OF that] by (auto simp: stays_def intro: grows_trans)
  have dead: "routed t i k" if "inst_context k = put ''error'' (error_value t msg code) (inst_context j)"
    "inst_task k = inst_task j" "inst_status k = Failed" for k
    using that err assms by (simp add: routed_def stays_def)
  consider "inst_status j = Cancelling \<or> may_retry t code j"
    | "inst_status j \<noteq> Cancelling" "\<not> may_retry t code j" "match_on_error t code = None"
    | c where "inst_status j \<noteq> Cancelling" "\<not> may_retry t code j" "match_on_error t code = Some c" by blast
  then show ?thesis
  proof cases
    case 1
    then show ?thesis
      using assms by (auto simp: handle_call_error_def cancel_instance_def fail_instance_def failed_instance_def
          scheduled_retry_def intro: routed_stay)
  next
    case 2
    with dead show ?thesis by (simp add: handle_call_error_def fail_instance_def failed_instance_def)
  next
    case 3
    then have "c \<in> set (task_on_error t)" by (auto simp: match_on_error_def find_Some_iff)
    moreover have "inst_task i = inst_task j" "inst_status i = inst_status j" using assms by (simp_all add: stays_def)
    ultimately have ended: "routed t i k" if "inst_context k = put ''error'' (error_value t msg code) (inst_context j)"
        "err_goto c = goto_end \<and> inst_task k = inst_task j
          \<or> err_goto c \<noteq> [] \<and> err_goto c \<noteq> goto_end \<and> inst_task k = err_goto c \<and> inst_status k = inst_status j" for k
      using err that unfolding routed_def by metis
    from 3 dead ended show ?thesis
      by (simp add: handle_call_error_def fail_instance_def failed_instance_def Let_def)
  qed
qed

lemma flow_call_error: "stays i j \<Longrightarrow> flow.keeps t (i, db) (stop_with db (handle_call_error sv db now j t msg code))"
  using handle_call_error_routed [of i j t sv db now msg code] by (simp add: stop_with_def)

lemma after_response_flow: "flow.keeps t (i, db) (after_response sv db now i t a res)"
  by (auto simp: after_response_def Let_def flow_call_error split: sum.splits)

lemma execute_action_flow: "flow.keeps t (i, db) (execute_action sv now i t a db)"
  unfolding execute_action_def
  by (auto intro!: flow_then after_response_flow intro: eval_input_stays resolve_endpoint_stays resolve_headers_stays
      simp: build_task_data_def)

lemma run_delay_flow: "flow.keeps t (i, db) (run_delay sv now i t a db)"
  unfolding run_delay_def
  by (auto intro!: flow_then flow_stop_fail intro: eval_stays simp: stop_with_def routed_def grows_def has_out_def has_err_def
      split: option.splits)

lemma arm_flow:
  assumes "stays i j"
  shows "flow.keeps t (i, db) (case arm_external_or_consume_signal hash now x token input wake j db of
           Inl _ \<Rightarrow> stop_fail reason j db
         | Inr (Some res, i2, db') \<Rightarrow> Inr (res, i2, db')
         | Inr (None, i2, db') \<Rightarrow> Inl (Noop, i2, db'))"
proof -
  have "stays j (parked x token input wake j)"
    by (rule stays_context [OF _ _ refl]) (simp_all add: parked_def context_simps)
  with assms have "routed t i (parked x token input wake j)"
    by (auto intro: routed_trans [OF stays_trans] routed_refl)
  with assms show ?thesis
    by (auto simp: arm_external_or_consume_signal_def and_then_def flow_stop_fail
        split: option.splits sum.splits prod.splits if_splits)
qed

lemma run_external_flow: "flow.keeps t (i, db) (run_external sv now i t a db)"
proof -
  have e: "stays i (i\<lparr>inst_context := del ctx_external (del ctx_external_result (inst_context i))\<rparr>)"
    "stays i (i\<lparr>inst_wait := WaitNone, inst_context := del ctx_external (inst_context i)\<rparr>)"
    by (rule stays_context [OF _ _ refl]; simp add: context_simps)+
  show ?thesis
    unfolding run_external_def
    by (auto intro!: flow_then arm_flow flow_call_error e intro: eval_input_stays simp: build_task_data_def
        simp del: stays_same split: option.splits)
qed

lemma build_child_flow: "flow.keeps t' (i, db) (build_child sv kind key k e i t db)"
  by (auto simp: build_child_def flow_stop_fail Let_def intro!: flow_then routed_stay
      intro: eval_input_stays split: option.splits sum.splits list.splits)

lemma build_entries_flow: "flow.keeps t' (i, db) (build_entries sv k es i t db)"
proof (induction es arbitrary: k i db)
  case (Cons e es)
  obtain key entry where e: "e = (key, entry)" by (cases e)
  show ?case unfolding e build_entries.simps
    by (rule flow.keeps_bind [OF build_child_flow]) (auto intro!: flow.keeps_bind [OF Cons])
qed simp

lemma build_children_flow: "flow.keeps t' (i, db) (build_children sv i t a db)"
  unfolding build_children_def build_single_child_def build_parallel_children_def
  by (auto intro!: flow.keeps_bind [OF build_child_flow] flow.keeps_bind [OF build_entries_flow])

lemma stays_children: "stays i (ensure_children i)" "stays i (note_children t ids i)"
proof -
  show "stays i (ensure_children i)" unfolding ensure_children_def
    by (cases "lookup (inst_context i) ''_children'' = GNil") (simp_all add: stays_context [OF _ _ refl] context_simps del: stays_same)
  show "stays i (note_children t ids i)" unfolding note_children_def
    by (rule stays_context [OF _ _ refl]) (simp_all add: context_simps)
qed

lemma run_child_processes_flow: "flow.keeps t (i, db) (run_child_processes sv now i t a db)"
proof (cases "inst_wait i = Collecting")
  case True
  then show ?thesis by (auto simp: run_child_processes_def flow_stop_fail split: option.splits)
next
  case False
  have stop: "flow.keeps t (j, db) (case spawn_children_and_wait (sv_hash sv) now (note_children t ids j) cs db of
             Inl _ \<Rightarrow> stop_fail reason (note_children t ids j) db
           | Inr db2 \<Rightarrow> Inl (Noop, note_children t ids j, db2))" for ids cs j db reason
    using routed_trans [OF stays_children(2) routed_refl] by (auto simp: flow_stop_fail stays_children split: sum.splits)
  have "flow.keeps t (ensure_children i, db) (and_then (build_children sv (ensure_children i) t a db) (\<lambda>((ids, children), i1, db1).
          let i2 = note_children t ids i1 in
          (case spawn_children_and_wait (sv_hash sv) now i2 children db1 of
             Inl _ \<Rightarrow> stop_fail (task_reason t ''spawn'') i2 db1
           | Inr db2 \<Rightarrow> Inl (Noop, i2, db2))))"
    by (rule flow.keeps_bind [OF build_children_flow]) (auto simp: Let_def stop)
  from flow.keeps_from [OF _ this, of "(i, db)"] False show ?thesis
    by (simp add: run_child_processes_def stays_children)
qed

lemma run_action_flow: "flow.keeps t (i, db) (run_action sv now i t db)"
  by (auto simp: run_action_def execute_action_flow run_delay_flow run_external_flow run_child_processes_flow
      split: option.splits action_type.splits)

subsection \<open>A task\<close>

lemma set_task_output_holds: "stays i (set_task_output x v i) \<and> has_out (set_task_output x v i) x"
  by (auto simp: set_task_output_def Let_def stays_def grows_def has_out_def has_err_def with_order_def
      outputs_of_def lookup_def)

lemma task_output_step_flow: "flow.keeps t (i, db) (task_output_step sv t result previous i db)"
  unfolding task_output_step_def
  by (auto intro!: flow_then simp: set_task_output_holds intro: eval_stays)

lemma task_output_step_exports:
  "task_output_step sv t result previous i db = Inr (w, j, db') \<Longrightarrow> task_has_output t \<Longrightarrow> has_out j (task_id t)"
  by (auto simp: task_output_step_def task_has_output_def and_then_eq_Inr set_task_output_holds)

lemma eval_switch_goto: "eval_switch sv db i cs self = Inr (g, j) \<Longrightarrow> g = [] \<or> (\<exists>c \<in> set cs. case_goto c = g)"
  by (induction cs arbitrary: i) (auto simp: and_then_eq_Inr split: if_splits)

lemma run_task_flow: "flow.keeps t (i, db) (run_task sv now i t db)"
  unfolding run_task_def
  by (rule flow.keeps_bind [OF run_action_flow], clarsimp,
      rule flow.keeps_bind [OF task_output_step_flow], clarsimp, rule flow_then)
    (auto intro: eval_switch_stays simp: flow_stop_fail)

text \<open>A task that is left by its switch has stored its output.\<close>

lemma run_task_leaves:
  assumes "run_task sv now i t db = Inr (g, j, db')"
  shows "stays i j" and "\<exists>c \<in> set (task_switch t). case_goto c = g" and "task_has_output t \<Longrightarrow> has_out j (task_id t)"
proof -
  show "stays i j" using run_task_flow [of t i db sv now] assms by simp
  obtain res i1 db1 out i2 db2 self where s: "task_output_step sv t res (prior_output t i) i1 db1 = Inr (out, i2, db2)"
      "eval_switch sv db2 i2 (task_switch t) self = Inr (g, j)" "g \<noteq> []"
    using assms by (auto simp: run_task_def and_then_eq_Inr evaluated_Inr stop_fail_def stop_with_def split: if_splits)
  from eval_switch_goto [OF s(2)] s(3) show "\<exists>c \<in> set (task_switch t). case_goto c = g" by blast
  show "has_out j (task_id t)" if "task_has_output t"
    using task_output_step_exports [OF s(1) that] eval_switch_stays [OF s(2)] by (simp add: stays_def grows_def)
qed

end
