(* ===== verification/DataflowSound.thy ===== *)
theory DataflowSound
  imports DataflowEngine SystemProps
begin

section \<open>What the analysis promises is there\<close>

text \<open>
  \<open>ready\<close>: the outputs and the error the analysis requires at the instance's task are in its
  context. \<open>output_ready\<close>: those it requires where the process output is built. The equations that
  the fixpoints solve carry \<open>ready\<close> along every edge of the graph, and the engine only moves along
  edges of the graph.
\<close>

definition ready :: "process_definition \<Rightarrow> context_sets \<Rightarrow> proc_instance \<Rightarrow> bool" where
  "ready d cs i \<longleftrightarrow> inst_task i \<in> task_id ` set (def_tasks d)
     \<and> list_all (has_out i) (cs_required cs (inst_task i)) \<and> (cs_must_err cs (inst_task i) \<longrightarrow> has_err i)"

definition output_ready :: "process_definition \<Rightarrow> proc_instance \<Rightarrow> bool" where
  "output_ready d i \<longleftrightarrow>
     (case output_context_sets d of
        None \<Rightarrow> False
      | Some (required, _, err_required, _) \<Rightarrow> list_all (has_out i) required \<and> (err_required \<longrightarrow> has_err i))"

definition promised :: "process_definition \<Rightarrow> context_sets \<Rightarrow> proc_instance \<Rightarrow> bool" where
  "promised d cs i \<longleftrightarrow>
     (inst_status i = Running \<longrightarrow> ready d cs i) \<and> (inst_status i = Completed \<longrightarrow> output_ready d i)"

text \<open>\<open>ready\<close> in terms of the rows.\<close>

definition holds_at :: "task list \<Rightarrow> bool list list \<Rightarrow> bool list \<Rightarrow> nat \<Rightarrow> proc_instance \<Rightarrow> bool" where
  "holds_at tasks s e k i \<longleftrightarrow>
     (\<forall>x < length tasks. must_in (outputs_flags tasks) (build_preds tasks) s k ! x \<longrightarrow> has_out i (task_id (tasks ! x)))
     \<and> (e ! k \<longrightarrow> has_err i)"

lemma set_rows_of:
  assumes "distinct (map task_id tasks)" and "k < length tasks"
  shows "set (rows_of tasks f (task_id (tasks ! k))) = set (f k)"
proof -
  have "task_id (tasks ! i) = task_id (tasks ! k) \<longleftrightarrow> i = k" if "i < length tasks" for i
    using nth_eq_iff_index_eq [OF assms(1), of i k] that assms(2) by simp
  then show ?thesis using assms(2) by (auto simp: rows_of_def split: if_splits)
qed

lemma context_sets_rows:
  assumes "distinct (map task_id tasks)" and "compute_context_sets tasks = Some cs" and "tasks \<noteq> []"
  obtains s e where "must_rows tasks = Some s" "must_err_rows tasks = Some e"
    "\<And>k i. k < length tasks \<Longrightarrow>
       list_all (has_out i) (cs_required cs (task_id (tasks ! k))) \<and> (cs_must_err cs (task_id (tasks ! k)) \<longrightarrow> has_err i)
       \<longleftrightarrow> holds_at tasks s e k i"
proof -
  obtain s m e y where rows: "must_rows tasks = Some s" "may_rows tasks = Some m" "must_err_rows tasks = Some e" "may_err_rows tasks = Some y"
    using must_rows_end may_rows_end flags_end(1,2) by blast
  with assms(2,3) have cs: "cs_required cs = rows_of tasks (\<lambda>i. ids_where tasks (\<lambda>j. must_in (outputs_flags tasks) (build_preds tasks) s i ! j))"
      "cs_must_err cs = flag_of tasks e"
    by (auto simp: compute_context_sets_def Let_def)
  show ?thesis
  proof (rule that [OF rows(1,3)])
    fix k i assume k: "k < length tasks"
    have "set (cs_required cs (task_id (tasks ! k))) = set (ids_where tasks (\<lambda>j. must_in (outputs_flags tasks) (build_preds tasks) s k ! j))"
      by (simp add: cs set_rows_of [OF assms(1) k])
    moreover have "cs_must_err cs (task_id (tasks ! k)) = e ! k"
      by (simp add: cs flag_of_def last_index_distinct [OF assms(1) k])
    ultimately show "list_all (has_out i) (cs_required cs (task_id (tasks ! k))) \<and> (cs_must_err cs (task_id (tasks ! k)) \<longrightarrow> has_err i)
       \<longleftrightarrow> holds_at tasks s e k i"
      by (auto simp: list_all_iff holds_at_def ids_where_def)
  qed
qed

subsection \<open>Along the edges\<close>

lemma holds_along:
  assumes rows: "must_rows tasks = Some s" "must_err_rows tasks = Some e"
    and k: "k < length tasks" and k': "k' < length tasks" and p: "p \<in> set (build_preds tasks ! k')" "pe_idx p = Some k"
    and i: "holds_at tasks s e k i" and j: "grows i j"
    and way: "if pe_err p then has_err j else task_has_output (tasks ! k) \<longrightarrow> has_out j (task_id (tasks ! k))"
  shows "holds_at tasks s e k' j"
  unfolding holds_at_def
proof (intro conjI allI impI)
  note sq = must_rows_solution(1) [OF rows(1)]
  fix x assume x: "x < length tasks" and must: "must_in (outputs_flags tasks) (build_preds tasks) s k' ! x"
  from must have "source_row (outputs_flags tasks) s p k ! x" using p by (auto simp: must_in_nth [OF sq k' x])
  then have row: "s ! k ! x" "\<not> (pe_err p \<and> task_has_output (tasks ! k) \<and> x = k)"
    by (simp_all add: source_row_nth [OF sq k' p x])
  from row(1) have "must_step (outputs_flags tasks) (build_preds tasks) s k ! x"
    by (simp add: must_rows_solution(2) [OF rows(1) k])
  then have "must_in (outputs_flags tasks) (build_preds tasks) s k ! x \<or> task_has_output (tasks ! k) \<and> x = k"
    by (simp add: must_step_def with_own_nth [OF length_must_in [OF sq k] k x])
  then show "has_out j (task_id (tasks ! x))"
    using i j way row(2) x by (auto simp: holds_at_def grows_def split: if_splits)
next
  assume "e ! k'"
  then have "must_err_step (build_preds tasks) e k'" by (simp add: must_err_solution(2) [OF rows(2) k'])
  then have "pe_err p \<or> e ! k" using p by (force simp: must_err_step_def list_all_iff split: if_splits)
  then show "has_err j" using way i j by (auto simp: holds_at_def grows_def split: if_splits)
qed

lemma holds_at_start:
  assumes rows: "must_rows tasks = Some s" "must_err_rows tasks = Some e" and "tasks \<noteq> []"
  shows "holds_at tasks s e 0 i"
proof -
  note sq = must_rows_solution(1) [OF rows(1)]
  have p: "start_edge \<in> set (build_preds tasks ! 0)" and n: "0 < length tasks" using assms(3) start_pred by auto
  have "\<not> must_in (outputs_flags tasks) (build_preds tasks) s 0 ! x" if "x < length tasks" for x
    using p by (force simp: must_in_nth [OF sq n that] start_edge_def)
  moreover have "\<not> must_err_step (build_preds tasks) e 0"
  proof
    assume "must_err_step (build_preds tasks) e 0"
    moreover have "build_preds tasks ! 0 \<noteq> []" using p by auto
    ultimately show False using p by (auto simp: must_err_step_def list_all_iff start_edge_def dest: bspec)
  qed
  ultimately show ?thesis using must_err_solution(2) [OF rows(2) n] by (simp add: holds_at_def)
qed

text \<open>Where the engine goes there is an edge.\<close>

lemma switch_edge_ref:
  "c \<in> set cs \<Longrightarrow> prefix_of ''$'' (case_goto c) \<Longrightarrow> last_index tasks (drop 1 (case_goto c)) = Some j \<Longrightarrow>
     (j, \<lparr>pe_idx = Some i, pe_err = False\<rparr>) \<in> set (switch_edges tasks i added cs)"
  by (induction cs arbitrary: added) (auto split: option.splits)

lemma switch_edge_next:
  "c \<in> set cs \<Longrightarrow> case_goto c = goto_next \<Longrightarrow> Suc i < length tasks \<Longrightarrow>
     (Suc i, \<lparr>pe_idx = Some i, pe_err = False\<rparr>) \<in> set (switch_edges tasks i False cs)"
  by (induction cs) (auto simp: goto_next_def split: option.splits)

lemma edge_in_graph:
  "k < length tasks \<Longrightarrow> (k', p) \<in> set (edges_out tasks (k, tasks ! k)) \<Longrightarrow> k' < length tasks \<Longrightarrow> p \<in> set (build_preds tasks ! k')"
proof -
  assume k: "k < length tasks" and e: "(k', p) \<in> set (edges_out tasks (k, tasks ! k))" and k': "k' < length tasks"
  from k have "(k, tasks ! k) \<in> set (enumerate 0 tasks)" by (auto simp: enumerate_eq_zip in_set_zip intro!: exI [of _ k])
  with e have "(k', p) \<in> set (graph tasks)" by (auto simp: graph_def)
  with k' show ?thesis by (simp add: pred_iff)
qed

lemma switch_edge:
  assumes valid: "validate_definition d = None" "distinct (map task_id (def_tasks d))" and k: "k < length (def_tasks d)"
    and c: "c \<in> set (task_switch (def_tasks d ! k))" "case_goto c \<noteq> goto_end" and k': "next_index d k (case_goto c) = Some k'"
  shows "k' < length (def_tasks d)" and "\<lparr>pe_idx = Some k, pe_err = False\<rparr> \<in> set (build_preds (def_tasks d) ! k')"
proof -
  let ?e = "\<lparr>pe_idx = Some k, pe_err = False\<rparr>"
  have "k' < length (def_tasks d) \<and> (k', ?e) \<in> set (switch_edges (def_tasks d) k False (task_switch (def_tasks d ! k)))"
  proof (cases "case_goto c = goto_next")
    case True
    moreover have "Suc k < length (def_tasks d)"
      using valid_switch [OF valid(1) k] c True by (auto simp: target_ok_def goto_next_def)
    ultimately show ?thesis using k' switch_edge_next [OF c(1) True] by (auto simp: next_index_def)
  next
    case False
    with valid_switch [OF valid(1) k] c obtain x where g: "case_goto c = ''$'' @ x" by (auto simp: target_ok_def)
    from False k' g have "k' < length (def_tasks d) \<and> task_id (def_tasks d ! k') = x"
      by (auto simp: next_index_def task_index_def dest: index_of_Some split: if_splits)
    with g switch_edge_ref [OF c(1), of "def_tasks d" k' k False] last_index_distinct [OF valid(2), of k'] show ?thesis
      by (auto simp: prefix_of_append)
  qed
  then show "k' < length (def_tasks d)" "?e \<in> set (build_preds (def_tasks d) ! k')"
    using edge_in_graph [OF k] by (auto simp: edges_out_def)
qed

lemma error_edge:
  assumes valid: "distinct (map task_id (def_tasks d))" and k: "k < length (def_tasks d)" and k': "k' < length (def_tasks d)"
    and c: "c \<in> set (task_on_error (def_tasks d ! k))" "err_goto c \<noteq> []" "err_goto c \<noteq> goto_end" "err_goto c = task_id (def_tasks d ! k')"
  shows "\<lparr>pe_idx = Some k, pe_err = True\<rparr> \<in> set (build_preds (def_tasks d) ! k')"
proof -
  have "last_index (def_tasks d) (err_goto c) = Some k'" using last_index_distinct [OF valid k'] c(4) by simp
  with c have "(k', \<lparr>pe_idx = Some k, pe_err = True\<rparr>) \<in> set (error_edges (def_tasks d) k (task_on_error (def_tasks d ! k)))"
    by (force simp: error_edges_def)
  then show ?thesis using edge_in_graph [OF k _ k'] by (simp add: edges_out_def)
qed

subsection \<open>The end\<close>

lemma terminal_sets:
  assumes "output_context_sets d = Some (required, optional, err_required, err_optional)" and "def_tasks d \<noteq> []"
    and "compute_context_sets (def_tasks d) = Some cs" and "k < length (def_tasks d)"
    and "u \<in> set (terminals_of cs (length (def_tasks d)) (k, def_tasks d ! k))"
  shows "set required \<subseteq> set (es_must u)" and "err_required \<longrightarrow> es_err_min u"
proof -
  let ?ts = "concat (map (terminals_of cs (length (def_tasks d))) (enumerate 0 (def_tasks d)))"
  have "(k, def_tasks d ! k) \<in> set (enumerate 0 (def_tasks d))"
    using assms(4) by (auto simp: enumerate_eq_zip in_set_zip intro!: exI [of _ k])
  then have u: "u \<in> set ?ts" using assms(5) by auto
  with assms(1-3) obtain t rest where "?ts = t # rest"
    "required = filter (\<lambda>x. list_all (\<lambda>u. x \<in> set (es_must u)) rest) (es_must t)" "err_required = list_all es_err_min ?ts"
    by (cases ?ts) (auto simp: output_context_sets_def Let_def)
  with u show "set required \<subseteq> set (es_must u)" "err_required \<longrightarrow> es_err_min u"
    by (auto simp: list_all_iff)
qed

lemma output_ready_at:
  assumes "def_tasks d \<noteq> []" and "compute_context_sets (def_tasks d) = Some cs" and "k < length (def_tasks d)"
    and "u \<in> set (terminals_of cs (length (def_tasks d)) (k, def_tasks d ! k))"
    and "list_all (has_out i) (es_must u)" and "es_err_min u \<longrightarrow> has_err i"
  shows "output_ready d i"
proof -
  obtain r opt e eo where o: "output_context_sets d = Some (r, opt, e, eo)"
    using data_flow_sets [of d] by auto
  from terminal_sets [OF o assms(1-4)] assms(5,6) o show ?thesis by (auto simp: output_ready_def list_all_iff)
qed

lemma complete_instance_grows:
  "complete_instance sv i db = (out, j, db') \<Longrightarrow> grows i j \<and> (inst_status j = inst_status i \<or> inst_status j = Failed)"
  by (auto simp: complete_instance_def compute_output_def and_then_def evaluated_def stop_fail_def stop_with_def
      fail_instance_def failed_instance_def grows_def context_simps eval_shape_ctx_def
      split: option.splits sum.splits if_splits prod.splits)

lemma output_ready_grows: "output_ready d i \<Longrightarrow> grows i j \<Longrightarrow> output_ready d j"
  by (auto simp: output_ready_def grows_def list_all_iff split: option.splits)

subsection \<open>The engine\<close>

text \<open>A checked definition and its sets.\<close>

definition checked :: "process_definition \<Rightarrow> context_sets \<Rightarrow> bool" where
  "checked d cs \<longleftrightarrow> validate_definition d = None \<and> distinct (map task_id (def_tasks d))
     \<and> compute_context_sets (def_tasks d) = Some cs"

lemma ready_at:
  assumes "checked d cs"
  obtains s e where "must_rows (def_tasks d) = Some s" "must_err_rows (def_tasks d) = Some e"
    "\<And>k i. k < length (def_tasks d) \<Longrightarrow> inst_task i = task_id (def_tasks d ! k) \<Longrightarrow> ready d cs i \<longleftrightarrow> holds_at (def_tasks d) s e k i"
proof -
  have "def_tasks d \<noteq> []" using assms valid_definition_tags by (simp add: checked_def)
  from context_sets_rows [OF _ _ this] assms obtain s e where se:
      "must_rows (def_tasks d) = Some s" "must_err_rows (def_tasks d) = Some e"
      "\<And>k i. k < length (def_tasks d) \<Longrightarrow>
         list_all (has_out i) (cs_required cs (task_id (def_tasks d ! k))) \<and> (cs_must_err cs (task_id (def_tasks d ! k)) \<longrightarrow> has_err i)
         \<longleftrightarrow> holds_at (def_tasks d) s e k i"
    unfolding checked_def by metis
  show ?thesis by (rule that [OF se(1,2)]) (use se(3) in \<open>auto simp: ready_def\<close>)
qed

lemma ready_grows: "ready d cs i \<Longrightarrow> grows i j \<Longrightarrow> inst_task j = inst_task i \<Longrightarrow> ready d cs j"
  by (auto simp: ready_def grows_def list_all_iff)

text \<open>A handler stops at its task, or at the target of an error route, or at the end.\<close>

lemma routed_promised:
  assumes ch: "checked d cs" and k: "k < length (def_tasks d)" and i: "ready d cs i" "inst_task i = task_id (def_tasks d ! k)"
    and st: "inst_status i = Running" and j: "routed (def_tasks d ! k) i j"
  shows "promised d cs j"
proof -
  have g: "grows i j" using j by (simp add: routed_def)
  have here: "ready d cs j" if "inst_task j = inst_task i" using ready_grows [OF i(1) g that] .
  have end_here: "output_ready d j"
    if "c \<in> set (task_on_error (def_tasks d ! k))" "err_goto c = goto_end" "has_err j" for c
  proof -
    have ne: "def_tasks d \<noteq> []" using k by auto
    have "add_terminal cs (def_tasks d ! k) False True True
        \<in> set (terminals_of cs (length (def_tasks d)) (k, def_tasks d ! k))"
      using that by (auto simp: terminals_of_def list_ex_iff)
    from output_ready_at [OF ne _ k this, of j] ch i g that(3) show ?thesis
      by (auto simp: checked_def add_terminal_def ready_def grows_def list_all_iff Let_def)
  qed
  have there: "ready d cs j"
    if c: "c \<in> set (task_on_error (def_tasks d ! k))" "err_goto c \<noteq> []" "err_goto c \<noteq> goto_end" "inst_task j = err_goto c"
      and e: "has_err j" for c
  proof -
    obtain k' where k': "k' < length (def_tasks d)" "err_goto c = task_id (def_tasks d ! k')"
      using valid_on_error(1) [OF _ k c(1)] ch c(2,3) by (auto simp: checked_def in_set_conv_nth)
    obtain s r where rows: "must_rows (def_tasks d) = Some s" "must_err_rows (def_tasks d) = Some r"
      and at: "\<And>k i. k < length (def_tasks d) \<Longrightarrow> inst_task i = task_id (def_tasks d ! k) \<Longrightarrow> ready d cs i \<longleftrightarrow> holds_at (def_tasks d) s r k i"
      using ready_at [OF ch] by metis
    have "\<lparr>pe_idx = Some k, pe_err = True\<rparr> \<in> set (build_preds (def_tasks d) ! k')"
      using error_edge [OF _ k k'(1) c(1-3) k'(2)] ch by (simp add: checked_def)
    from holds_along [OF rows k k'(1) this _ _ g] i at [OF k i(2)] e have "holds_at (def_tasks d) s r k' j" by simp
    with at [OF k'(1)] c(4) k'(2) show ?thesis by simp
  qed
  from j st here end_here there show ?thesis unfolding routed_def promised_def by (metis status.distinct(1))
qed

lemma switched_promised:
  assumes ch: "checked d cs" and k: "k < length (def_tasks d)" and i: "ready d cs i" "inst_task i = task_id (def_tasks d ! k)"
    and r: "run_task sv now i (def_tasks d ! k) db = Inr (g, j, db')"
  shows "g = goto_end \<Longrightarrow> output_ready d j"
    and "g \<noteq> goto_end \<Longrightarrow> next_index d k g = Some k' \<Longrightarrow> k' < length (def_tasks d) \<and> ready d cs (moved d k' j)"
proof -
  have gr: "grows i j" using run_task_leaves(1) [OF r] by (simp add: stays_def)
  obtain c where c: "c \<in> set (task_switch (def_tasks d ! k))" "case_goto c = g" using run_task_leaves(2) [OF r] by blast
  note own = run_task_leaves(3) [OF r]
  show "output_ready d j" if "g = goto_end"
  proof -
    let ?u = "add_terminal cs (def_tasks d ! k) True (cs_must_err cs (task_id (def_tasks d ! k))) (cs_may_err cs (task_id (def_tasks d ! k)))"
    have ne: "def_tasks d \<noteq> []" using k by auto
    have "?u \<in> set (terminals_of cs (length (def_tasks d)) (k, def_tasks d ! k))"
      using c that by (auto simp: terminals_of_def list_ex_iff)
    from output_ready_at [OF ne _ k this, of j] ch i gr own show ?thesis
      by (auto simp: checked_def add_terminal_def ready_def grows_def list_all_iff Let_def)
  qed
  show "k' < length (def_tasks d) \<and> ready d cs (moved d k' j)" if g: "g \<noteq> goto_end" "next_index d k g = Some k'"
  proof -
    have e: "k' < length (def_tasks d)" "\<lparr>pe_idx = Some k, pe_err = False\<rparr> \<in> set (build_preds (def_tasks d) ! k')"
      using switch_edge [OF _ _ k c(1)] ch g c(2) by (auto simp: checked_def)
    obtain s r where rows: "must_rows (def_tasks d) = Some s" "must_err_rows (def_tasks d) = Some r"
      and at: "\<And>k i. k < length (def_tasks d) \<Longrightarrow> inst_task i = task_id (def_tasks d ! k) \<Longrightarrow> ready d cs i \<longleftrightarrow> holds_at (def_tasks d) s r k i"
      using ready_at [OF ch] by metis
    from holds_along [OF rows k e _ _ gr] i own at [OF k i(2)] have "holds_at (def_tasks d) s r k' j" by simp
    then have "holds_at (def_tasks d) s r k' (moved d k' j)" by (simp add: holds_at_def moved_def has_out_def has_err_def)
    with at [OF e(1)] e(1) show ?thesis by (simp add: moved_def task_id_at_def)
  qed
qed

lemma failed_promised [simp]: "promised d cs (failed_instance reason i)"
  by (simp add: promised_def failed_instance_def)

lemma complete_promised:
  assumes "output_ready d i" and "inst_status i = Completed"
  shows "promised d cs (fst (snd (complete_instance sv i db)))"
proof -
  obtain out j db' where "complete_instance sv i db = (out, j, db')" by (cases "complete_instance sv i db")
  with complete_instance_grows [OF this] assms output_ready_grows show ?thesis by (auto simp: promised_def)
qed

lemma run_tasks_promised:
  assumes ch: "checked d cs" and k: "k < length (def_tasks d)" and i: "ready d cs i" "inst_task i = task_id (def_tasks d ! k)"
    and st: "inst_status i = Running"
  shows "promised d cs (fst (snd (run_tasks sv now d left (Some k) i db)))"
  using k i st
proof (induction left arbitrary: k i db)
  have task: "promised d cs j" if "run_task sv now i (def_tasks d ! k) db = Inl (out, j, db')"
    "k < length (def_tasks d)" "ready d cs i" "inst_task i = task_id (def_tasks d ! k)" "inst_status i = Running" for k i db out j db'
    using run_task_flow [of "def_tasks d ! k" i db sv now] that routed_promised [OF ch that(2-5)] by simp
  have ended: "promised d cs (fst (snd (complete_instance sv (ended j) db')))" if "output_ready d j" for j db'
    by (rule complete_promised) (use output_ready_grows [OF that] in \<open>auto simp: ended_def grows_def has_out_def has_err_def\<close>)
  have going: "promised d cs (moved d k' j)" if "ready d cs (moved d k' j)" "inst_status j = Running" for k' j
    using that by (simp add: promised_def moved_def)
  have same: "i\<lparr>inst_task := task_id (def_tasks d ! k)\<rparr> = i" if "inst_task i = task_id (def_tasks d ! k)" for i :: proc_instance and k
    using that [symmetric] by simp
  {
    case 0
    show ?case
    proof (cases "run_task sv now i (def_tasks d ! k) db")
      case (Inl e)
      obtain out j db' where e: "e = (out, j, db')" by (cases e)
      from task [OF Inl [unfolded e] 0] Inl e same [OF 0(3)] 0(1) show ?thesis by (subst run_tasks.simps) simp
    next
      case (Inr r)
      obtain g j db' where r: "r = (g, j, db')" by (cases r)
      have "inst_status j = Running" using run_task_leaves(1) [OF Inr [unfolded r]] 0(4) by (simp add: stays_def)
      with switched_promised [OF ch 0(1-3) Inr [unfolded r]] Inr r same [OF 0(3)] 0(1) ended going show ?thesis
        by (subst run_tasks.simps) (auto split: option.splits)
    qed
  next
    case (Suc left)
    show ?case
    proof (cases "run_task sv now i (def_tasks d ! k) db")
      case (Inl e)
      obtain out j db' where e: "e = (out, j, db')" by (cases e)
      from task [OF Inl [unfolded e] Suc.prems] Inl e same [OF Suc.prems(3)] Suc.prems(1) show ?thesis
        by (subst run_tasks.simps) simp
    next
      case (Inr r)
      obtain g j db' where r: "r = (g, j, db')" by (cases r)
      have st: "inst_status j = Running" using run_task_leaves(1) [OF Inr [unfolded r]] Suc.prems(4) by (simp add: stays_def)
      note next_task = switched_promised [OF ch Suc.prems(1-3) Inr [unfolded r]]
      have "promised d cs (fst (snd (run_tasks sv now d left (Some k') (moved d k' j) db')))"
        if "g \<noteq> goto_end" "next_index d k g = Some k'" for k'
        using Suc.IH [of k' "moved d k' j"] next_task(2) [OF that] st by (auto simp: moved_def task_id_at_def)
      with next_task st Inr r same [OF Suc.prems(3)] Suc.prems(1) ended going show ?thesis
        by (subst run_tasks.simps) (auto split: option.splits)
    qed
  }
qed

text \<open>
  C40: What the data-flow analysis requires is there when the program runs. At the first task it
  requires nothing. An advance that starts where the required outputs and error are in the context
  ends, whatever the task does (error routes, loops and crashes included), where they are again; and
  an instance that completed has what the analysis requires for the output of the process.
\<close>

theorem required_outputs_are_there:
  assumes "checked d cs"
  shows "(inst_task i = task_id (hd (def_tasks d)) \<longrightarrow> ready d cs i)
    \<and> (inst_status i = Running \<longrightarrow> get_definition db (inst_process i) (inst_version i) = Some d \<longrightarrow> ready d cs i \<longrightarrow>
         promised d cs (fst (snd (advance sv now i db))))"
proof (intro conjI impI)
  have ne: "def_tasks d \<noteq> []" "\<forall>t \<in> set (def_tasks d). task_id t \<noteq> []"
    using assms valid_definition_tags by (auto simp: checked_def)
  obtain s e where rows: "must_rows (def_tasks d) = Some s" "must_err_rows (def_tasks d) = Some e"
    and at: "\<And>k i. k < length (def_tasks d) \<Longrightarrow> inst_task i = task_id (def_tasks d ! k) \<Longrightarrow> ready d cs i \<longleftrightarrow> holds_at (def_tasks d) s e k i"
    using ready_at [OF assms] by metis
  show "ready d cs i" if "inst_task i = task_id (hd (def_tasks d))"
    using at [of 0 i] holds_at_start [OF rows ne(1)] ne(1) that by (simp add: hd_conv_nth)
  assume run: "inst_status i = Running" "get_definition db (inst_process i) (inst_version i) = Some d" "ready d cs i"
  then have t: "inst_task i \<in> task_id ` set (def_tasks d)" by (simp add: ready_def)
  then obtain k where k: "index_of (inst_task i) (def_tasks d) = Some k" using index_of_None by fastforce
  then have ix: "task_index (def_tasks d) (inst_task i) = Some k" using t ne(2) by (auto simp: task_index_def)
  have "promised d cs (fst (snd (run_tasks sv now d left (Some k) (i\<lparr>inst_config := c\<rparr>) db)))" for left c
    by (rule run_tasks_promised [OF assms])
      (use index_of_Some [OF k] run ready_grows [OF run(3), of "i\<lparr>inst_config := c\<rparr>"] in
        \<open>simp_all add: grows_def has_out_def has_err_def\<close>)
  moreover have "promised d cs (fst (snd (run_tasks sv now d left (Some k) i db)))" for left
    by (rule run_tasks_promised [OF assms]) (use index_of_Some [OF k] run in simp_all)
  ultimately show "promised d cs (fst (snd (advance sv now i db)))"
    using run ix ne by (auto simp: advance_def Let_def ready_def split: sum.splits)
qed

subsection \<open>Example\<close>

text \<open>\<open>a\<close> exports and goes on to \<open>b\<close>, which exports and goes on to \<open>c\<close>, also when its call fails.\<close>

definition flow_definition :: process_definition where
  "flow_definition = demo_definition\<lparr>def_tasks :=
     [demo_task\<lparr>task_id := ''a'', task_output := Some (GStr ''x''), task_switch := [\<lparr>case_when = [], case_goto = goto_next\<rparr>]\<rparr>,
      demo_task\<lparr>task_id := ''b'', task_output := Some (GStr ''y''), task_switch := [\<lparr>case_when = [], case_goto = ''$c''\<rparr>],
        task_on_error := [\<lparr>err_codes = [], err_retries = 0, err_goto = ''c'', err_not_reached = None\<rparr>]\<rparr>,
      demo_task\<lparr>task_id := ''c''\<rparr>]\<rparr>"

definition flow_sets :: context_sets where
  "flow_sets = the (compute_context_sets (def_tasks flow_definition))"

definition flow_db :: database where
  "flow_db = (db_with [])\<lparr>d_definitions := [((''pay'', 1), flow_definition)]\<rparr>"

definition flow_instance :: proc_instance where
  "flow_instance = demo_root\<lparr>inst_task := ''b'', inst_context := [(''outputs'', GObj [(''a'', GStr ''x'')])]\<rparr>"

theorem required_outputs_are_there_witness:
  "cs_required flow_sets ''c'' = [''a''] \<and> cs_optional flow_sets ''c'' = [''b'']
   \<and> inst_task (fst (snd (advance (demo_services 500) 0 flow_instance flow_db))) = ''c''
   \<and> ready flow_definition flow_sets (fst (snd (advance (demo_services 500) 0 flow_instance flow_db)))"
proof -
  have sets: "cs_required flow_sets ''b'' = [''a'']" "cs_required flow_sets ''c'' = [''a'']" "cs_optional flow_sets ''c'' = [''b'']"
    "\<not> cs_must_err flow_sets ''b''" by code_simp+
  have ch: "checked flow_definition flow_sets"
  proof -
    have "validate_definition flow_definition = None" "distinct (map task_id (def_tasks flow_definition))" by code_simp+
    then show ?thesis using data_flow_sets [of flow_definition] by (auto simp: checked_def flow_sets_def)
  qed
  have "inst_status flow_instance = Running" "get_definition flow_db (inst_process flow_instance) (inst_version flow_instance) = Some flow_definition"
    by (simp_all add: flow_instance_def demo_root_def to_instance_def blank_row_def get_definition_def flow_db_def)
  moreover have "ready flow_definition flow_sets flow_instance"
    using sets by (simp add: ready_def flow_instance_def flow_definition_def has_out_def outputs_of_def lookup_def)
  ultimately have p: "promised flow_definition flow_sets (fst (snd (advance (demo_services 500) 0 flow_instance flow_db)))"
    using required_outputs_are_there [OF ch, of flow_instance flow_db "demo_services 500" 0] by blast
  have "(case advance (demo_services 500) 0 flow_instance flow_db of (out, j, db) \<Rightarrow> inst_task j = ''c'' \<and> inst_status j = Running)"
    by code_simp
  with p sets show ?thesis by (auto simp: promised_def split: prod.splits)
qed

subsection \<open>Two differences between the analysis and the engine\<close>

text \<open>
  The analysis counts an error route to the end among the places where the output of the process is
  built, but the engine completes the instance there without building it.
\<close>

lemma error_end_without_output:
  assumes "inst_status i \<noteq> Cancelling" and "\<not> may_retry t code i"
    and "match_on_error t code = Some c" and "err_goto c = goto_end"
  shows "fst (handle_call_error sv db now i t msg code) = Terminal"
    and "inst_status (snd (handle_call_error sv db now i t msg code)) = Completed"
    and "lookup (inst_context (snd (handle_call_error sv db now i t msg code))) ''output'' = lookup (inst_context i) ''output''"
  using assms by (simp_all add: handle_call_error_def Let_def lookup_put goto_end_def)

text \<open>
  An error route clears the failing task's output also where an earlier round of a loop has stored
  it: an output that is there is neither required nor optional.
\<close>

definition loop_definition :: process_definition where
  "loop_definition = demo_definition\<lparr>def_tasks :=
     [demo_task\<lparr>task_id := ''a'', task_output := Some (GStr ''x''), task_switch := [\<lparr>case_when = [], case_goto = ''$a''\<rparr>],
        task_on_error := [\<lparr>err_codes = [], err_retries = 0, err_goto = ''c'', err_not_reached = None\<rparr>]\<rparr>,
      demo_task\<lparr>task_id := ''c''\<rparr>]\<rparr>"

lemma loop_output_unknown:
  defines "db \<equiv> (db_with [])\<lparr>d_definitions := [((''pay'', 1), loop_definition)]\<rparr>"
    and "i \<equiv> demo_root\<lparr>inst_task := ''a'', inst_context := [(''outputs'', GObj [(''a'', GStr ''x'')])]\<rparr>"
  shows "case advance (demo_services 500) 0 i db of (out, j, _) \<Rightarrow> inst_task j = ''c'' \<and> has_out j ''a''"
    and "case compute_context_sets (def_tasks loop_definition) of
           None \<Rightarrow> False | Some cs \<Rightarrow> cs_required cs ''c'' = [] \<and> cs_optional cs ''c'' = []"
  unfolding db_def i_def by code_simp+

end
