(* ===== verification/Spec2Isabelle.thy ===== *)
theory Spec2Isabelle
  imports Pump EngineProps Mailbox Objects IdGen PageText RegistryProps InferSound SubsetProps DataflowSound
begin

text \<open>
  A verification library of genroc, a durable workflow engine in Go (\<open>src/internal\<close>).

  \<^bold>\<open>The program.\<close> Processes are definitions of tasks (\<open>internal/model\<close>) kept in a registry under
  versions and channels (\<open>internal/db/db_registry.go\<close>, \<open>internal/api/handlers.go\<close>). An instance of
  a definition is a row of a table. A worker claims runnable rows under a lease, advances each one
  task by task in memory (\<open>internal/engine\<close>) and writes it back in one transaction; children,
  external tasks, signals, delays, cancellation and retry go through the same rows
  (\<open>internal/db\<close>). Data flows between tasks by expressions (\<open>internal/expression\<close>) and templates
  (\<open>internal/template\<close>) and is checked against a subset of JSON schema (\<open>internal/schema\<close>).

  \<^bold>\<open>Theories and code.\<close>
  \<^item> Shared: \<open>Prelude\<close> (errors as sums, tables as lists of rows, \<open>UPDATE ... WHERE\<close> as
    \<^const>\<open>update_where\<close>), \<open>GoStrings\<close> (strings.*, strconv), \<open>Json\<close> and \<open>JsonText\<close> (float64 as
    rationals with rounding, dynamic values, their JSON text).
  \<^item> Schemas: \<open>SchemaNode\<close> (schema.go, navigate.go, checkdoc.go), \<open>SchemaValidate\<close> (validate.go:
    \<^const>\<open>conform\<close>, \<^const>\<open>validate\<close>; the meaning \<^const>\<open>fits\<close>), \<open>SchemaNav\<close> (navigate.go and the
    handle of schema.go: paths, lookups, secrets), \<open>Reached\<close> (the nodes lookups build), \<open>Secrets\<close>,
    \<open>Subset\<close> (subset.go) and \<open>SubsetProps\<close> (the comparison returns, and what it means).
  \<^item> Type inference: \<open>Infer\<close> (infer.go, ops.go), \<open>Shape\<close> (the meaning \<^const>\<open>has_shape\<close> of a type),
    \<open>ShapeNav\<close> (lookups describe the value), \<open>Whole\<close> and \<open>InferOps\<close> (operators), \<open>InferSound\<close>.
  \<^item> Expressions and templates: \<open>Expr\<close> (eval.go, ops.go, refs.go), \<open>Template\<close> (template.go),
    \<open>Evaluator\<close> (engine/evaluator.go with lazy loading of large values).
  \<^item> Definitions: \<open>Model\<close> and \<open>Definition\<close> (model/definition.go: structure, checks, wire forms,
    configuration), \<open>LikeMatch\<close> (error-code patterns), \<open>Transport\<close> (transport.go), \<open>IdGen\<close>
    (idgen.go, 128-bit ids on machine words).
  \<^item> Database: \<open>Rows\<close> (columns, context encoding, stored objects), \<open>Lifecycle\<close>
    (db_lifecycle.go), \<open>Claim\<close> (db_claim.go), \<open>Signals\<close> (db_signals.go, db_external.go), \<open>Retry\<close>
    (RetryProcess), \<open>Objects\<close> and \<open>Mailbox\<close> (their properties).
  \<^item> Listings: \<open>Placeholders\<close> (pg_rewriter.go), \<open>Paginate\<close>, \<open>Pages\<close>, \<open>Listings\<close>, \<open>PageText\<close>
    (paginate.go and the listings of instances and external tasks).
  \<^item> Registry: \<open>TopoSort\<close> (topoSort), \<open>Registry\<close> (db_registry.go and its statements), \<open>Apply\<close>
    (the handlers that change it), \<open>RegistryProps\<close>.
  \<^item> Static checks: \<open>Dataflow\<close> (validation/context.go: the graph of a definition and which outputs a
    task can read), \<open>Fixpoint\<close> and \<open>DataflowProps\<close> (its fixpoints are reached and solve their
    equations), \<open>DataflowEngine\<close> and \<open>DataflowSound\<close> (the engine keeps what the analysis promises).
  \<^item> Engine: \<open>Engine\<close> (engine.go: advance and its actions), \<open>EngineProps\<close>. The system as a whole:
    \<open>Tree\<close> and \<open>TreeOps\<close> (the invariant of the instance tree and that every transaction keeps it),
    \<open>Leases\<close> and \<open>Settled\<close> (what a transaction leaves alone), \<open>EngineTree\<close> and \<open>EngineSteps\<close>
    (the step relation of workers and API over one database, with the copies in flight),
    \<open>SystemProps\<close> (its properties, and the system under a free clock), \<open>Pump\<close> (a tick, its
    goroutines in any order, is a run of it).

  \<^bold>\<open>State and operations.\<close> A record has the fields of the Go struct or the columns of the table; a
  function of the code is one definition, with its early returns as branches and a returned error
  as \<^const>\<open>Inl\<close>. A statement is a function of the tables and a transaction a function of the
  database, applied in one step; interleaving is the order of steps in \<open>EngineSteps\<close>. Go maps are
  association lists; where the code ranges over one, the list order stands for the unspecified
  order. Clocks, random ids, HTTP answers, hashes and the environment are arguments.

  \<^bold>\<open>Time and leases.\<close> The code does not enforce that an advance ends within its lease; it renews
  leases in time, and when that fails another worker takes the instance over and both execute it
  (\<open>OverwhelmError\<close> in engine.go). The properties of reachable states are about timely runs, in
  which no advance outlives its lease: the step \<open>Tick\<close> of \<^const>\<open>step\<close> goes that far.
  \<^const>\<open>free_step\<close> lets the clock go on; \<open>claims_are_exclusive\<close> and \<open>tick_is_a_run\<close> are about
  such runs, and \<open>overrun_lease_is_stolen\<close> is one in which two workers hold an instance.

  \<^bold>\<open>Requests to the registry\<close> are functions of the registry, so runs of them are runs in which
  requests are served one at a time. The code has no lock for this: \<open>concurrent_applies_overwrite\<close>
  shows what two applies that overlap do.

  \<^bold>\<open>What the lemmas show.\<close> For the whole system: no instance gets stuck, a settled root has a
  settled tree, claims are exclusive until a lease is overrun, finished work is final, a tick
  sweeps, claims, advances and writes exactly what it should. For the
  engine: only_once tasks are not repeated after a takeover, answered calls are not retried, calls
  whose connection breaks are retried whenever a rule has retries left, an
  external task is resolved once, signals are first in first out. For data: stored values read
  back, no reference dangles, validation returns, lazy conditions answer like eager ones, and the
  outputs a task is checked against are there when it runs. With the assumptions on the document
  that each states, and counterexamples beside it for documents outside of them: what validation
  accepts fits, redaction hides what the secret check flags, inferred types describe the values that
  come out, and a child accepts what the check of its input lets through. For listings: following the cursors lists everything once, statements have as
  many placeholders as arguments. For the registry: versions are immutable while requests do not overlap, a batch is ordered
  children first, the cascade ends. Lemmas that show a defect or a difference from a comment are
  named where they stand (for instance \<open>retry_delay_overflows\<close>, \<open>cascade_leaves_stale_parent\<close>).

  \<^bold>\<open>Bounds.\<close> \<open>validate_fuel\<close> bounds the descent of a validation; it is enough for documents whose
  references do not circle through unions (\<open>validation_returns\<close>). The depth of a retry is the
  length of the call stack (\<open>revive_enough\<close>). An advance runs at most 1000 tasks, the bound of the
  code. The ordering of a batch has one level of search per definition (\<open>visit_enough\<close>), the
  cascade one round more than there are channel entries (\<open>cascade_ends\<close>). A fixpoint over rows of
  \<open>n\<close> bits has \<open>n * n\<close> passes (\<open>data_flow_analysis_ends\<close>). A comparison of schemas goes through
  every pair of references at most once (\<open>is_subset_returns\<close>). Lookups through unions and
  references take their depth as an argument: more of it never changes an answer
  (\<open>lookup_property_enough\<close>, \<open>infer_index_enough\<close>).

  \<^bold>\<open>Not modelled.\<close> The context schemas and child checks of \<open>internal/validation\<close> (parameters of
  \<open>Apply\<close>), schema normalization and joins, audit logs, most request decoding of the API, the
  command line tools, drivers and migrations. The expression parser and the regular-expression
  and crypto libraries are third-party or standard and stay parameters.
\<close>

end
